(* ===== verification/Prelude.thy ===== *)
theory Prelude
  imports Main "HOL-Library.Word"
begin

text \<open>
  What the component theories share: the C integer types as words, the outcome of a kernel
  routine (it returns, it panics, it sleeps on a channel, or the process exits) with its
  sequencing operator and its two correctness predicates, little-endian loads and stores on
  byte arrays and on the physical memory, and the generic lemmas on lists and words that the
  component proofs use.
\<close>

unbundle bit_operations_syntax

section \<open>C integer types\<close>

type_synonym u8 = "8 word"
type_synonym u16 = "16 word"
type_synonym u32 = "32 word"
type_synonym u64 = "64 word"

named_theorems res_simps "outcomes: sequencing, inversion, correctness predicates"
named_theorems bytes_simps "little-endian loads after stores"

section \<open>Outcomes of kernel routines\<close>

text \<open>
  The channels a kernel thread can sleep on. In the source a channel is the address of a
  global object; each constructor stands for one of those addresses.
\<close>

datatype chan =
    ChLog
  | ChPipeRead nat
  | ChPipeWrite nat
  | ChProc nat
  | ChTicks
  | ChBuf nat
  | ChSleepLock nat
  | ChInodeLock nat
  | ChDiskFree
  | ChCons
  | ChUart

text \<open>
  The outcome of a routine run from one state: \<open>Ret\<close> a value and the new state, \<open>Panic\<close>
  with the message given to \<^verbatim>\<open>panic()\<close>, \<open>Sleep\<close> on a channel (the caller's thread gives up
  the processor inside \<^verbatim>\<open>sleep()\<close>), or \<open>Exit\<close> (\<^verbatim>\<open>exit()\<close>, which does not return). \<open>Diverge\<close> marks
  a recursion of the source that the model cuts off at its fuel; total correctness excludes it.
\<close>

datatype ('a, 's) res =
    Ret 'a 's
  | Panic string
  | Sleep chan 's
  | Exit 's
  | Diverge

primrec bnd :: "('a, 's) res \<Rightarrow> ('a \<Rightarrow> 's \<Rightarrow> ('b, 's) res) \<Rightarrow> ('b, 's) res" where
  "bnd (Ret a s) f = f a s"
| "bnd (Panic e) f = Panic e"
| "bnd (Sleep c s) f = Sleep c s"
| "bnd (Exit s) f = Exit s"
| "bnd Diverge f = Diverge"

text \<open>
  A routine on a part of the state, run on the whole: \<open>get\<close> selects the part and \<open>put\<close>
  stores it back.
\<close>

primrec in_part :: "('t \<Rightarrow> 's) \<Rightarrow> ('a, 't) res \<Rightarrow> ('a, 's) res" where
  "in_part put (Ret a t) = Ret a (put t)"
| "in_part put (Panic e) = Panic e"
| "in_part put (Sleep c t) = Sleep c (put t)"
| "in_part put (Exit t) = Exit (put t)"
| "in_part put Diverge = Diverge"

text \<open>Partial correctness (every normal return satisfies \<open>Q\<close>) and total correctness.\<close>

primrec sat :: "('a, 's) res \<Rightarrow> ('a \<Rightarrow> 's \<Rightarrow> bool) \<Rightarrow> bool" where
  "sat (Ret a s) Q = Q a s"
| "sat (Panic e) Q = True"
| "sat (Sleep c s) Q = True"
| "sat (Exit s) Q = True"
| "sat Diverge Q = True"

primrec runs :: "('a, 's) res \<Rightarrow> ('a \<Rightarrow> 's \<Rightarrow> bool) \<Rightarrow> bool" where
  "runs (Ret a s) Q = Q a s"
| "runs (Panic e) Q = False"
| "runs (Sleep c s) Q = False"
| "runs (Exit s) Q = False"
| "runs Diverge Q = False"

lemma bnd_eq_Ret [res_simps]:
  "bnd m f = Ret b t \<longleftrightarrow> (\<exists>a s. m = Ret a s \<and> f a s = Ret b t)"
  by (cases m) auto

lemma bnd_cong [fundef_cong]:
  "m = m' \<Longrightarrow> (\<And>a s. m' = Ret a s \<Longrightarrow> f a s = g a s) \<Longrightarrow> bnd m f = bnd m' g"
  by (cases m') auto

lemma bnd_assoc: "bnd (bnd m f) g = bnd m (\<lambda>a s. bnd (f a s) g)"
  by (cases m) auto

lemma in_part_eq_Ret [res_simps]:
  "in_part put m = Ret a s \<longleftrightarrow> (\<exists>t. m = Ret a t \<and> s = put t)"
  by (cases m) auto

lemma sat_bnd [res_simps]: "sat (bnd m f) Q = sat m (\<lambda>a s. sat (f a s) Q)"
  by (cases m) auto

lemma runs_bnd [res_simps]: "runs (bnd m f) Q = runs m (\<lambda>a s. runs (f a s) Q)"
  by (cases m) auto

lemma sat_in_part [res_simps]: "sat (in_part put m) Q = sat m (\<lambda>a t. Q a (put t))"
  by (cases m) auto

lemma runs_in_part [res_simps]: "runs (in_part put m) Q = runs m (\<lambda>a t. Q a (put t))"
  by (cases m) auto

lemma satI: "(\<And>a s. m = Ret a s \<Longrightarrow> Q a s) \<Longrightarrow> sat m Q"
  by (cases m) auto

lemma satD: "sat m Q \<Longrightarrow> m = Ret a s \<Longrightarrow> Q a s"
  by auto

lemma sat_mono: "sat m P \<Longrightarrow> (\<And>a s. P a s \<Longrightarrow> Q a s) \<Longrightarrow> sat m Q"
  by (cases m) auto

lemma runs_mono: "runs m P \<Longrightarrow> (\<And>a s. P a s \<Longrightarrow> Q a s) \<Longrightarrow> runs m Q"
  by (cases m) auto

lemma runs_sat: "runs m Q \<Longrightarrow> sat m Q"
  by (cases m) auto

lemma runs_iff: "runs m Q \<longleftrightarrow> (\<exists>a s. m = Ret a s \<and> Q a s)"
  by (cases m) auto

lemma runsE:
  assumes "runs m Q"
  obtains a s where "m = Ret a s" and "Q a s"
  using assms by (cases m) auto

section \<open>Searching lists\<close>

primrec the_default :: "'a \<Rightarrow> 'a option \<Rightarrow> 'a" where
  "the_default d None = d"
| "the_default d (Some x) = x"

lemma find_SomeD: "find P xs = Some x \<Longrightarrow> x \<in> set xs \<and> P x"
  by (induction xs) (auto split: if_splits)

lemma find_NoneD: "find P xs = None \<Longrightarrow> x \<in> set xs \<Longrightarrow> \<not> P x"
  by (induction xs) (auto split: if_splits)

section \<open>Bounds of words\<close>

lemma unat_less_u64: "unat (w :: u64) < 2 ^ 64"
  by (rule order.strict_trans2[OF unsigned_less]) simp

lemma unat_less_u32: "unat (w :: u32) < 2 ^ 32"
  by (rule order.strict_trans2[OF unsigned_less]) simp

lemma unat_less_u16: "unat (w :: u16) < 2 ^ 16"
  by (rule order.strict_trans2[OF unsigned_less]) simp

lemma unat_less_u8: "unat (w :: u8) < 2 ^ 8"
  by (rule order.strict_trans2[OF unsigned_less]) simp

lemma unat_of_nat_u64: "n < 2 ^ 64 \<Longrightarrow> unat (of_nat n :: u64) = n"
  by (simp add: unat_of_nat)

lemma unat_of_nat_u32: "n < 2 ^ 32 \<Longrightarrow> unat (of_nat n :: u32) = n"
  by (simp add: unat_of_nat)

lemma unat_pred: "(x :: 'a::len word) \<noteq> 0 \<Longrightarrow> unat (x - 1) < unat x"
  using unat_minus_one[of x] unat_gt_0[of x] by simp

lemma sint_of_int_u32: "- (2 ^ 31) \<le> n \<Longrightarrow> n < 2 ^ 31 \<Longrightarrow> sint (of_int n :: u32) = n"
  by (simp add: sint_sbintrunc' signed_take_bit_int_eq_self)

lemma sint_unat_u32: "unat (w :: u32) < 2 ^ 31 \<Longrightarrow> sint w = int (unat w)"
proof -
  assume a: "unat w < 2 ^ 31"
  have "int k < 2 ^ 31" if "k < 2 ^ 31" for k :: nat using that by simp
  then have "int (unat w) < 2 ^ 31" using a .
  moreover have "- (2 ^ 31) \<le> int (unat w)" by (rule order_trans[of _ 0]) (simp, rule of_nat_0_le_iff)
  ultimately have "sint (word_of_int (int (unat w)) :: u32) = int (unat w)" by (intro sint_of_int_u32)
  then show ?thesis by simp
qed

section \<open>Bytes and little-endian words\<close>

definition byte :: "nat \<Rightarrow> 'a::len word \<Rightarrow> u8" where
  "byte k v = ucast (drop_bit (8 * k) v)"

definition le16 :: "u8 \<Rightarrow> u8 \<Rightarrow> u16" where
  "le16 a b = ucast a OR push_bit 8 (ucast b)"

definition le32 :: "u8 \<Rightarrow> u8 \<Rightarrow> u8 \<Rightarrow> u8 \<Rightarrow> u32" where
  "le32 a b c d =
     ucast a OR push_bit 8 (ucast b) OR push_bit 16 (ucast c) OR push_bit 24 (ucast d)"

definition le64 :: "u32 \<Rightarrow> u32 \<Rightarrow> u64" where
  "le64 lo hi = ucast lo OR push_bit 32 (ucast hi)"

lemma le16_bytes [simp]: "le16 (byte 0 v) (byte (Suc 0) v) = v"
  by (rule bit_word_eqI) (auto simp: le16_def byte_def bit_simps)

lemma le32_bytes [simp]: "le32 (byte 0 v) (byte (Suc 0) v) (byte 2 v) (byte 3 v) = v"
proof (rule bit_word_eqI)
  fix n :: nat
  assume "n < LENGTH(32)"
  then consider "n < 8" | "8 \<le> n" "n < 16" | "16 \<le> n" "n < 24" | "24 \<le> n" "n < 32"
    by fastforce
  then show "bit (le32 (byte 0 v) (byte (Suc 0) v) (byte 2 v) (byte 3 v)) n = bit v n"
    by cases (auto simp: le32_def byte_def bit_simps)
qed

definition ld16 :: "(nat \<Rightarrow> u8) \<Rightarrow> nat \<Rightarrow> u16" where
  "ld16 d i = le16 (d i) (d (i + 1))"

definition st16 :: "(nat \<Rightarrow> u8) \<Rightarrow> nat \<Rightarrow> u16 \<Rightarrow> (nat \<Rightarrow> u8)" where
  "st16 d i v = d(i := byte 0 v, i + 1 := byte 1 v)"

definition ld32 :: "(nat \<Rightarrow> u8) \<Rightarrow> nat \<Rightarrow> u32" where
  "ld32 d i = le32 (d i) (d (i + 1)) (d (i + 2)) (d (i + 3))"

definition st32 :: "(nat \<Rightarrow> u8) \<Rightarrow> nat \<Rightarrow> u32 \<Rightarrow> (nat \<Rightarrow> u8)" where
  "st32 d i v = d(i := byte 0 v, i + 1 := byte 1 v, i + 2 := byte 2 v, i + 3 := byte 3 v)"

lemma ld16_st16 [bytes_simps]: "ld16 (st16 d i v) i = v"
  by (simp add: ld16_def st16_def)

lemma ld32_st32 [bytes_simps]: "ld32 (st32 d i v) i = v"
  by (simp add: ld32_def st32_def)

lemma ld16_st16_other [bytes_simps]:
  "i + 2 \<le> j \<or> j + 2 \<le> i \<Longrightarrow> ld16 (st16 d i v) j = ld16 d j"
  by (auto simp: ld16_def st16_def)

lemma ld16_st32_other [bytes_simps]:
  "i + 4 \<le> j \<or> j + 2 \<le> i \<Longrightarrow> ld16 (st32 d i v) j = ld16 d j"
  by (auto simp: ld16_def st32_def)

lemma ld32_st16_other [bytes_simps]:
  "i + 2 \<le> j \<or> j + 4 \<le> i \<Longrightarrow> ld32 (st16 d i v) j = ld32 d j"
  by (auto simp: ld32_def st16_def)

lemma ld32_st32_other [bytes_simps]:
  "i + 4 \<le> j \<or> j + 4 \<le> i \<Longrightarrow> ld32 (st32 d i v) j = ld32 d j"
  by (auto simp: ld32_def st32_def)

end
