(* ===== verification/Sleeplock.thy ===== *)
theory Sleeplock
  imports Prelude
begin

text \<open>
  Sleep locks, \<^verbatim>\<open>kernel/sleeplock.c\<close>. The spinlock inside a sleep lock makes each routine atomic;
  what is left of the lock is whether it is held and by which process. \<^verbatim>\<open>acquiresleep\<close> of a held
  lock gives up the processor on the lock's channel; \<^verbatim>\<open>releasesleep\<close> wakes that channel.
\<close>

record sleeplock =
  slocked :: bool
  spid :: int

definition initsleeplock :: sleeplock where
  "initsleeplock = \<lparr>slocked = False, spid = 0\<rparr>"

text \<open>\<open>None\<close> stands for the call of \<^verbatim>\<open>sleep\<close> in the loop of \<^verbatim>\<open>acquiresleep\<close>.\<close>

definition acquiresleep :: "int \<Rightarrow> sleeplock \<Rightarrow> sleeplock option" where
  "acquiresleep pid lk = (if slocked lk then None else Some \<lparr>slocked = True, spid = pid\<rparr>)"

definition releasesleep :: "sleeplock \<Rightarrow> sleeplock" where
  "releasesleep lk = lk\<lparr>slocked := False, spid := 0\<rparr>"

definition holdingsleep :: "int \<Rightarrow> sleeplock \<Rightarrow> bool" where
  "holdingsleep pid lk \<longleftrightarrow> slocked lk \<and> spid lk = pid"

section \<open>Processes competing for one sleep lock\<close>

text \<open>
  Any number of processes run \<^verbatim>\<open>acquiresleep\<close> and \<^verbatim>\<open>releasesleep\<close> on one lock; \<open>owners\<close> are the
  processes that are between a return from \<^verbatim>\<open>acquiresleep\<close> and their \<^verbatim>\<open>releasesleep\<close>.
\<close>

record contest =
  clk :: sleeplock
  owners :: "int set"

inductive contest_step :: "contest \<Rightarrow> contest \<Rightarrow> bool" where
  take: "acquiresleep pid (clk s) = Some l \<Longrightarrow> pid \<notin> owners s \<Longrightarrow>
     contest_step s (s\<lparr>clk := l, owners := insert pid (owners s)\<rparr>)"
| give: "pid \<in> owners s \<Longrightarrow>
     contest_step s (s\<lparr>clk := releasesleep (clk s), owners := owners s - {pid}\<rparr>)"

inductive contest_reach :: "contest \<Rightarrow> bool" where
  start: "contest_reach \<lparr>clk = initsleeplock, owners = {}\<rparr>"
| step: "contest_reach s \<Longrightarrow> contest_step s t \<Longrightarrow> contest_reach t"

inductive_cases contest_stepE: "contest_step s t"

definition contest_inv :: "contest \<Rightarrow> bool" where
  "contest_inv s \<longleftrightarrow> owners s = (if slocked (clk s) then {spid (clk s)} else {})"

lemma contest_inv_step: "contest_step s t \<Longrightarrow> contest_inv s \<Longrightarrow> contest_inv t"
  by (induction rule: contest_step.induct)
     (auto simp: contest_inv_def acquiresleep_def releasesleep_def split: if_splits)

lemma contest_reach_inv: "contest_reach s \<Longrightarrow> contest_inv s"
  by (induction rule: contest_reach.induct)
     (simp_all add: contest_inv_def initsleeplock_def contest_inv_step[unfolded contest_inv_def])

text \<open>
  (C23) Sleep locks exclude: in every reachable state at most one process owns the lock, and
  \<^verbatim>\<open>holdingsleep\<close> is true for exactly the owner.
\<close>

theorem sleeplock_exclusion:
  assumes "contest_reach s" "p \<in> owners s"
  shows "owners s = {p} \<and> (holdingsleep q (clk s) \<longleftrightarrow> q = p)"
  using contest_reach_inv[OF assms(1)] assms(2)
  by (auto simp: contest_inv_def holdingsleep_def split: if_splits)

theorem sleeplock_exclusion_witness:
  "owners \<lparr>clk = \<lparr>slocked = True, spid = 4\<rparr>, owners = {4}\<rparr> = {4} \<and>
   (holdingsleep 7 (clk \<lparr>clk = \<lparr>slocked = True, spid = 4\<rparr>, owners = {4}\<rparr>) \<longleftrightarrow> 7 = (4 :: int))"
proof (rule sleeplock_exclusion)
  have "contest_step \<lparr>clk = initsleeplock, owners = {}\<rparr> \<lparr>clk = \<lparr>slocked = True, spid = 4\<rparr>, owners = {4}\<rparr>"
    using take[of 4 "\<lparr>clk = initsleeplock, owners = {}\<rparr>" "\<lparr>slocked = True, spid = 4\<rparr>"]
    by (simp add: acquiresleep_def initsleeplock_def)
  then show "contest_reach \<lparr>clk = \<lparr>slocked = True, spid = 4\<rparr>, owners = {4}\<rparr>"
    by (rule step[OF start])
qed simp

end
