(* ===== verification/Bio.thy ===== *)
theory Bio
  imports Sleeplock
begin

text \<open>
  The buffer cache, \<^verbatim>\<open>kernel/bio.c\<close>. The doubly linked list through the buffers is the list \<open>lru\<close> of
  buffer numbers, most recently used first. A block is the array of its bytes; the disk is the array
  of its blocks, and \<open>writes\<close> records the block writes in the order in which the disk has done them
  (it exists for the statements about crashes and no routine reads it). A disk request is the
  completed transfer that \<^verbatim>\<open>virtio_disk_rw\<close> waits for. Each routine takes the pid of the calling
  process, which the buffers' sleep locks record.
\<close>

section \<open>State and operations\<close>

type_synonym block = "nat \<Rightarrow> u8"

record buf =
  bvalid :: bool
  bdev :: u32
  blockno :: u32
  blk :: sleeplock
  refcnt :: u32
  bdata :: block

abbreviation (input) NBUF :: nat where "NBUF \<equiv> 30"

record bcache =
  bufs :: "nat \<Rightarrow> buf"
  lru :: "nat list"
  disk :: "u32 \<Rightarrow> block"
  writes :: "(u32 \<times> block) list"
  bwakes :: "chan list"

definition upd_buf :: "nat \<Rightarrow> (buf \<Rightarrow> buf) \<Rightarrow> bcache \<Rightarrow> bcache" where
  "upd_buf i f s = s\<lparr>bufs := (bufs s)(i := f (bufs s i))\<rparr>"

text \<open>A completed disk request for buffer \<open>i\<close>.\<close>

definition disk_rw :: "nat \<Rightarrow> bool \<Rightarrow> bcache \<Rightarrow> bcache" where
  "disk_rw i write s =
     (let b = bufs s i in
      if write then s\<lparr>disk := (disk s)(blockno b := bdata b), writes := writes s @ [(blockno b, bdata b)]\<rparr>
      else upd_buf i (bdata_update (\<lambda>_. disk s (blockno b))) s)"

primrec binit_loop :: "nat list \<Rightarrow> bcache \<Rightarrow> bcache" where
  "binit_loop [] s = s"
| "binit_loop (b # bs) s =
     binit_loop bs (upd_buf b (blk_update (\<lambda>_. initsleeplock)) (s\<lparr>lru := b # lru s\<rparr>))"

definition binit :: "bcache \<Rightarrow> bcache" where
  "binit s = binit_loop [0..<NBUF] (s\<lparr>lru := []\<rparr>)"

definition lock_buf :: "int \<Rightarrow> nat \<Rightarrow> bcache \<Rightarrow> (nat, bcache) res" where
  "lock_buf pid b s =
     (case acquiresleep pid (blk (bufs s b)) of
        None \<Rightarrow> Sleep (ChSleepLock b) s
      | Some l \<Rightarrow> Ret b (upd_buf b (blk_update (\<lambda>_. l)) s))"

definition bget :: "int \<Rightarrow> u32 \<Rightarrow> u32 \<Rightarrow> bcache \<Rightarrow> (nat, bcache) res" where
  "bget pid dev bno s =
     (case find (\<lambda>b. bdev (bufs s b) = dev \<and> blockno (bufs s b) = bno) (lru s) of
        Some b \<Rightarrow> lock_buf pid b (upd_buf b (refcnt_update (\<lambda>r. r + 1)) s)
      | None \<Rightarrow>
          (case find (\<lambda>b. refcnt (bufs s b) = 0) (rev (lru s)) of
             Some b \<Rightarrow>
               lock_buf pid b (upd_buf b (\<lambda>x. x\<lparr>bdev := dev, blockno := bno, bvalid := False, refcnt := 1\<rparr>) s)
           | None \<Rightarrow> Panic ''bget: no buffers''))"

definition bread :: "int \<Rightarrow> u32 \<Rightarrow> u32 \<Rightarrow> bcache \<Rightarrow> (nat, bcache) res" where
  "bread pid dev bno s =
     bnd (bget pid dev bno s) (\<lambda>b s.
       if \<not> bvalid (bufs s b) then Ret b (upd_buf b (bvalid_update (\<lambda>_. True)) (disk_rw b False s))
       else Ret b s)"

definition bwrite :: "int \<Rightarrow> nat \<Rightarrow> bcache \<Rightarrow> (unit, bcache) res" where
  "bwrite pid b s =
     (if \<not> holdingsleep pid (blk (bufs s b)) then Panic ''bwrite''
      else Ret () (disk_rw b True s))"

definition brelse :: "int \<Rightarrow> nat \<Rightarrow> bcache \<Rightarrow> (unit, bcache) res" where
  "brelse pid b s =
     (if \<not> holdingsleep pid (blk (bufs s b)) then Panic ''brelse''
      else
        let s = upd_buf b (blk_update releasesleep) (s\<lparr>bwakes := bwakes s @ [ChSleepLock b]\<rparr>);
            s = upd_buf b (refcnt_update (\<lambda>r. r - 1)) s
        in if refcnt (bufs s b) = 0 then Ret () (s\<lparr>lru := b # remove1 b (lru s)\<rparr>) else Ret () s)"

definition bpin :: "nat \<Rightarrow> bcache \<Rightarrow> bcache" where
  "bpin b s = upd_buf b (refcnt_update (\<lambda>r. r + 1)) s"

definition bunpin :: "nat \<Rightarrow> bcache \<Rightarrow> bcache" where
  "bunpin b s = upd_buf b (refcnt_update (\<lambda>r. r - 1)) s"

text \<open>The holder of buffer \<open>b\<close> changes its data.\<close>

definition set_data :: "nat \<Rightarrow> block \<Rightarrow> bcache \<Rightarrow> bcache" where
  "set_data b d s = upd_buf b (bdata_update (\<lambda>_. d)) s"

section \<open>The abstract view\<close>

text \<open>
  The file system uses one device, \<^verbatim>\<open>ROOTDEV\<close>. \<open>slot_of\<close> is the buffer that caches a block of it;
  \<open>view\<close> is the content of a block as \<^verbatim>\<open>bread\<close> returns it, \<open>refs\<close> and \<open>locked\<close> are the reference
  count and the lock of its buffer.
\<close>

abbreviation (input) ROOTDEV :: u32 where "ROOTDEV \<equiv> 1"

definition slot_of :: "bcache \<Rightarrow> u32 \<Rightarrow> nat option" where
  "slot_of s b = find (\<lambda>i. bdev (bufs s i) = ROOTDEV \<and> blockno (bufs s i) = b) (lru s)"

definition view :: "bcache \<Rightarrow> u32 \<Rightarrow> block" where
  "view s b = (case slot_of s b of
     None \<Rightarrow> disk s b | Some i \<Rightarrow> if bvalid (bufs s i) then bdata (bufs s i) else disk s b)"

definition refs :: "bcache \<Rightarrow> u32 \<Rightarrow> nat" where
  "refs s b = (case slot_of s b of None \<Rightarrow> 0 | Some i \<Rightarrow> unat (refcnt (bufs s i)))"

definition locked :: "bcache \<Rightarrow> u32 \<Rightarrow> int option" where
  "locked s b = (case slot_of s b of None \<Rightarrow> None
     | Some i \<Rightarrow> if slocked (blk (bufs s i)) then Some (spid (blk (bufs s i))) else None)"

definition busy :: "bcache \<Rightarrow> nat set" where
  "busy s = {i. i < NBUF \<and> refcnt (bufs s i) \<noteq> 0}"

text \<open>
  The invariant: the list holds every buffer once; a block of the device is cached at most once;
  a buffer in use belongs to the device; a locked buffer is in use and has been read; a buffer nobody uses agrees with
  the disk, so that it may be recycled.
\<close>

definition bc_inv :: "bcache \<Rightarrow> bool" where
  "bc_inv s \<longleftrightarrow> distinct (lru s) \<and> set (lru s) = {..<NBUF} \<and>
     (\<forall>i < NBUF. \<forall>j < NBUF. bdev (bufs s i) = ROOTDEV \<longrightarrow> bdev (bufs s j) = ROOTDEV \<longrightarrow>
        blockno (bufs s i) = blockno (bufs s j) \<longrightarrow> i = j) \<and>
     (\<forall>i < NBUF. refcnt (bufs s i) \<noteq> 0 \<longrightarrow> bdev (bufs s i) = ROOTDEV) \<and>
     (\<forall>i < NBUF. slocked (blk (bufs s i)) \<longrightarrow> refcnt (bufs s i) \<noteq> 0 \<and> bvalid (bufs s i)) \<and>
     (\<forall>i < NBUF. refcnt (bufs s i) = 0 \<longrightarrow> bdev (bufs s i) = ROOTDEV \<longrightarrow> bvalid (bufs s i) \<longrightarrow>
        bdata (bufs s i) = disk s (blockno (bufs s i)))"

section \<open>Slots\<close>

lemma slot_some:
  assumes "bc_inv s"
  shows "slot_of s b = Some i \<longleftrightarrow> i < NBUF \<and> bdev (bufs s i) = ROOTDEV \<and> blockno (bufs s i) = b"
proof
  assume "slot_of s b = Some i"
  then show "i < NBUF \<and> bdev (bufs s i) = ROOTDEV \<and> blockno (bufs s i) = b"
    using assms by (auto simp: slot_of_def find_Some_iff bc_inv_def)
next
  assume i: "i < NBUF \<and> bdev (bufs s i) = ROOTDEV \<and> blockno (bufs s i) = b"
  then have "slot_of s b \<noteq> None"
    using assms by (auto simp: slot_of_def find_None_iff bc_inv_def)
  then obtain j where j: "slot_of s b = Some j" by blast
  then have "j < NBUF \<and> bdev (bufs s j) = ROOTDEV \<and> blockno (bufs s j) = b"
    using assms by (auto simp: slot_of_def find_Some_iff bc_inv_def)
  then show "slot_of s b = Some i" using i j assms unfolding bc_inv_def by metis
qed

lemma slot_none:
  assumes "bc_inv s"
  shows "slot_of s b = None \<longleftrightarrow> (\<forall>i < NBUF. \<not> (bdev (bufs s i) = ROOTDEV \<and> blockno (bufs s i) = b))"
  using assms by (auto simp: slot_of_def find_None_iff bc_inv_def)

lemma slot_eqI:
  assumes "bc_inv s" "bc_inv s'"
    and "\<And>i. i < NBUF \<Longrightarrow> (bdev (bufs s' i) = ROOTDEV \<and> blockno (bufs s' i) = b) =
      (bdev (bufs s i) = ROOTDEV \<and> blockno (bufs s i) = b)"
  shows "slot_of s' b = slot_of s b"
proof (cases "slot_of s b")
  case None
  then have "slot_of s' b = None"
    using assms(3) unfolding slot_none[OF assms(1)] slot_none[OF assms(2)] by blast
  then show ?thesis using None by simp
next
  case (Some i)
  then have "slot_of s' b = Some i"
    using assms(3) unfolding slot_some[OF assms(1)] slot_some[OF assms(2)] by blast
  then show ?thesis using Some by simp
qed

text \<open>Buffer \<open>i\<close> holds block \<open>b\<close> locked for \<open>pid\<close>, with one more reference.\<close>

definition hold :: "int \<Rightarrow> u32 \<Rightarrow> nat \<Rightarrow> bcache \<Rightarrow> bcache" where
  "hold pid b i s = s\<lparr>bufs := (bufs s)(i :=
     \<lparr>bvalid = True, bdev = ROOTDEV, blockno = b, blk = \<lparr>slocked = True, spid = pid\<rparr>,
      refcnt = of_nat (refs s b + 1), bdata = view s b\<rparr>)\<rparr>"

definition takes :: "bcache \<Rightarrow> u32 \<Rightarrow> nat \<Rightarrow> bool" where
  "takes s b i \<longleftrightarrow> i < NBUF \<and>
     (slot_of s b = Some i \<or> slot_of s b = None \<and> refcnt (bufs s i) = 0)"

lemma free_buffer:
  assumes "bc_inv s" "card (busy s) < NBUF"
  shows "\<exists>i. find (\<lambda>b. refcnt (bufs s b) = 0) (rev (lru s)) = Some i \<and> i < NBUF \<and> refcnt (bufs s i) = 0"
proof -
  have "busy s \<noteq> {..<NBUF}" using assms(2) card_lessThan[of NBUF] by force
  moreover have "busy s \<subseteq> {..<NBUF}" unfolding busy_def by blast
  ultimately obtain j where "j < NBUF" "j \<notin> busy s" by blast
  then have "j \<in> set (rev (lru s))" "refcnt (bufs s j) = 0"
    using assms(1) by (simp_all add: busy_def bc_inv_def)
  then have "find (\<lambda>b. refcnt (bufs s b) = 0) (rev (lru s)) \<noteq> None"
    unfolding find_None_iff by blast
  then obtain i where i: "find (\<lambda>b. refcnt (bufs s b) = 0) (rev (lru s)) = Some i" by blast
  then have "i \<in> set (rev (lru s)) \<and> refcnt (bufs s i) = 0" by (rule find_SomeD)
  then have "i < NBUF" "refcnt (bufs s i) = 0" using assms(1) by (simp_all add: bc_inv_def)
  then show ?thesis using i by blast
qed

lemma bread_eq:
  assumes "bc_inv s" "locked s b = None" "slot_of s b \<noteq> None \<or> card (busy s) < NBUF"
  shows "\<exists>i. takes s b i \<and> bread pid ROOTDEV b s = Ret i (hold pid b i s)"
proof (cases "slot_of s b")
  case (Some i)
  then have i: "i < NBUF" "bdev (bufs s i) = ROOTDEV" "blockno (bufs s i) = b"
    using slot_some[OF assms(1)] by auto
  have f: "find (\<lambda>c. bdev (bufs s c) = ROOTDEV \<and> blockno (bufs s c) = b) (lru s) = Some i"
    using Some by (simp add: slot_of_def)
  have "\<not> slocked (blk (bufs s i))" using assms(2) Some by (auto simp: locked_def split: if_splits)
  then have "bread pid ROOTDEV b s = Ret i (hold pid b i s)"
    using f i Some
    by (auto simp: bread_def bget_def lock_buf_def acquiresleep_def upd_buf_def disk_rw_def hold_def
        view_def refs_def fun_eq_iff intro!: bcache.equality buf.equality)
  then show ?thesis using Some i by (auto simp: takes_def)
next
  case None
  then have "card (busy s) < NBUF" using assms(3) by simp
  then obtain i where i: "find (\<lambda>b. refcnt (bufs s b) = 0) (rev (lru s)) = Some i" "i < NBUF" "refcnt (bufs s i) = 0"
    using free_buffer[OF assms(1)] by blast
  have f: "find (\<lambda>c. bdev (bufs s c) = ROOTDEV \<and> blockno (bufs s c) = b) (lru s) = None"
    using None by (simp add: slot_of_def)
  have "\<not> slocked (blk (bufs s i))" using i assms(1) by (auto simp: bc_inv_def)
  then have "bread pid ROOTDEV b s = Ret i (hold pid b i s)"
    using f i None
    by (auto simp: bread_def bget_def lock_buf_def acquiresleep_def upd_buf_def disk_rw_def hold_def
        view_def refs_def fun_eq_iff intro!: bcache.equality buf.equality)
  then show ?thesis using None i by (auto simp: takes_def)
qed


lemma bc_invD:
  assumes "bc_inv s" "i < NBUF"
  shows "refcnt (bufs s i) \<noteq> 0 \<Longrightarrow> bdev (bufs s i) = ROOTDEV"
    "slocked (blk (bufs s i)) \<Longrightarrow> refcnt (bufs s i) \<noteq> 0 \<and> bvalid (bufs s i)"
    "refcnt (bufs s i) = 0 \<Longrightarrow> bdev (bufs s i) = ROOTDEV \<Longrightarrow> bvalid (bufs s i) \<Longrightarrow>
       bdata (bufs s i) = disk s (blockno (bufs s i))"
    "j < NBUF \<Longrightarrow> bdev (bufs s i) = ROOTDEV \<Longrightarrow> bdev (bufs s j) = ROOTDEV \<Longrightarrow>
       blockno (bufs s i) = blockno (bufs s j) \<Longrightarrow> i = j"
  using assms unfolding bc_inv_def by blast+

section \<open>Changing the buffer of one block\<close>

text \<open>
  The buffer \<open>i\<close> of block \<open>b\<close> becomes \<open>x\<close> and block \<open>b\<close> of the disk becomes \<open>d\<close>; the list may be
  reordered.
\<close>

definition one_block :: "u32 \<Rightarrow> nat \<Rightarrow> buf \<Rightarrow> block \<Rightarrow> bcache \<Rightarrow> bcache \<Rightarrow> bool" where
  "one_block b i x d s s' \<longleftrightarrow>
     bufs s' = (bufs s)(i := x) \<and> disk s' = (disk s)(b := d) \<and>
     distinct (lru s') \<and> set (lru s') = {..<NBUF} \<and>
     bdev x = ROOTDEV \<and> blockno x = b \<and> (slocked (blk x) \<longrightarrow> refcnt x \<noteq> 0 \<and> bvalid x) \<and>
     (refcnt x = 0 \<longrightarrow> bvalid x \<longrightarrow> bdata x = d)"

lemma one_block_inv:
  assumes inv: "bc_inv s" and t: "slot_of s b = Some i \<or> slot_of s b = None \<and> refcnt (bufs s i) = 0"
    "i < NBUF" and o: "one_block b i x d s s'"
  shows "bc_inv s'"
proof -
  have other: "\<not> (bdev (bufs s j) = ROOTDEV \<and> blockno (bufs s j) = b)" if "j < NBUF" "j \<noteq> i" for j
    using t that bc_invD(4)[OF inv] unfolding slot_some[OF inv] slot_none[OF inv] by blast
  have e: "bufs s' = (bufs s)(i := x)" "disk s' = (disk s)(b := d)" "distinct (lru s')"
    "set (lru s') = {..<NBUF}" "bdev x = ROOTDEV" "blockno x = b" "slocked (blk x) \<longrightarrow> refcnt x \<noteq> 0 \<and> bvalid x"
    "refcnt x = 0 \<longrightarrow> bvalid x \<longrightarrow> bdata x = d"
    using o by (auto simp: one_block_def)
  show ?thesis
    unfolding bc_inv_def e(1,2)
  proof (intro conjI allI impI)
    show "distinct (lru s')" "set (lru s') = {..<NBUF}" by (rule e)+
  next
    fix j k
    assume a: "j < NBUF" "k < NBUF" "bdev (((bufs s)(i := x)) j) = ROOTDEV"
      "bdev (((bufs s)(i := x)) k) = ROOTDEV"
      "blockno (((bufs s)(i := x)) j) = blockno (((bufs s)(i := x)) k)"
    show "j = k"
      using other[OF a(1)] other[OF a(2)] e(6) bc_invD(4)[OF inv a(1,2)] a(3-5)
      by (cases "j = i"; cases "k = i") simp_all
  next
    fix j
    assume "j < NBUF" "refcnt (((bufs s)(i := x)) j) \<noteq> 0"
    then show "bdev (((bufs s)(i := x)) j) = ROOTDEV"
      using bc_invD(1)[OF inv, of j] e(5) by (cases "j = i") simp_all
  next
    fix j
    assume "j < NBUF" "slocked (blk (((bufs s)(i := x)) j))"
    then have "refcnt (((bufs s)(i := x)) j) \<noteq> 0 \<and> bvalid (((bufs s)(i := x)) j)"
      using bc_invD(2)[OF inv, of j] e(7) by (cases "j = i") simp_all
    then show "refcnt (((bufs s)(i := x)) j) \<noteq> 0" "bvalid (((bufs s)(i := x)) j)" by simp_all
  next
    fix j
    assume a: "j < NBUF" "refcnt (((bufs s)(i := x)) j) = 0" "bdev (((bufs s)(i := x)) j) = ROOTDEV"
      "bvalid (((bufs s)(i := x)) j)"
    then show "bdata (((bufs s)(i := x)) j) = ((disk s)(b := d)) (blockno (((bufs s)(i := x)) j))"
      using bc_invD(3)[OF inv, of j] other[OF a(1)] e(6,8) by (cases "j = i") simp_all
  qed
qed

lemma one_block_abs:
  assumes inv: "bc_inv s" and t: "slot_of s b = Some i" and o: "one_block b i x d s s'"
  shows "slot_of s' = slot_of s"
    "view s' = (view s)(b := if bvalid x then bdata x else d)"
    "refs s' = (refs s)(b := unat (refcnt x))"
    "locked s' = (locked s)(b := if slocked (blk x) then Some (spid (blk x)) else None)"
proof -
  have i: "i < NBUF" "bdev (bufs s i) = ROOTDEV" "blockno (bufs s i) = b"
    using t by (auto simp: slot_some[OF inv])
  have inv': "bc_inv s'" using one_block_inv[OF inv _ i(1) o] t by blast
  have e: "bufs s' = (bufs s)(i := x)" "disk s' = (disk s)(b := d)" "bdev x = ROOTDEV" "blockno x = b"
    using o by (auto simp: one_block_def)
  show sl: "slot_of s' = slot_of s"
    using e i by (intro ext slot_eqI[OF inv inv']) auto
  have ne: "j \<noteq> i" if "slot_of s c = Some j" "c \<noteq> b" for c j
    using that i by (auto simp: slot_some[OF inv])
  show "view s' = (view s)(b := if bvalid x then bdata x else d)"
    using t e ne by (auto simp: view_def sl fun_eq_iff split: option.splits)
  show "refs s' = (refs s)(b := unat (refcnt x))"
    using t e ne by (auto simp: refs_def sl fun_eq_iff split: option.splits)
  show "locked s' = (locked s)(b := if slocked (blk x) then Some (spid (blk x)) else None)"
    using t e ne by (auto simp: locked_def sl fun_eq_iff split: option.splits)
qed


lemma one_block_busy:
  assumes "i < NBUF" "one_block b i x d s s'"
  shows "busy s' = (if refcnt x = 0 then busy s - {i} else insert i (busy s))"
  using assms by (auto simp: busy_def one_block_def)

lemma finite_busy: "finite (busy s)"
  by (rule finite_subset[of _ "{..<NBUF}"]) (auto simp: busy_def)

lemma card_busy:
  assumes "bc_inv s" "slot_of s b = Some i" "one_block b i x d s s'"
  shows "card (busy s') + (if refs s b = 0 then 0 else 1) =
    card (busy s) + (if refcnt x = 0 then 0 else 1)"
proof -
  have i: "i < NBUF" using assms(2) by (simp add: slot_some[OF assms(1)])
  have "refs s b = 0 \<longleftrightarrow> i \<notin> busy s" using assms(2) i by (simp add: refs_def busy_def unat_eq_0)
  moreover have "card (busy s) > 0" if "i \<in> busy s" using that finite_busy card_gt_0_iff by blast
  ultimately show ?thesis
    unfolding one_block_busy[OF i assms(3)] using finite_busy[of s]
    by (cases "i \<in> busy s") (auto simp: card_insert_if insert_absorb)
qed

section \<open>The operations on the view\<close>

text \<open>Recycling a buffer for block \<open>b\<close> changes nothing that can be seen.\<close>

lemma recycle_ok:
  assumes inv: "bc_inv s" and n: "slot_of s b = None" "refcnt (bufs s i) = 0" "i < NBUF"
    and s': "bufs s' = (bufs s)(i := x)" "disk s' = disk s" "lru s' = lru s" "bdev x = ROOTDEV" "blockno x = b" "\<not> bvalid x"
      "refcnt x = 0" "\<not> slocked (blk x)"
  shows "bc_inv s'" "slot_of s' b = Some i" "view s' = view s" "refs s' = refs s" "locked s' = locked s"
    "busy s' = busy s"
proof -
  have o: "one_block b i x (disk s b) s s'"
    using inv s' by (simp add: one_block_def bc_inv_def)
  show inv': "bc_inv s'" by (rule one_block_inv[OF inv _ n(3) o]) (simp add: n)
  show sb: "slot_of s' b = Some i" using s' n(3) by (simp add: slot_some[OF inv'])
  have cases: "slot_of s' c = slot_of s c \<and> slot_of s c \<noteq> Some i \<or> c = b \<or>
      slot_of s c = Some i \<and> slot_of s' c = None" for c
  proof (cases "slot_of s c = Some i \<or> c = b")
    case True
    then show ?thesis
      using s' n(1) unfolding slot_none[OF inv'] by (auto simp: slot_some[OF inv] slot_none[OF inv] dest: bc_invD(4)[OF inv n(3)])
  next
    case False
    then have "slot_of s' c = slot_of s c"
      using s' n(3) False by (intro slot_eqI[OF inv inv']) (auto simp: slot_some[OF inv])
    then show ?thesis using False by blast
  qed
  have old: "\<not> slocked (blk (bufs s i))"
    "slot_of s c = Some i \<Longrightarrow> bvalid (bufs s i) \<Longrightarrow> bdata (bufs s i) = disk s c" for c
    using bc_invD(2,3)[OF inv n(3)] n(2) by (auto simp: slot_some[OF inv])
  show "view s' = view s"
  proof
    fix c
    show "view s' c = view s c"
      using cases[of c] sb n(1) s' old(2)[of c] by (cases "slot_of s c") (auto simp: view_def)
  qed
  show "refs s' = refs s"
  proof
    fix c
    show "refs s' c = refs s c"
      using cases[of c] sb n(1,2) s' by (cases "slot_of s c") (auto simp: refs_def)
  qed
  show "locked s' = locked s"
  proof
    fix c
    show "locked s' c = locked s c"
      using cases[of c] sb n(1) s' old(1) by (cases "slot_of s c") (auto simp: locked_def)
  qed
  show "busy s' = busy s" using one_block_busy[OF n(3) o] s' n(2) by (auto simp: busy_def)
qed


lemma hold_abs:
  assumes inv: "bc_inv s" and t: "takes s b i" and r: "refs s b + 1 < 2 ^ 32"
  shows "bc_inv (hold pid b i s)" "slot_of (hold pid b i s) b = Some i" "view (hold pid b i s) = view s"
    "refs (hold pid b i s) = (refs s)(b := refs s b + 1)"
    "locked (hold pid b i s) = (locked s)(b := Some pid)"
    "card (busy (hold pid b i s)) = card (busy s) + (if refs s b = 0 then 1 else 0)"
proof -
  let ?x = "\<lparr>bvalid = True, bdev = ROOTDEV, blockno = b, blk = \<lparr>slocked = True, spid = pid\<rparr>,
      refcnt = of_nat (refs s b + 1), bdata = view s b\<rparr>"
  let ?y = "\<lparr>bvalid = False, bdev = ROOTDEV, blockno = b, blk = initsleeplock, refcnt = 0, bdata = view s b\<rparr>"
  define s0 where "s0 = (if slot_of s b = None then s\<lparr>bufs := (bufs s)(i := ?y)\<rparr> else s)"
  have i: "i < NBUF" using t by (simp add: takes_def)
  have s0: "bc_inv s0" "slot_of s0 b = Some i" "view s0 = view s" "refs s0 = refs s"
      "locked s0 = locked s" "busy s0 = busy s"
    using recycle_ok[OF inv, of b i s0 ?y] t inv by (auto simp: s0_def takes_def initsleeplock_def)
  have u: "unat (of_nat (refs s b + 1) :: u32) = refs s b + 1"
    by (rule unat_of_nat_u32) (use r in simp)
  then have nz: "(of_nat (refs s b + 1) :: u32) \<noteq> 0" by (metis add_is_0 one_neq_zero unat_0)
  have o: "one_block b i ?x (disk s b) s0 (hold pid b i s)"
    using inv nz by (auto simp: one_block_def hold_def s0_def bc_inv_def)
  show "bc_inv (hold pid b i s)" using one_block_inv[OF s0(1) _ i o] s0(2) by blast
  note a = one_block_abs[OF s0(1,2) o]
  show "slot_of (hold pid b i s) b = Some i" using a(1) s0(2) by simp
  show "view (hold pid b i s) = view s" using a(2) s0(3) by (simp add: fun_eq_iff)
  show "refs (hold pid b i s) = (refs s)(b := refs s b + 1)" using a(3) s0(4) u by simp
  show "locked (hold pid b i s) = (locked s)(b := Some pid)" using a(4) s0(5) by simp
  show "card (busy (hold pid b i s)) = card (busy s) + (if refs s b = 0 then 1 else 0)"
    using card_busy[OF s0(1,2) o] nz s0(4,6) by (auto split: if_splits)
qed

lemma hold_slot:
  assumes "bc_inv s" "takes s b i" "refs s b + 1 < 2 ^ 32" "slot_of s c = Some j" "refcnt (bufs s j) \<noteq> 0"
  shows "slot_of (hold pid b i s) c = Some j"
proof (cases "c = b")
  case True
  then show ?thesis using hold_abs(2)[OF assms(1-3)] assms(2,4) by (auto simp: takes_def)
next
  case False
  have "j \<noteq> i" using assms(2,4,5) False by (auto simp: takes_def slot_some[OF assms(1)])
  then have "bufs (hold pid b i s) j = bufs s j" by (simp add: hold_def)
  then show ?thesis
    using assms(4) unfolding slot_some[OF hold_abs(1)[OF assms(1-3)]] slot_some[OF assms(1)] by simp
qed

lemma hold_same: "disk (hold pid b i s) = disk s" "writes (hold pid b i s) = writes s"
  by (simp_all add: hold_def)

lemma set_data_block:
  assumes "bc_inv s" "slot_of s b = Some i" "refs s b \<noteq> 0"
  shows "one_block b i ((bufs s i)\<lparr>bdata := d\<rparr>) (disk s b) s (set_data i d s)"
proof -
  have "i < NBUF \<and> bdev (bufs s i) = ROOTDEV \<and> blockno (bufs s i) = b" using assms by (simp add: slot_some)
  moreover have "refcnt (bufs s i) \<noteq> 0" using assms(2,3) by (auto simp: refs_def)
  ultimately show ?thesis
    using assms(1) by (auto simp: one_block_def set_data_def upd_buf_def bc_inv_def)
qed

lemma bwrite_block:
  assumes "bc_inv s" "slot_of s b = Some i" "refs s b \<noteq> 0"
  shows "one_block b i (bufs s i) (bdata (bufs s i)) s (disk_rw i True s)"
proof -
  have "i < NBUF \<and> bdev (bufs s i) = ROOTDEV \<and> blockno (bufs s i) = b" using assms by (simp add: slot_some)
  moreover have "refcnt (bufs s i) \<noteq> 0" using assms(2,3) by (auto simp: refs_def)
  ultimately show ?thesis
    using assms(1) by (auto simp: one_block_def disk_rw_def bc_inv_def Let_def)
qed

lemma refcnt_dec: "r \<noteq> 0 \<Longrightarrow> unat (r - 1 :: u32) = unat r - 1"
  by (simp add: unat_minus_one)


section \<open>The contract of the cache\<close>

text \<open>
  What a client sees of the cache: the content of every block, the content on disk, references,
  locks, the number of buffers in use and the trace of disk writes.
\<close>

record bview =
  v_data :: "u32 \<Rightarrow> block"
  v_disk :: "u32 \<Rightarrow> block"
  v_refs :: "u32 \<Rightarrow> nat"
  v_lock :: "u32 \<Rightarrow> int option"
  v_busy :: nat
  v_trace :: "(u32 \<times> block) list"

definition v_read :: "int \<Rightarrow> u32 \<Rightarrow> bview \<Rightarrow> bview" where
  "v_read pid b a = a\<lparr>v_refs := (v_refs a)(b := v_refs a b + 1), v_lock := (v_lock a)(b := Some pid),
     v_busy := v_busy a + (if v_refs a b = 0 then 1 else 0)\<rparr>"

definition v_put :: "u32 \<Rightarrow> block \<Rightarrow> bview \<Rightarrow> bview" where
  "v_put b d a = a\<lparr>v_data := (v_data a)(b := d)\<rparr>"

definition v_write :: "u32 \<Rightarrow> bview \<Rightarrow> bview" where
  "v_write b a = a\<lparr>v_disk := (v_disk a)(b := v_data a b), v_trace := v_trace a @ [(b, v_data a b)]\<rparr>"

definition v_drop :: "u32 \<Rightarrow> bview \<Rightarrow> bview" where
  "v_drop b a = a\<lparr>v_refs := (v_refs a)(b := v_refs a b - 1),
     v_busy := v_busy a - (if v_refs a b = 1 then 1 else 0)\<rparr>"

definition v_release :: "u32 \<Rightarrow> bview \<Rightarrow> bview" where
  "v_release b a = (v_drop b a)\<lparr>v_lock := (v_lock a)(b := None)\<rparr>"

definition v_pin :: "u32 \<Rightarrow> bview \<Rightarrow> bview" where
  "v_pin b a = a\<lparr>v_refs := (v_refs a)(b := v_refs a b + 1)\<rparr>"

text \<open>A block is read, changed, written and released.\<close>

definition v_update :: "u32 \<Rightarrow> block \<Rightarrow> bview \<Rightarrow> bview" where
  "v_update b d a = a\<lparr>v_data := (v_data a)(b := d), v_disk := (v_disk a)(b := d),
     v_trace := v_trace a @ [(b, d)]\<rparr>"

lemmas v_defs = v_read_def v_put_def v_write_def v_drop_def v_release_def v_pin_def v_update_def

text \<open>A reference to block \<open>b\<close> can be had without waiting and without running out of buffers.\<close>

definition v_free :: "u32 \<Rightarrow> bview \<Rightarrow> bool" where
  "v_free b a \<longleftrightarrow> v_lock a b = None \<and> (v_refs a b > 0 \<or> v_busy a < NBUF) \<and> v_refs a b + 1 < 2 ^ 32"

locale buffer_cache =
  fixes rd :: "int \<Rightarrow> u32 \<Rightarrow> 's \<Rightarrow> ('h, 's) res"
    and wrt :: "int \<Rightarrow> 'h \<Rightarrow> 's \<Rightarrow> (unit, 's) res"
    and rel :: "int \<Rightarrow> 'h \<Rightarrow> 's \<Rightarrow> (unit, 's) res"
    and put :: "'h \<Rightarrow> block \<Rightarrow> 's \<Rightarrow> 's"
    and get :: "'s \<Rightarrow> 'h \<Rightarrow> block"
    and pin :: "'h \<Rightarrow> 's \<Rightarrow> 's"
    and unpin :: "'h \<Rightarrow> 's \<Rightarrow> 's"
    and inv :: "'s \<Rightarrow> bool"
    and at :: "'s \<Rightarrow> u32 \<Rightarrow> 'h option"
    and abs :: "'s \<Rightarrow> bview"
  assumes rd_ok: "inv s \<Longrightarrow> v_free b (abs s) \<Longrightarrow>
      runs (rd pid b s) (\<lambda>h s'. inv s' \<and> at s' b = Some h \<and> abs s' = v_read pid b (abs s) \<and>
        (\<forall>c. v_refs (abs s) c > 0 \<longrightarrow> at s' c = at s c))"
    and get_ok: "inv s \<Longrightarrow> at s b = Some h \<Longrightarrow> v_lock (abs s) b = Some pid \<Longrightarrow> get s h = v_data (abs s) b"
    and put_ok: "inv s \<Longrightarrow> at s b = Some h \<Longrightarrow> v_lock (abs s) b = Some pid \<Longrightarrow>
      inv (put h d s) \<and> at (put h d s) = at s \<and> abs (put h d s) = v_put b d (abs s)"
    and wrt_ok: "inv s \<Longrightarrow> at s b = Some h \<Longrightarrow> v_lock (abs s) b = Some pid \<Longrightarrow>
      runs (wrt pid h s) (\<lambda>_ s'. inv s' \<and> at s' = at s \<and> abs s' = v_write b (abs s))"
    and rel_ok: "inv s \<Longrightarrow> at s b = Some h \<Longrightarrow> v_lock (abs s) b = Some pid \<Longrightarrow>
      (v_refs (abs s) b = 1 \<Longrightarrow> v_data (abs s) b = v_disk (abs s) b) \<Longrightarrow>
      runs (rel pid h s) (\<lambda>_ s'. inv s' \<and> at s' = at s \<and> abs s' = v_release b (abs s))"
    and pin_ok: "inv s \<Longrightarrow> at s b = Some h \<Longrightarrow> v_lock (abs s) b = Some pid \<Longrightarrow> v_refs (abs s) b + 1 < 2 ^ 32 \<Longrightarrow>
      inv (pin h s) \<and> at (pin h s) = at s \<and> abs (pin h s) = v_pin b (abs s)"
    and unpin_ok: "inv s \<Longrightarrow> at s b = Some h \<Longrightarrow> v_lock (abs s) b = Some pid \<Longrightarrow> v_refs (abs s) b > 1 \<Longrightarrow>
      inv (unpin h s) \<and> at (unpin h s) = at s \<and> abs (unpin h s) = v_drop b (abs s)"
    and clean: "inv s \<Longrightarrow> v_refs (abs s) b = 0 \<Longrightarrow> v_data (abs s) b = v_disk (abs s) b"
    and lock_refs: "inv s \<Longrightarrow> v_lock (abs s) b \<noteq> None \<Longrightarrow> v_refs (abs s) b > 0"
begin

text \<open>Read a block, replace its data, write it, release it.\<close>

lemma update_block:
  assumes "inv s" "v_free b (abs s)"
  shows "runs (bnd (rd pid b s) (\<lambda>h s. bnd (wrt pid h (put h (f (get s h)) s)) (\<lambda>_ s. rel pid h s)))
    (\<lambda>_ s'. inv s' \<and> abs s' = v_update b (f (v_data (abs s) b)) (abs s))"
proof -
  obtain h s1 where 1: "rd pid b s = Ret h s1" "inv s1" "at s1 b = Some h" "abs s1 = v_read pid b (abs s)"
    using rd_ok[OF assms, of pid] by (auto elim!: runsE)
  have l1: "v_lock (abs s1) b = Some pid" by (simp add: 1(4) v_read_def)
  let ?d = "f (v_data (abs s) b)" and ?s2 = "put h (f (get s1 h)) s1"
  have g: "get s1 h = v_data (abs s) b" using get_ok[OF 1(2,3) l1] by (simp add: 1(4) v_read_def)
  have 2: "inv ?s2" "at ?s2 b = Some h" "abs ?s2 = v_put b ?d (v_read pid b (abs s))"
    using put_ok[OF 1(2,3) l1, of "f (get s1 h)"] 1(3,4) g by simp_all
  have l2: "v_lock (abs ?s2) b = Some pid" by (simp add: 2(3) v_defs)
  obtain s3 where 3: "wrt pid h ?s2 = Ret () s3" "inv s3" "at s3 b = Some h"
      "abs s3 = v_write b (v_put b ?d (v_read pid b (abs s)))"
    using wrt_ok[OF 2(1,2) l2] 2(2,3) by (auto elim!: runsE)
  have l3: "v_lock (abs s3) b = Some pid" "v_data (abs s3) b = v_disk (abs s3) b"
    by (simp_all add: 3(4) v_defs)
  have "runs (rel pid h s3) (\<lambda>_ s'. inv s' \<and> at s' = at s3 \<and> abs s' = v_release b (abs s3))"
    using rel_ok[OF 3(2,3) l3(1)] l3(2) by blast
  moreover have "v_release b (abs s3) = v_update b ?d (abs s)"
    using assms(2) by (auto simp: 3(4) v_defs v_free_def fun_eq_iff intro!: bview.equality)
  ultimately show ?thesis using 1(1) 3(1) by (auto elim!: runs_mono)
qed

text \<open>Two different blocks are read and locked.\<close>

lemma rd_two:
  assumes "inv s" "v_free b (abs s)" "v_free c (v_read pid b (abs s))" "b \<noteq> c"
  obtains h k s1 s2 where "rd pid b s = Ret h s1" "rd pid c s1 = Ret k s2" "inv s2"
    "at s2 b = Some h" "at s2 c = Some k" "abs s2 = v_read pid c (v_read pid b (abs s))"
    "get s2 h = v_data (abs s) b" "get s2 k = v_data (abs s) c"
proof -
  obtain h s1 where 1: "rd pid b s = Ret h s1" "inv s1" "at s1 b = Some h" "abs s1 = v_read pid b (abs s)"
    using rd_ok[OF assms(1,2), of pid] by (auto elim!: runsE)
  then obtain k s2 where 2: "rd pid c s1 = Ret k s2" "inv s2" "at s2 c = Some k"
      "abs s2 = v_read pid c (v_read pid b (abs s))" "\<forall>x. v_refs (abs s1) x > 0 \<longrightarrow> at s2 x = at s1 x"
    using rd_ok[OF 1(2), of c pid] assms(3) by (auto elim!: runsE)
  have "at s2 b = Some h" using 2(5) 1(3,4) by (simp add: v_read_def)
  moreover have "get s2 h = v_data (abs s) b" "get s2 k = v_data (abs s) c"
    using get_ok[OF 2(2) \<open>at s2 b = Some h\<close>, of pid] get_ok[OF 2(2,3), of pid] assms(4)
    by (simp_all add: 2(4) v_read_def)
  ultimately show thesis using that 1 2 by blast
qed

text \<open>Block \<open>d\<close> is copied to block \<open>l\<close>, which is written.\<close>

lemma copy_block:
  assumes "inv s" "v_free l (abs s)" "v_free d (v_read pid l (abs s))" "l \<noteq> d"
  shows "runs (bnd (rd pid l s) (\<lambda>to s. bnd (rd pid d s) (\<lambda>from s.
      bnd (wrt pid to (put to (get s from) s)) (\<lambda>_ s. bnd (rel pid from s) (\<lambda>_ s. rel pid to s)))))
    (\<lambda>_ s'. inv s' \<and> abs s' = v_update l (v_data (abs s) d) (abs s))"
proof -
  let ?a = "abs s"
  obtain to fr s1 s2 where 2: "rd pid l s = Ret to s1" "rd pid d s1 = Ret fr s2" "inv s2"
      "at s2 l = Some to" "at s2 d = Some fr" "abs s2 = v_read pid d (v_read pid l ?a)"
      "get s2 fr = v_data ?a d"
    using rd_two[OF assms] by metis
  let ?s3 = "put to (get s2 fr) s2" and ?a3 = "v_put l (v_data ?a d) (v_read pid d (v_read pid l ?a))"
  have "v_lock (abs s2) l = Some pid" using assms(4) by (simp add: 2(6) v_defs)
  from put_ok[OF 2(3,4) this, of "get s2 fr"]
  have 3: "inv ?s3" "at ?s3 l = Some to" "at ?s3 d = Some fr" "abs ?s3 = ?a3" using 2 by simp_all
  have "v_lock (abs ?s3) l = Some pid" using assms(4) by (simp add: 3(4) v_defs)
  then obtain s4 where 4: "wrt pid to ?s3 = Ret () s4" "inv s4" "at s4 l = Some to" "at s4 d = Some fr"
      "abs s4 = v_write l ?a3"
    using wrt_ok[OF 3(1,2)] 3 by (auto elim!: runsE)
  have "v_lock (abs s4) d = Some pid" using assms(4) by (simp add: 4(5) v_defs)
  moreover have "v_data (abs s4) d = v_disk (abs s4) d" if "v_refs (abs s4) d = 1"
    using that assms(4) clean[OF assms(1), of d] by (simp add: 4(5) v_defs)
  ultimately obtain s5 where 5: "rel pid fr s4 = Ret () s5" "inv s5" "at s5 l = Some to"
      "abs s5 = v_release d (v_write l ?a3)"
    using rel_ok[OF 4(2,4)] 4(3,5) by (auto elim!: runsE)
  have "v_lock (abs s5) l = Some pid" "v_data (abs s5) l = v_disk (abs s5) l"
    using assms(4) by (simp_all add: 5(4) v_defs)
  then have "runs (rel pid to s5) (\<lambda>_ s'. inv s' \<and> at s' = at s5 \<and> abs s' = v_release l (abs s5))"
    using rel_ok[OF 5(2,3)] by blast
  moreover have "v_release l (abs s5) = v_update l (v_data ?a d) ?a"
    using assms by (auto simp: 5(4) v_defs v_free_def fun_eq_iff intro!: bview.equality)
  ultimately show ?thesis using 2(1,2) 4(1) 5(1) by (auto elim!: runs_mono)
qed

text \<open>Block \<open>l\<close> is copied to block \<open>d\<close>, which is written and, when it was pinned, unpinned.\<close>

lemma install_block:
  assumes "inv s" "v_free l (abs s)" "v_free d (v_read pid l (abs s))" "l \<noteq> d"
    and "\<not> recovering \<Longrightarrow> v_refs (abs s) d > 0"
  shows "runs (bnd (rd pid l s) (\<lambda>lb s. bnd (rd pid d s) (\<lambda>db s.
      bnd (wrt pid db (put db (get s lb) s)) (\<lambda>_ s.
      bnd (rel pid lb (if recovering then s else unpin db s)) (\<lambda>_ s. rel pid db s)))))
    (\<lambda>_ s'. inv s' \<and> abs s' = (if recovering then id else v_drop d) (v_update d (v_data (abs s) l) (abs s)))"
proof -
  let ?a = "abs s"
  obtain lb db s1 s2 where 2: "rd pid l s = Ret lb s1" "rd pid d s1 = Ret db s2" "inv s2"
      "at s2 l = Some lb" "at s2 d = Some db" "abs s2 = v_read pid d (v_read pid l ?a)"
      "get s2 lb = v_data ?a l"
    using rd_two[OF assms(1-4)] by metis
  let ?s3 = "put db (get s2 lb) s2" and ?a3 = "v_put d (v_data ?a l) (v_read pid d (v_read pid l ?a))"
  have "v_lock (abs s2) d = Some pid" using assms(4) by (simp add: 2(6) v_defs)
  from put_ok[OF 2(3,5) this, of "get s2 lb"]
  have 3: "inv ?s3" "at ?s3 l = Some lb" "at ?s3 d = Some db" "abs ?s3 = ?a3" using 2 by simp_all
  have "v_lock (abs ?s3) d = Some pid" using assms(4) by (simp add: 3(4) v_defs)
  then obtain s4 where 4: "wrt pid db ?s3 = Ret () s4" "inv s4" "at s4 l = Some lb" "at s4 d = Some db"
      "abs s4 = v_write d ?a3"
    using wrt_ok[OF 3(1,3)] 3 by (auto elim!: runsE)
  let ?s5 = "if recovering then s4 else unpin db s4" and ?a5 = "(if recovering then id else v_drop d) (v_write d ?a3)"
  have "v_lock (abs s4) d = Some pid" "\<not> recovering \<Longrightarrow> v_refs (abs s4) d > 1"
    using assms(4,5) by (simp_all add: 4(5) v_defs)
  then have 5: "inv ?s5" "at ?s5 l = Some lb" "at ?s5 d = Some db" "abs ?s5 = ?a5"
    using unpin_ok[OF 4(2,4)] 4 by auto
  have "v_lock (abs ?s5) l = Some pid" using assms(4) by (simp add: 5(4) v_defs)
  moreover have "v_data (abs ?s5) l = v_disk (abs ?s5) l" if "v_refs (abs ?s5) l = 1"
    using that assms(4) clean[OF assms(1), of l] by (auto simp: 5(4) v_defs split: if_splits)
  ultimately obtain s6 where 6: "rel pid lb ?s5 = Ret () s6" "inv s6" "at s6 d = Some db"
      "abs s6 = v_release l ?a5"
    using rel_ok[OF 5(1,2)] 5(3,4) by (auto elim!: runsE)
  have "v_lock (abs s6) d = Some pid" "v_data (abs s6) d = v_disk (abs s6) d"
    using assms(4) by (simp_all add: 6(4) v_defs)
  then have "runs (rel pid db s6) (\<lambda>_ s'. inv s' \<and> at s' = at s6 \<and> abs s' = v_release d (abs s6))"
    using rel_ok[OF 6(2,3)] by blast
  moreover have "v_release d (abs s6) = (if recovering then id else v_drop d) (v_update d (v_data ?a l) ?a)"
    using assms by (auto simp: 6(4) v_defs v_free_def fun_eq_iff intro!: bview.equality)
  ultimately show ?thesis using 2(1,2) 4(1) 6(1) by (auto elim!: runs_mono)
qed

end

section \<open>The cache keeps the contract\<close>

definition abs_bc :: "bcache \<Rightarrow> bview" where
  "abs_bc s = \<lparr>v_data = view s, v_disk = disk s, v_refs = refs s, v_lock = locked s,
     v_busy = card (busy s), v_trace = writes s\<rparr>"

lemma locked_slot:
  assumes "slot_of s b = Some i" "locked s b = Some pid"
  shows "slocked (blk (bufs s i))" "spid (blk (bufs s i)) = pid" "holdingsleep pid (blk (bufs s i))"
  using assms by (auto simp: locked_def holdingsleep_def split: if_splits)

lemma locked_buf:
  assumes "bc_inv s" "slot_of s b = Some i" "locked s b = Some pid"
  shows "i < NBUF" "bdev (bufs s i) = ROOTDEV" "blockno (bufs s i) = b" "refcnt (bufs s i) \<noteq> 0"
    "bvalid (bufs s i)" "refs s b = unat (refcnt (bufs s i))" "view s b = bdata (bufs s i)" "refs s b > 0"
proof -
  show i: "i < NBUF" "bdev (bufs s i) = ROOTDEV" "blockno (bufs s i) = b"
    using assms(2) by (simp_all add: slot_some[OF assms(1)])
  show r: "refcnt (bufs s i) \<noteq> 0" "bvalid (bufs s i)"
    using bc_invD(2)[OF assms(1) i(1)] locked_slot[OF assms(2,3)] by auto
  show "refs s b = unat (refcnt (bufs s i))" "view s b = bdata (bufs s i)" "refs s b > 0"
    using assms(2) r by (simp_all add: refs_def view_def unat_gt_0)
qed

text \<open>Each operation on a locked buffer is a change of one block.\<close>

lemma one_block_step:
  assumes "bc_inv s" "slot_of s b = Some i" "one_block b i x d s s'" "i < NBUF"
  shows "bc_inv s'" "slot_of s' = slot_of s" "view s' = (view s)(b := if bvalid x then bdata x else d)"
    "refs s' = (refs s)(b := unat (refcnt x))"
    "locked s' = (locked s)(b := if slocked (blk x) then Some (spid (blk x)) else None)"
    "disk s' = (disk s)(b := d)"
    "card (busy s') + (if refs s b = 0 then 0 else 1) = card (busy s) + (if refcnt x = 0 then 0 else 1)"
  using one_block_inv[OF assms(1) _ assms(4,3)] one_block_abs[OF assms(1-3)] card_busy[OF assms(1-3)] assms(2,3)
  by (auto simp: one_block_def)

lemma refs_block:
  assumes "bc_inv s" "slot_of s b = Some i" "locked s b = Some pid" "x = (bufs s i)\<lparr>refcnt := r, blk := l\<rparr>"
    "slocked l \<Longrightarrow> r \<noteq> 0" "r = 0 \<Longrightarrow> view s b = disk s b"
    "bufs s' = (bufs s)(i := x)" "disk s' = disk s" "distinct (lru s')" "set (lru s') = {..<NBUF}"
  shows "one_block b i x (disk s b) s s'"
  using assms locked_buf[OF assms(1-3)] by (auto simp: one_block_def)

lemma remove1_lru:
  assumes "bc_inv s" "i < NBUF"
  shows "distinct (i # remove1 i (lru s))" "set (i # remove1 i (lru s)) = {..<NBUF}"
  using assms by (auto simp: bc_inv_def)

lemma brelse_eq:
  assumes "holdingsleep pid (blk (bufs s i))"
  shows "brelse pid i s = Ret () (s\<lparr>bwakes := bwakes s @ [ChSleepLock i],
    bufs := (bufs s)(i := (bufs s i)\<lparr>refcnt := refcnt (bufs s i) - 1, blk := releasesleep (blk (bufs s i))\<rparr>),
    lru := if refcnt (bufs s i) - 1 = 0 then i # remove1 i (lru s) else lru s\<rparr>)"
  using assms by (auto simp: brelse_def upd_buf_def Let_def fun_eq_iff intro!: bcache.equality buf.equality)

lemma brelse_ok:
  assumes "bc_inv s" "slot_of s b = Some i" "locked s b = Some pid"
    and c: "refs s b = 1 \<Longrightarrow> view s b = disk s b"
  shows "runs (brelse pid i s) (\<lambda>_ s'. bc_inv s' \<and> slot_of s' = slot_of s \<and> abs_bc s' = v_release b (abs_bc s))"
proof -
  let ?r = "refcnt (bufs s i) - 1" and ?l = "releasesleep (blk (bufs s i))"
  let ?x = "(bufs s i)\<lparr>refcnt := ?r, blk := ?l\<rparr>"
  note lb = locked_buf[OF assms(1-3)]
  have ur: "unat ?r = refs s b - 1" using lb(4,6) by (simp add: refcnt_dec)
  have "?r = 0 \<longleftrightarrow> refs s b = 1" using ur lb(8) unat_eq_0[of ?r] by auto
  define s' where "s' = s\<lparr>bwakes := bwakes s @ [ChSleepLock i], bufs := (bufs s)(i := ?x),
    lru := if ?r = 0 then i # remove1 i (lru s) else lru s\<rparr>"
  have s': "brelse pid i s = Ret () s'" "bufs s' = (bufs s)(i := ?x)" "disk s' = disk s"
      "writes s' = writes s" "lru s' = (if ?r = 0 then i # remove1 i (lru s) else lru s)"
    unfolding s'_def by (rule brelse_eq[OF locked_slot(3)[OF assms(2,3)]]) simp_all
  have l: "distinct (lru s')" "set (lru s') = {..<NBUF}"
    using remove1_lru[OF assms(1) lb(1)] assms(1) s'(5) by (auto simp: bc_inv_def)
  have o: "one_block b i ?x (disk s b) s s'"
    using c \<open>?r = 0 \<longleftrightarrow> refs s b = 1\<close> s'(2,3) l
    by (intro refs_block[OF assms(1-3) refl]) (auto simp: releasesleep_def)
  note st = one_block_step[OF assms(1,2) o lb(1)]
  have "abs_bc s' = v_release b (abs_bc s)"
    using st(3-7) ur lb s'(3,4) \<open>?r = 0 \<longleftrightarrow> refs s b = 1\<close>
    by (auto simp: abs_bc_def v_defs releasesleep_def split: if_splits)
  then show ?thesis using s'(1) st(1,2) by simp
qed

lemma pin_abs:
  assumes "bc_inv s" "slot_of s b = Some i" "locked s b = Some pid" "refs s b + 1 < 2 ^ 32"
  shows "bc_inv (bpin i s) \<and> slot_of (bpin i s) = slot_of s \<and> abs_bc (bpin i s) = v_pin b (abs_bc s)"
proof -
  let ?r = "refcnt (bufs s i) + 1"
  let ?x = "(bufs s i)\<lparr>refcnt := ?r, blk := blk (bufs s i)\<rparr>"
  note lb = locked_buf[OF assms(1-3)]
  have ur: "unat ?r = refs s b + 1" using lb(6) assms(4) by (subst unat_plus_if_size) (simp add: word_size)
  then have nz: "?r \<noteq> 0" by (metis add_is_0 one_neq_zero unat_0)
  have o: "one_block b i ?x (disk s b) s (bpin i s)"
    using assms(1) nz by (intro refs_block[OF assms(1-3) refl]) (auto simp: bpin_def upd_buf_def bc_inv_def)
  note st = one_block_step[OF assms(1,2) o lb(1)]
  have "abs_bc (bpin i s) = v_pin b (abs_bc s)"
    using st(3-7) ur lb nz locked_slot[OF assms(2,3)] assms(3)
    by (auto simp: abs_bc_def v_defs bpin_def upd_buf_def fun_eq_iff split: if_splits)
  then show ?thesis using st(1,2) by simp
qed

lemma unpin_abs:
  assumes "bc_inv s" "slot_of s b = Some i" "locked s b = Some pid" "refs s b > 1"
  shows "bc_inv (bunpin i s) \<and> slot_of (bunpin i s) = slot_of s \<and> abs_bc (bunpin i s) = v_drop b (abs_bc s)"
proof -
  let ?r = "refcnt (bufs s i) - 1"
  let ?x = "(bufs s i)\<lparr>refcnt := ?r, blk := blk (bufs s i)\<rparr>"
  note lb = locked_buf[OF assms(1-3)]
  have ur: "unat ?r = refs s b - 1" using lb(4,6) by (simp add: refcnt_dec)
  then have nz: "?r \<noteq> 0" using assms(4) by (metis diff_is_0_eq not_le unat_0)
  have o: "one_block b i ?x (disk s b) s (bunpin i s)"
    using assms(1) nz by (intro refs_block[OF assms(1-3) refl]) (auto simp: bunpin_def upd_buf_def bc_inv_def)
  note st = one_block_step[OF assms(1,2) o lb(1)]
  have "abs_bc (bunpin i s) = v_drop b (abs_bc s)"
    using st(3-7) ur lb nz locked_slot[OF assms(2,3)] assms(3,4)
    by (auto simp: abs_bc_def v_defs bunpin_def upd_buf_def fun_eq_iff split: if_splits)
  then show ?thesis using st(1,2) by simp
qed

interpretation bc: buffer_cache "\<lambda>pid b. bread pid ROOTDEV b" bwrite brelse set_data
  "\<lambda>s i. bdata (bufs s i)" bpin bunpin bc_inv slot_of abs_bc
proof (unfold_locales, goal_cases)
  case (1 s b pid)
  then have f: "locked s b = None" "slot_of s b \<noteq> None \<or> card (busy s) < NBUF" "refs s b + 1 < 2 ^ 32"
    by (auto simp: v_free_def abs_bc_def refs_def split: option.splits)
  obtain i where i: "takes s b i" "bread pid ROOTDEV b s = Ret i (hold pid b i s)"
    using bread_eq[OF 1(1) f(1,2)] by blast
  note h = hold_abs[OF 1(1) i(1) f(3), of pid]
  have "slot_of (hold pid b i s) c = slot_of s c" if r: "refs s c > 0" for c
  proof -
    obtain j where j: "slot_of s c = Some j" "refcnt (bufs s j) \<noteq> 0"
      using r by (auto simp: refs_def unat_gt_0 split: option.splits)
    then have "slot_of (hold pid b i s) c = Some j"
      by (rule hold_slot[OF 1(1) i(1) f(3)])
    then show ?thesis using j by simp
  qed
  then show ?case using i(2) h by (simp add: abs_bc_def v_read_def hold_same)
next
  case (2 s b h pid)
  then show ?case using locked_buf(7) by (simp add: abs_bc_def)
next
  case (3 s b h pid d)
  then have l: "locked s b = Some pid" by (simp add: abs_bc_def)
  note lb = locked_buf[OF 3(1,2) l]
  note st = one_block_step[OF 3(1,2) set_data_block[OF 3(1,2)] lb(1), of d]
  show ?case
    using st lb l locked_slot[OF 3(2) l]
    by (auto simp: abs_bc_def v_put_def set_data_def upd_buf_def fun_eq_iff)
next
  case (4 s b h pid)
  then have l: "locked s b = Some pid" by (simp add: abs_bc_def)
  note lb = locked_buf[OF 4(1,2) l]
  note st = one_block_step[OF 4(1,2) bwrite_block[OF 4(1,2)] lb(1)]
  have "writes (disk_rw h True s) = writes s @ [(b, view s b)]"
    using lb by (simp add: disk_rw_def Let_def)
  then show ?case
    using st lb l locked_slot[OF 4(2) l]
    by (auto simp: abs_bc_def v_write_def bwrite_def fun_eq_iff)
next
  case (5 s b h pid)
  then show ?case using brelse_ok[OF 5(1,2)] by (simp add: abs_bc_def)
next
  case (6 s b h pid)
  then show ?case using pin_abs[OF 6(1,2)] by (simp add: abs_bc_def)
next
  case (7 s b h pid)
  then show ?case using unpin_abs[OF 7(1,2)] by (simp add: abs_bc_def)
next
  case (8 s b)
  show ?case
  proof (cases "slot_of s b")
    case (Some i)
    then have "i < NBUF" "bdev (bufs s i) = ROOTDEV" "blockno (bufs s i) = b"
      by (auto simp: slot_some[OF 8(1)])
    then show ?thesis
      using bc_invD(3)[OF 8(1), of i] 8(2) Some by (simp add: abs_bc_def view_def refs_def unat_eq_0)
  qed (simp add: abs_bc_def view_def)
next
  case (9 s b)
  show ?case
  proof (cases "slot_of s b")
    case (Some i)
    then have "i < NBUF" by (simp add: slot_some[OF 9(1)])
    then show ?thesis
      using bc_invD(2)[OF 9(1), of i] 9(2) Some
      by (auto simp: abs_bc_def locked_def refs_def unat_gt_0 split: if_splits)
  qed (use 9(2) in \<open>simp add: abs_bc_def locked_def\<close>)
qed

section \<open>The cache at boot\<close>

text \<open>The zeroed static buffers, and the cache after \<^verbatim>\<open>binit\<close> with disk content \<open>d\<close>.\<close>

definition fresh_buf :: buf where
  "fresh_buf = \<lparr>bvalid = False, bdev = 0, blockno = 0, blk = initsleeplock, refcnt = 0, bdata = (\<lambda>_. 0)\<rparr>"

definition boot_bcache :: "(u32 \<Rightarrow> block) \<Rightarrow> bcache" where
  "boot_bcache d = binit \<lparr>bufs = (\<lambda>_. fresh_buf), lru = [], disk = d, writes = [], bwakes = []\<rparr>"

lemma binit_loop_fresh:
  "bufs s = (\<lambda>_. fresh_buf) \<Longrightarrow> binit_loop is s = s\<lparr>lru := rev is @ lru s\<rparr>"
proof (induction "is" arbitrary: s)
  case (Cons i "is")
  have "upd_buf i (blk_update (\<lambda>_. initsleeplock)) (s\<lparr>lru := i # lru s\<rparr>) = s\<lparr>lru := i # lru s\<rparr>"
    using Cons.prems by (auto simp: upd_buf_def fresh_buf_def fun_eq_iff intro!: bcache.equality)
  then show ?case using Cons.IH[of "s\<lparr>lru := i # lru s\<rparr>"] Cons.prems by simp
qed simp

lemma boot_bcache_eq:
  "boot_bcache d = \<lparr>bufs = (\<lambda>_. fresh_buf), lru = rev [0..<NBUF], disk = d, writes = [], bwakes = []\<rparr>"
  unfolding boot_bcache_def binit_def by (subst binit_loop_fresh) (simp_all del: upt_Suc)

lemma boot_inv: "bc_inv (boot_bcache d)"
  by (auto simp: bc_inv_def boot_bcache_eq fresh_buf_def initsleeplock_def simp del: upt_Suc)

lemma boot_slot: "slot_of (boot_bcache d) b = None"
  by (simp add: slot_none[OF boot_inv]) (simp add: boot_bcache_eq fresh_buf_def)

lemma boot_parts:
  "disk (boot_bcache d) = d" "writes (boot_bcache d) = []" "busy (boot_bcache d) = {}"
  "view (boot_bcache d) = d" "refs (boot_bcache d) = (\<lambda>_. 0)" "locked (boot_bcache d) = (\<lambda>_. None)"
proof -
  show d: "disk (boot_bcache d) = d" "writes (boot_bcache d) = []" "busy (boot_bcache d) = {}"
    by (simp_all add: busy_def boot_bcache_eq fresh_buf_def)
  show "view (boot_bcache d) = d" "refs (boot_bcache d) = (\<lambda>_. 0)" "locked (boot_bcache d) = (\<lambda>_. None)"
    by (auto simp: view_def refs_def locked_def boot_slot d fun_eq_iff)
qed

lemma boot_abs:
  "abs_bc (boot_bcache d) =
   \<lparr>v_data = d, v_disk = d, v_refs = (\<lambda>_. 0), v_lock = (\<lambda>_. None), v_busy = 0, v_trace = []\<rparr>"
  by (simp add: abs_bc_def boot_parts)

section \<open>Properties\<close>


lemma bread_sleeps:
  assumes "bc_inv s" "locked s b \<noteq> None"
  shows "\<exists>i s'. bread pid ROOTDEV b s = Sleep (ChSleepLock i) s'"
proof -
  obtain i where i: "slot_of s b = Some i" "slocked (blk (bufs s i))"
    using assms(2) by (auto simp: locked_def split: option.splits if_splits)
  then show ?thesis
    by (simp add: bread_def bget_def slot_of_def lock_buf_def acquiresleep_def upd_buf_def)
qed

lemma bread_panics:
  assumes "bc_inv s" "slot_of s b = None" "card (busy s) \<ge> NBUF"
  shows "bread pid ROOTDEV b s = Panic ''bget: no buffers''"
proof -
  have "busy s = {..<NBUF}"
    using assms(3) by (intro card_subset_eq) (auto simp: busy_def intro!: le_antisym card_mono[of "{..<NBUF}", simplified])
  then have "find (\<lambda>b. refcnt (bufs s b) = 0) (rev (lru s)) = None"
    using assms(1) by (auto simp: find_None_iff busy_def bc_inv_def)
  then show ?thesis using assms(2) by (simp add: bread_def bget_def slot_of_def)
qed

text \<open>
  (C16) \<^verbatim>\<open>bread\<close> refines the read of an abstract block store, on every branch: it returns the buffer that holds the
  block, locked for the caller, with the block's current content; or it waits, only if another
  process holds the block; or it panics, only if the block is not cached and all \<^verbatim>\<open>NBUF\<close> buffers are in use.
\<close>

theorem bread_refines:
  assumes "bc_inv s" "refs s b + 1 < 2 ^ 32"
  shows "case bread pid ROOTDEV b s of
     Ret i s' \<Rightarrow> bc_inv s' \<and> slot_of s' b = Some i \<and> bdata (bufs s' i) = view s b \<and>
       abs_bc s' = v_read pid b (abs_bc s)
   | Sleep c s' \<Rightarrow> locked s b \<noteq> None
   | Panic m \<Rightarrow> m = ''bget: no buffers'' \<and> slot_of s b = None \<and> card (busy s) \<ge> NBUF
   | Exit s' \<Rightarrow> False | Diverge \<Rightarrow> False"
proof -
  consider "locked s b \<noteq> None" | "locked s b = None" "slot_of s b = None" "card (busy s) \<ge> NBUF"
    | "locked s b = None" "slot_of s b \<noteq> None \<or> card (busy s) < NBUF"
    by fastforce
  then show ?thesis
  proof cases
    case 1
    then show ?thesis using bread_sleeps[OF assms(1) 1, of pid] by auto
  next
    case 2
    then show ?thesis using bread_panics[OF assms(1) 2(2,3), of pid] by simp
  next
    case 3
    have "\<exists>i. takes s b i \<and> bread pid ROOTDEV b s = Ret i (hold pid b i s)"
      using bread_eq[OF assms(1) 3] .
    then obtain i where i: "takes s b i" "bread pid ROOTDEV b s = Ret i (hold pid b i s)" by blast
    have "bdata (bufs (hold pid b i s) i) = view s b" by (simp add: hold_def)
    then show ?thesis using hold_abs[OF assms(1) i(1) assms(2), of pid] i(2) by (simp add: abs_bc_def v_read_def hold_same)
  qed
qed

text \<open>The cache after boot with a zeroed disk, where process 1 has read block 5.\<close>

theorem bread_refines_witness:
  "case bread 1 ROOTDEV 5 (boot_bcache (\<lambda>_ _. 0)) of
     Ret i s' \<Rightarrow> bc_inv s' \<and> slot_of s' 5 = Some i \<and> bdata (bufs s' i) = view (boot_bcache (\<lambda>_ _. 0)) 5 \<and>
       abs_bc s' = v_read 1 5 (abs_bc (boot_bcache (\<lambda>_ _. 0)))
   | Sleep c s' \<Rightarrow> locked (boot_bcache (\<lambda>_ _. 0)) 5 \<noteq> None
   | Panic m \<Rightarrow> m = ''bget: no buffers'' \<and> slot_of (boot_bcache (\<lambda>_ _. 0)) 5 = None \<and> card (busy (boot_bcache (\<lambda>_ _. 0))) \<ge> NBUF
   | Exit s' \<Rightarrow> False | Diverge \<Rightarrow> False"
  by (rule bread_refines[OF boot_inv]) (simp add: boot_parts)

text \<open>
  (C17) A block read, changed, written with \<^verbatim>\<open>bwrite\<close> and released has its new content both in the cache and on disk, every other
  block keeps its content, and no reference or lock is left behind.
\<close>

theorem bwrite_updates_block:
  assumes "bc_inv s" "locked s b = None" "refs s b > 0 \<or> card (busy s) < NBUF" "refs s b + 1 < 2 ^ 32"
  shows "runs (bnd (bread pid ROOTDEV b s) (\<lambda>i s. bnd (bwrite pid i (set_data i (f (bdata (bufs s i))) s)) (\<lambda>_ s. brelse pid i s)))
    (\<lambda>_ s'. bc_inv s' \<and> view s' = (view s)(b := f (view s b)) \<and> disk s' = (disk s)(b := f (view s b)) \<and>
       refs s' = refs s \<and> locked s' = locked s \<and> writes s' = writes s @ [(b, f (view s b))])"
proof -
  have "v_free b (abs_bc s)" using assms by (simp add: v_free_def abs_bc_def)
  from bc.update_block[OF assms(1) this, of pid f] show ?thesis
    by (rule runs_mono) (auto simp: abs_bc_def v_update_def)
qed

theorem bwrite_updates_block_witness:
  "runs (bnd (bread 1 ROOTDEV 5 (boot_bcache (\<lambda>_ _. 0))) (\<lambda>i s. bnd (bwrite 1 i (set_data i (\<lambda>_. 7) s)) (\<lambda>_ s. brelse 1 i s)))
    (\<lambda>_ s'. view s' 5 = (\<lambda>_. 7) \<and> view s' 6 = (\<lambda>_. 0) \<and> disk s' 5 = (\<lambda>_. 7))"
  by (rule runs_mono[OF bwrite_updates_block[OF boot_inv, where b = 5 and pid = 1 and f = "\<lambda>_ _. 7"]])
     (auto simp: boot_parts)

end
