(* ===== verification/Memory.thy ===== *)
theory Memory
  imports Prelude
begin

text \<open>
  The byte-addressed physical memory and the routines of \<^verbatim>\<open>kernel/string.c\<close> that work on it:
  \<^verbatim>\<open>memset\<close>, \<^verbatim>\<open>memmove\<close> (with its two copying directions), and the string routines on byte
  views. The lemmas characterise each routine by the bytes it leaves behind, and give the
  page and cell arithmetic that \<^verbatim>\<open>kalloc.c\<close> and \<^verbatim>\<open>vm.c\<close> rest on.
\<close>

type_synonym mem = "u64 \<Rightarrow> u8"

section \<open>Constants of \<^verbatim>\<open>riscv.h\<close>\<close>

abbreviation (input) PGSIZE :: nat where "PGSIZE \<equiv> 4096"

definition PGROUNDUP :: "u64 \<Rightarrow> u64" where
  "PGROUNDUP sz = (sz + 4096 - 1) AND NOT (4096 - 1)"

definition PGROUNDDOWN :: "u64 \<Rightarrow> u64" where
  "PGROUNDDOWN a = a AND NOT (4096 - 1)"

section \<open>Eight-byte cells\<close>

definition ld64 :: "mem \<Rightarrow> u64 \<Rightarrow> u64" where
  "ld64 m a = le64 (le32 (m a) (m (a + 1)) (m (a + 2)) (m (a + 3)))
                   (le32 (m (a + 4)) (m (a + 5)) (m (a + 6)) (m (a + 7)))"

definition st64 :: "mem \<Rightarrow> u64 \<Rightarrow> u64 \<Rightarrow> mem" where
  "st64 m a v = m(a := byte 0 v, a + 1 := byte 1 v, a + 2 := byte 2 v, a + 3 := byte 3 v,
                  a + 4 := byte 4 v, a + 5 := byte 5 v, a + 6 := byte 6 v, a + 7 := byte 7 v)"

section \<open>\<^verbatim>\<open>kernel/string.c\<close>\<close>

text \<open>\<^verbatim>\<open>memset\<close>: \<open>k\<close> bytes are still to be written, the next one at \<open>d\<close>.\<close>

primrec memset_loop :: "nat \<Rightarrow> mem \<Rightarrow> u64 \<Rightarrow> u8 \<Rightarrow> mem" where
  "memset_loop 0 m d c = m"
| "memset_loop (Suc k) m d c = memset_loop k (m(d := c)) (d + 1) c"

definition memset :: "mem \<Rightarrow> u64 \<Rightarrow> u8 \<Rightarrow> nat \<Rightarrow> mem" where
  "memset m dst c n = memset_loop n m dst c"

text \<open>
  \<^verbatim>\<open>memmove\<close>: the upward loop \<^verbatim>\<open>*d++ = *s++\<close> and the downward loop \<^verbatim>\<open>*--d = *--s\<close>, whose
  pointers start one past the end of the two ranges.
\<close>

primrec copy_up :: "nat \<Rightarrow> mem \<Rightarrow> u64 \<Rightarrow> u64 \<Rightarrow> mem" where
  "copy_up 0 m d s = m"
| "copy_up (Suc k) m d s = copy_up k (m(d := m s)) (d + 1) (s + 1)"

primrec copy_down :: "nat \<Rightarrow> mem \<Rightarrow> u64 \<Rightarrow> u64 \<Rightarrow> mem" where
  "copy_down 0 m d s = m"
| "copy_down (Suc k) m d s = copy_down k (m(d - 1 := m (s - 1))) (d - 1) (s - 1)"

definition memmove :: "mem \<Rightarrow> u64 \<Rightarrow> u64 \<Rightarrow> u32 \<Rightarrow> mem" where
  "memmove m dst src n =
     (if n = 0 then m
      else if src < dst \<and> src + ucast n > dst
      then copy_down (unat n) m (dst + ucast n) (src + ucast n)
      else copy_up (unat n) m dst src)"

text \<open>
  The comparing and measuring routines read bytes only; they take the bytes from the pointer
  on as a view \<open>nat \<Rightarrow> u8\<close>. \<^verbatim>\<open>memcmp\<close> and \<^verbatim>\<open>strncmp\<close> return the difference of the first two
  bytes that differ.
\<close>

primrec memcmp :: "(nat \<Rightarrow> u8) \<Rightarrow> (nat \<Rightarrow> u8) \<Rightarrow> nat \<Rightarrow> int" where
  "memcmp s1 s2 0 = 0"
| "memcmp s1 s2 (Suc n) =
     (if s1 0 \<noteq> s2 0 then int (unat (s1 0)) - int (unat (s2 0))
      else memcmp (\<lambda>i. s1 (Suc i)) (\<lambda>i. s2 (Suc i)) n)"

primrec strncmp :: "(nat \<Rightarrow> u8) \<Rightarrow> (nat \<Rightarrow> u8) \<Rightarrow> nat \<Rightarrow> int" where
  "strncmp p q 0 = 0"
| "strncmp p q (Suc n) =
     (if p 0 \<noteq> 0 \<and> p 0 = q 0 then strncmp (\<lambda>i. p (Suc i)) (\<lambda>i. q (Suc i)) n
      else int (unat (p 0)) - int (unat (q 0)))"

text \<open>
  \<^verbatim>\<open>strncpy\<close> and \<^verbatim>\<open>safestrcpy\<close> write an array of their own (a directory entry, a process
  name): \<open>i\<close> is the index \<^verbatim>\<open>s\<close> and \<^verbatim>\<open>t\<close> have reached, \<open>n\<close> the count still allowed.
\<close>

primrec zero_fill :: "nat \<Rightarrow> (nat \<Rightarrow> u8) \<Rightarrow> nat \<Rightarrow> (nat \<Rightarrow> u8)" where
  "zero_fill 0 s i = s"
| "zero_fill (Suc n) s i = zero_fill n (s(i := 0)) (Suc i)"

primrec strncpy_loop :: "nat \<Rightarrow> (nat \<Rightarrow> u8) \<Rightarrow> (nat \<Rightarrow> u8) \<Rightarrow> nat \<Rightarrow> (nat \<Rightarrow> u8)" where
  "strncpy_loop 0 s t i = s"
| "strncpy_loop (Suc n) s t i =
     (let s' = s(i := t i) in
      if t i \<noteq> 0 then strncpy_loop n s' t (Suc i) else zero_fill n s' (Suc i))"

definition strncpy :: "(nat \<Rightarrow> u8) \<Rightarrow> (nat \<Rightarrow> u8) \<Rightarrow> nat \<Rightarrow> (nat \<Rightarrow> u8)" where
  "strncpy s t n = strncpy_loop n s t 0"

primrec safestrcpy_loop :: "nat \<Rightarrow> (nat \<Rightarrow> u8) \<Rightarrow> (nat \<Rightarrow> u8) \<Rightarrow> nat \<Rightarrow> (nat \<Rightarrow> u8)" where
  "safestrcpy_loop 0 s t i = s(i := 0)"
| "safestrcpy_loop (Suc n) s t i =
     (let s' = s(i := t i) in
      if t i \<noteq> 0 then safestrcpy_loop n s' t (Suc i) else s'(Suc i := 0))"

definition safestrcpy :: "(nat \<Rightarrow> u8) \<Rightarrow> (nat \<Rightarrow> u8) \<Rightarrow> nat \<Rightarrow> (nat \<Rightarrow> u8)" where
  "safestrcpy s t n = (if n \<le> 0 then s else safestrcpy_loop (n - 1) s t 0)"

text \<open>\<^verbatim>\<open>strlen\<close> scans until a zero byte; on a view without one it does not return.\<close>

partial_function (option) strlen_loop :: "(nat \<Rightarrow> u8) \<Rightarrow> nat \<Rightarrow> nat option" where
  "strlen_loop s n = (if s n \<noteq> 0 then strlen_loop s (n + 1) else Some n)"

definition strlen :: "(nat \<Rightarrow> u8) \<Rightarrow> nat option" where
  "strlen s = strlen_loop s 0"

section \<open>What the memory routines leave behind\<close>

lemma unat_diff_Suc:
  fixes a d :: u64
  assumes "a \<noteq> d"
  shows "unat (a - (d + 1)) = unat (a - d) - 1"
proof -
  have "a - (d + 1) = (a - d) - 1" by simp
  moreover have "a - d \<noteq> 0" using assms by simp
  ultimately show ?thesis by (metis unat_minus_one)
qed

lemma unat_diff_pos: "a \<noteq> d \<Longrightarrow> 0 < unat (a - d :: u64)"
  by (metis eq_iff_diff_eq_0 unat_gt_0)

lemma unat_neg_one: "unat (- 1 :: u64) = 2 ^ 64 - 1"
  by (simp add: unat_minus_one[of 0] unsigned_minus_1_eq_mask mask_eq_exp_minus_1)

lemma memset_loop_apply:
  "k \<le> 2 ^ 64 \<Longrightarrow> memset_loop k m d c a = (if unat (a - d) < k then c else m a)"
proof (induction k arbitrary: m d)
  case 0
  then show ?case by simp
next
  case (Suc k)
  then show ?case
    using unat_diff_Suc[of a d] unat_diff_pos[of a d] unat_less_u64[of "a - d"]
    by (cases "a = d") auto
qed

lemma copy_up_apply:
  assumes "k \<le> 2 ^ 64" and "d = s \<or> k \<le> unat (d - s)"
  shows "copy_up k m d s a = (if unat (a - d) < k then m (s + (a - d)) else m a)"
  using assms
proof (induction k arbitrary: m d s)
  case 0
  then show ?case by simp
next
  case (Suc k)
  have IH: "copy_up k (m(d := m s)) (d + 1) (s + 1) a =
      (if unat (a - (d + 1)) < k then (m(d := m s)) (s + 1 + (a - (d + 1))) else (m(d := m s)) a)"
    by (rule Suc.IH) (use Suc.prems in auto)
  show ?case
  proof (cases "a = d")
    case True
    then have "unat (a - (d + 1)) = 2 ^ 64 - 1"
      by (simp add: unat_neg_one)
    then show ?thesis using IH Suc.prems True by simp
  next
    case False
    have ne: "s + (a - d) = d \<Longrightarrow> unat (a - d) = unat (d - s)"
      by (metis add_diff_cancel_left')
    have "unat (a - d) < Suc k \<Longrightarrow> s + (a - d) \<noteq> d"
      using ne False Suc.prems(2) by (auto simp: algebra_simps)
    then show ?thesis
      using IH False unat_diff_Suc[OF False] unat_diff_pos[OF False] by auto
  qed
qed

lemma copy_down_apply:
  assumes "k \<le> 2 ^ 64" and "d = s \<or> k \<le> unat (s - d)"
  shows "copy_down k m d s a = (if unat (d - 1 - a) < k then m (s - (d - a)) else m a)"
  using assms
proof (induction k arbitrary: m d s)
  case 0
  then show ?case by simp
next
  case (Suc k)
  have IH: "copy_down k (m(d - 1 := m (s - 1))) (d - 1) (s - 1) a =
      (if unat (d - 1 - 1 - a) < k then (m(d - 1 := m (s - 1))) (s - 1 - (d - 1 - a))
       else (m(d - 1 := m (s - 1))) a)"
    by (rule Suc.IH) (use Suc.prems in auto)
  show ?case
  proof (cases "a = d - 1")
    case True
    then have "unat (d - 1 - 1 - a) = 2 ^ 64 - 1"
      by (simp add: unat_neg_one)
    then show ?thesis using IH Suc.prems True by simp
  next
    case False
    have dec: "unat (d - 1 - 1 - a) = unat (d - 1 - a) - 1"
      using False unat_minus_one[of "d - 1 - a"] by (simp add: algebra_simps)
    have pos: "0 < unat (d - 1 - a)"
      using False by (metis eq_iff_diff_eq_0 unat_gt_0)
    have "unat (d - 1 - a) < Suc k \<Longrightarrow> s - (d - a) \<noteq> d - 1"
    proof
      assume lt: "unat (d - 1 - a) < Suc k" and eq: "s - (d - a) = d - 1"
      then have "s - d = d - 1 - a" by (simp add: algebra_simps)
      with lt pos Suc.prems(2) show False by auto
    qed
    moreover have "s - 1 - (d - 1 - a) = s - (d - a)" by simp
    ultimately show ?thesis
      unfolding copy_down.simps IH using False dec pos by (auto simp: algebra_simps)
  qed
qed

lemma unat_sub_if:
  fixes a b :: u64
  shows "unat (a - b) = (if b \<le> a then unat a - unat b else 2 ^ 64 + unat a - unat b)"
  by (auto simp: unat_sub_if_size word_size word_le_nat_alt)

lemma unat_mirror:
  fixes N x :: u64
  assumes "N \<noteq> 0"
  shows "unat (N - 1 - x) < unat N \<longleftrightarrow> unat x < unat N"
proof -
  have "unat (N - 1) = unat N - 1" and "0 < unat N"
    using assms by (simp_all add: unat_minus_one unat_gt_0)
  then show ?thesis
    using unat_less_u64[of x] unat_sub_if[of "N - 1" x] by (auto simp: word_le_nat_alt split: if_splits)
qed

lemma memmove_apply:
  assumes src: "unat src + unat n < 2 ^ 64" and dst: "unat dst + unat n \<le> 2 ^ 64"
  shows "memmove m dst src n a = (if unat (a - dst) < unat n then m (src + (a - dst)) else m a)"
proof (cases "n = 0")
  case True
  then show ?thesis by (simp add: memmove_def)
next
  case False
  have un: "unat (ucast n :: u64) = unat n"
    using unat_less_u32[of n] by (simp add: unsigned_ucast_eq take_bit_nat_eq_self_iff)
  have pn: "0 < unat n"
    using False by (simp add: unat_gt_0)
  have usn: "unat (src + ucast n) = unat src + unat n"
    using src by (subst unat_plus_if_size) (simp add: un word_size)
  have kn: "unat n \<le> 2 ^ 64"
    using unat_less_u32[of n] by simp
  show ?thesis
  proof (cases "src < dst \<and> src + ucast n > dst")
    case True
    let ?d = "dst + ucast n" and ?s = "src + ucast n"
    have cond: "?d = ?s \<or> unat n \<le> unat (?s - ?d)"
      using True dst by (auto simp: unat_sub_if word_less_nat_alt word_le_nat_alt)
    have eq: "?d - 1 - a = ucast n - 1 - (a - dst)" by (simp add: algebra_simps)
    have "ucast n \<noteq> (0 :: u64)" using pn un by auto
    then have rng: "unat (?d - 1 - a) < unat n \<longleftrightarrow> unat (a - dst) < unat n"
      unfolding eq un[symmetric] by (rule unat_mirror)
    have "?s - (?d - a) = src + (a - dst)" by (simp add: algebra_simps)
    with True False show ?thesis
      by (simp add: memmove_def copy_down_apply[OF kn cond] rng)
  next
    case no: False
    have "dst = src \<or> unat n \<le> unat (dst - src)"
      using no usn src dst unat_less_u64[of src]
      by (auto simp: unat_sub_if word_less_nat_alt word_le_nat_alt word_unat_eq_iff)
    with no False show ?thesis
      by (auto simp: memmove_def copy_up_apply[OF kn])
  qed
qed

section \<open>Pages and cells\<close>

definition aligned :: "u64 \<Rightarrow> bool" where
  "aligned p \<longleftrightarrow> p AND 4095 = 0"

definition pfn :: "u64 \<Rightarrow> nat" where
  "pfn a = unat a div 4096"

lemma unat_and_mask12: "unat (a AND 4095 :: u64) = unat a mod 4096"
proof -
  have "a AND 4095 = take_bit 12 a"
    by (simp add: take_bit_eq_mask mask_eq_exp_minus_1)
  then show ?thesis
    by (simp add: unat_mod take_bit_eq_mod)
qed

lemma aligned_iff: "aligned p \<longleftrightarrow> unat p mod 4096 = 0"
  by (simp add: aligned_def unat_and_mask12[symmetric] unat_eq_zero)

lemma and_not_add_and: "(a AND NOT b) + (a AND b) = (a :: 'a::len word)"
proof -
  have "(a AND NOT b) + (a AND b) = (a AND NOT b) OR (a AND b)"
    by (rule disjunctive_add_eq_or) (auto simp: bit_eq_iff bit_simps)
  also have "\<dots> = a"
    by (rule bit_word_eqI) (auto simp: bit_simps)
  finally show ?thesis .
qed

lemma and_not_mask12: "(a :: u64) AND - 4096 = a - (a AND 4095)"
  using and_not_add_and[of a 4095] by (simp add: eq_diff_eq)

lemma unat_PGROUNDDOWN: "unat (PGROUNDDOWN a) = 4096 * (unat a div 4096)"
proof -
  have "a AND 4095 \<le> a"
    by (simp add: word_and_le2)
  then have "unat (PGROUNDDOWN a) = unat a - unat a mod 4096"
    by (simp add: PGROUNDDOWN_def and_not_mask12 unat_sub unat_and_mask12)
  then show ?thesis by (simp add: minus_mod_eq_mult_div)
qed

lemma unat_PGROUNDUP:
  assumes "unat sz + 4095 < 2 ^ 64"
  shows "unat (PGROUNDUP sz) = 4096 * ((unat sz + 4095) div 4096)"
proof -
  have "unat (sz + 4095) = unat sz + 4095"
    using assms by (subst unat_plus_if_size) (simp add: word_size)
  then show ?thesis
    using unat_PGROUNDDOWN[of "sz + 4095"] by (simp add: PGROUNDUP_def PGROUNDDOWN_def add.commute)
qed

lemma in_page_iff:
  assumes "aligned p"
  shows "unat (a - p) < 4096 \<longleftrightarrow> pfn a = pfn p"
proof -
  obtain k where k: "unat p = 4096 * k" using assms by (auto simp: aligned_iff)
  then have kb: "k < 2 ^ 52" using unat_less_u64[of p] by simp
  show ?thesis
  proof (cases "p \<le> a")
    case True
    then show ?thesis using k by (auto simp: pfn_def unat_sub_if word_le_nat_alt)
  next
    case False
    then show ?thesis using k kb unat_less_u64[of a]
      by (auto simp: pfn_def unat_sub_if word_le_nat_alt)
  qed
qed

lemma unat_cell_add:
  fixes a :: u64
  assumes "unat a mod 8 = 0" and "k < 8"
  shows "unat (a + of_nat k) = unat a + k"
proof -
  have "unat (of_nat k :: u64) = k" using assms(2) by (simp add: unat_of_nat)
  moreover have "unat a + k < 2 ^ 64"
    using unat_less_u64[of a] assms by simp presburger
  ultimately show ?thesis by (simp add: unat_plus_if_size word_size)
qed

lemma byte_low: "k < 4 \<Longrightarrow> byte k (v :: u64) = byte k (ucast v :: u32)"
  by (rule bit_word_eqI) (auto simp: byte_def bit_simps)

lemma byte_high: "k < 4 \<Longrightarrow> byte (k + 4) (v :: u64) = byte k (ucast (drop_bit 32 v) :: u32)"
  by (rule bit_word_eqI) (auto simp: byte_def bit_simps algebra_simps)

lemma le64_halves: "le64 (ucast v) (ucast (drop_bit 32 v)) = v"
  by (rule bit_word_eqI) (auto simp: le64_def bit_simps)

lemma le64_bytes:
  "le64 (le32 (byte 0 v) (byte (Suc 0) v) (byte 2 v) (byte 3 v))
        (le32 (byte 4 v) (byte 5 v) (byte 6 v) (byte 7 v)) = (v :: u64)"
  using byte_high[of 0 v] byte_high[of 1 v] byte_high[of 2 v] byte_high[of 3 v]
  by (simp add: byte_low le64_halves)

lemma ld64_st64 [bytes_simps]: "ld64 (st64 m a v) a = v"
  using le64_bytes[of v] by (simp add: ld64_def st64_def)

lemma ld64_cong:
  assumes "\<And>k. k < 8 \<Longrightarrow> m (a + of_nat k) = m' (a + of_nat k)"
  shows "ld64 m a = ld64 m' a"
  using assms[of 0] assms[of 1] assms[of 2] assms[of 3] assms[of 4] assms[of 5] assms[of 6]
    assms[of 7]
  by (simp add: ld64_def)

lemma st64_other:
  assumes "\<And>k. k < 8 \<Longrightarrow> x \<noteq> a + of_nat k"
  shows "st64 m a v x = m x"
  using assms[of 0] assms[of 1] assms[of 2] assms[of 3] assms[of 4] assms[of 5] assms[of 6]
    assms[of 7]
  by (simp add: st64_def)

lemma cells_disjoint:
  fixes a b :: u64
  assumes "unat a mod 8 = 0" "unat b mod 8 = 0" "a \<noteq> b" "i < 8" "j < 8"
  shows "a + of_nat i \<noteq> b + of_nat j"
proof
  assume "a + of_nat i = b + of_nat j"
  then have "unat a + i = unat b + j"
    using assms unat_cell_add by metis
  then have "unat a = unat b"
    using assms by presburger
  then show False using assms(3) by (simp add: word_unat_eq_iff)
qed

lemma ld64_st64_other [bytes_simps]:
  assumes "unat a mod 8 = 0" "unat b mod 8 = 0" "a \<noteq> b"
  shows "ld64 (st64 m a v) b = ld64 m b"
proof (rule ld64_cong)
  fix k :: nat
  assume "k < 8"
  then show "st64 m a v (b + of_nat k) = m (b + of_nat k)"
    using cells_disjoint[OF assms(2,1)] assms(3) by (intro st64_other) auto
qed

lemma cell_in_page:
  fixes a :: u64
  assumes "unat a mod 8 = 0" "k < 8"
  shows "pfn (a + of_nat k) = pfn a"
proof -
  obtain q where "unat a = 8 * q" using assms(1) by auto
  then show ?thesis
    using assms(2) div_mult2_eq[of "8 * q + k" 8 512] div_mult2_eq[of "8 * q" 8 512]
    by (simp add: pfn_def unat_cell_add[OF assms])
qed

lemma ld64_page_cong:
  assumes "unat a mod 8 = 0"
    and "\<And>x. pfn x = pfn a \<Longrightarrow> m x = m' x"
  shows "ld64 m a = ld64 m' a"
  by (rule ld64_cong) (simp add: assms cell_in_page)

lemma st64_other_page:
  assumes "unat a mod 8 = 0" "pfn x \<noteq> pfn a"
  shows "st64 m a v x = m x"
  using assms by (intro st64_other) (auto simp: cell_in_page)

lemma memset_page:
  assumes "aligned p"
  shows "memset m p c 4096 x = (if pfn x = pfn p then c else m x)"
  by (simp add: memset_def memset_loop_apply in_page_iff[OF assms])

lemma aligned_same_page:
  "aligned p \<Longrightarrow> aligned q \<Longrightarrow> pfn p = pfn q \<Longrightarrow> p = q"
  by (auto simp: aligned_iff word_unat_eq_iff pfn_def)

lemma aligned_cell: "aligned p \<Longrightarrow> unat p mod 8 = 0"
  by (auto simp: aligned_iff mod_eq_0_iff_dvd intro: dvd_trans[of 8 4096])

end
