(* ===== verification/Kalloc.thy ===== *)
theory Kalloc
  imports Memory
begin

text \<open>
  The physical page allocator, \<^verbatim>\<open>kernel/kalloc.c\<close>. The free list is threaded through the free
  pages themselves: the first eight bytes of a free page hold the address of the next one.
  The linker symbol \<^verbatim>\<open>end\<close> is a constant of the state. The invariant says that following the
  links from \<^verbatim>\<open>kmem.freelist\<close> visits a list of distinct allocatable pages and stops.
\<close>

section \<open>State and operations\<close>

abbreviation (input) KERNBASE :: u64 where "KERNBASE \<equiv> 0x80000000"

definition PHYSTOP :: u64 where
  "PHYSTOP = KERNBASE + 128 * 1024 * 1024"

record kmem =
  phys :: mem
  freelist :: u64
  kend :: u64

definition kfree :: "u64 \<Rightarrow> kmem \<Rightarrow> (unit, kmem) res" where
  "kfree pa s =
     (if pa AND 4095 \<noteq> 0 \<or> pa < kend s \<or> pa \<ge> PHYSTOP then Panic ''kfree''
      else
        let m = memset (phys s) pa 1 PGSIZE;
            m = st64 m pa (freelist s)
        in Ret () (s\<lparr>phys := m, freelist := pa\<rparr>))"

definition kalloc :: "kmem \<Rightarrow> (u64, kmem) res" where
  "kalloc s =
     (let r = freelist s;
          s = (if r \<noteq> 0 then s\<lparr>freelist := ld64 (phys s) r\<rparr> else s);
          s = (if r \<noteq> 0 then s\<lparr>phys := memset (phys s) r 5 PGSIZE\<rparr> else s)
      in Ret r s)"

lemma kfree_Ret_bound: "kfree p s = Ret u s' \<Longrightarrow> unat p < unat PHYSTOP"
  by (auto simp: kfree_def word_le_nat_alt not_le split: if_splits)

lemma unat_PHYSTOP: "unat PHYSTOP = 0x88000000"
  by (simp add: PHYSTOP_def)

lemma unat_next_page: "unat (p :: u64) < unat PHYSTOP \<Longrightarrow> unat (p + 4096) = unat p + 4096"
  by (subst unat_plus_if_size) (simp add: unat_PHYSTOP word_size)

function freerange_loop :: "u64 \<Rightarrow> u64 \<Rightarrow> kmem \<Rightarrow> (unit, kmem) res" where
  "freerange_loop p pa_end s =
     (if p + 4096 \<le> pa_end
      then bnd (kfree p s) (\<lambda>_ s. freerange_loop (p + 4096) pa_end s)
      else Ret () s)"
  by pat_completeness auto
termination
  by (relation "measure (\<lambda>(p, e, s). unat PHYSTOP + 4096 - unat p)")
     (auto dest!: kfree_Ret_bound simp: unat_next_page)

declare freerange_loop.simps [simp del]

definition freerange :: "u64 \<Rightarrow> u64 \<Rightarrow> kmem \<Rightarrow> (unit, kmem) res" where
  "freerange pa_start pa_end s = freerange_loop (PGROUNDUP pa_start) pa_end s"

definition kinit :: "kmem \<Rightarrow> (unit, kmem) res" where
  "kinit s = freerange (kend s) PHYSTOP s"

section \<open>The invariant of the free list\<close>

definition page_ok :: "u64 \<Rightarrow> u64 \<Rightarrow> bool" where
  "page_ok e p \<longleftrightarrow> aligned p \<and> e \<le> p \<and> p < PHYSTOP"

primrec chain :: "mem \<Rightarrow> u64 \<Rightarrow> u64 list \<Rightarrow> bool" where
  "chain m p [] = (p = 0)"
| "chain m p (x # xs) = (p = x \<and> p \<noteq> 0 \<and> chain m (ld64 m p) xs)"

definition kmem_inv :: "kmem \<Rightarrow> u64 list \<Rightarrow> bool" where
  "kmem_inv s fl \<longleftrightarrow>
     chain (phys s) (freelist s) fl \<and> distinct fl \<and> (\<forall>p \<in> set fl. page_ok (kend s) p) \<and> 0 < kend s"

text \<open>Two memories agree outside the page at \<open>p\<close>.\<close>

definition same_but :: "u64 \<Rightarrow> mem \<Rightarrow> mem \<Rightarrow> bool" where
  "same_but p m m' \<longleftrightarrow> (\<forall>x. pfn x \<noteq> pfn p \<longrightarrow> m' x = m x)"

lemma chain_cong:
  assumes "\<forall>p \<in> set fl. aligned p \<and> (\<forall>x. pfn x = pfn p \<longrightarrow> m' x = m x)"
  shows "chain m' a fl = chain m a fl"
  using assms
proof (induction fl arbitrary: a)
  case (Cons p fl)
  have "ld64 m' p = ld64 m p"
  proof (rule ld64_page_cong)
    show "unat p mod 8 = 0" using Cons.prems by (simp add: aligned_cell)
    show "m' x = m x" if "pfn x = pfn p" for x using Cons.prems that by simp
  qed
  moreover have "\<And>b. chain m' b fl = chain m b fl"
    using Cons.IH Cons.prems by simp
  ultimately show ?case by (cases "a = p") simp_all
qed simp

lemma chain_same_but:
  assumes "\<And>q. q \<in> set fl \<Longrightarrow> aligned q" "aligned p" "p \<notin> set fl" "same_but p m m'"
  shows "chain m' a fl = chain m a fl"
proof (rule chain_cong, intro ballI conjI allI impI)
  fix q x :: u64
  assume q: "q \<in> set fl"
  then show "aligned q" by (rule assms(1))
  assume x: "pfn x = pfn q"
  have "q \<noteq> p" using q assms(3) by auto
  then have "pfn q \<noteq> pfn p"
    using aligned_same_page assms(1,2) q by blast
  with x assms(4) show "m' x = m x" by (simp add: same_but_def)
qed

lemma page_okD: "page_ok e p \<Longrightarrow> aligned p"
  by (simp add: page_ok_def)

lemma kfree_page_ok: "page_ok (kend s) p \<longleftrightarrow> \<not> (p AND 4095 \<noteq> 0 \<or> p < kend s \<or> p \<ge> PHYSTOP)"
  by (auto simp: page_ok_def aligned_def)

lemma same_but_trans: "same_but p m m' \<Longrightarrow> same_but p m' m'' \<Longrightarrow> same_but p m m''"
  by (simp add: same_but_def)

lemma same_but_memset: "aligned p \<Longrightarrow> same_but p m (memset m p c 4096)"
  by (simp add: same_but_def memset_page)

lemma same_but_st64:
  "unat a mod 8 = 0 \<Longrightarrow> pfn a = pfn p \<Longrightarrow> same_but p m (st64 m a v)"
  by (simp add: same_but_def st64_other_page)

lemma kfree_ok:
  assumes "kmem_inv s fl" "page_ok (kend s) p" "p \<notin> set fl"
  shows "runs (kfree p s) (\<lambda>_ s'. kmem_inv s' (p # fl) \<and> same_but p (phys s) (phys s') \<and>
           kend s' = kend s)"
proof -
  let ?m = "st64 (memset (phys s) p 1 PGSIZE) p (freelist s)"
  have al: "aligned p" using assms(2) by (rule page_okD)
  have sb: "same_but p (phys s) ?m"
    by (rule same_but_trans[OF same_but_memset[OF al] same_but_st64]) (simp_all add: al aligned_cell)
  have ch: "chain ?m (freelist s) fl"
    using chain_same_but[OF _ al assms(3) sb] assms(1) by (auto simp: kmem_inv_def dest: page_okD)
  have "p \<noteq> 0"
    using assms(1,2) by (auto simp: kmem_inv_def page_ok_def)
  then show ?thesis
    using assms sb ch by (simp add: kfree_def kfree_page_ok kmem_inv_def ld64_st64 Let_def)
qed

lemma kalloc_empty: "kmem_inv s [] \<Longrightarrow> kalloc s = Ret 0 s"
  by (simp add: kalloc_def kmem_inv_def)

lemma kalloc_ok:
  assumes "kmem_inv s (p # fl)"
  shows "runs (kalloc s) (\<lambda>r s'. r = p \<and> kmem_inv s' fl \<and> same_but p (phys s) (phys s') \<and>
           (\<forall>x. pfn x = pfn p \<longrightarrow> phys s' x = 5) \<and> kend s' = kend s)"
proof -
  have al: "aligned p" and fr: "freelist s = p" "p \<noteq> 0" "p \<notin> set fl"
    using assms by (auto simp: kmem_inv_def page_ok_def)
  have sb: "same_but p (phys s) (memset (phys s) p 5 PGSIZE)"
    by (rule same_but_memset[OF al])
  have "chain (memset (phys s) p 5 PGSIZE) (ld64 (phys s) p) fl"
    using chain_same_but[OF _ al fr(3) sb] assms by (auto simp: kmem_inv_def dest: page_okD)
  then show ?thesis
    using assms sb fr by (simp add: kalloc_def kmem_inv_def memset_page[OF al])
qed

lemma kmem_inv_page_ok: "kmem_inv s fl \<Longrightarrow> p \<in> set fl \<Longrightarrow> page_ok (kend s) p"
  by (simp add: kmem_inv_def)

lemma kmem_inv_distinct: "kmem_inv s fl \<Longrightarrow> distinct fl"
  by (simp add: kmem_inv_def)

section \<open>The interface of the allocator\<close>

text \<open>
  What a client of the allocator relies on: the free list shrinks from the front and grows at
  the front, only the page concerned changes, and what counts as an allocatable page does not
  change.
\<close>

locale page_allocator =
  fixes alloc :: "'s \<Rightarrow> (u64, 's) res"
    and dealloc :: "u64 \<Rightarrow> 's \<Rightarrow> (unit, 's) res"
    and inv :: "'s \<Rightarrow> u64 list \<Rightarrow> bool"
    and content :: "'s \<Rightarrow> mem"
    and ok :: "'s \<Rightarrow> u64 \<Rightarrow> bool"
  assumes alloc_empty: "inv s [] \<Longrightarrow> alloc s = Ret 0 s"
    and alloc_cons: "inv s (p # fl) \<Longrightarrow>
      runs (alloc s) (\<lambda>r s'. r = p \<and> inv s' fl \<and> same_but p (content s) (content s') \<and> ok s' = ok s)"
    and dealloc_ok: "inv s fl \<Longrightarrow> ok s p \<Longrightarrow> p \<notin> set fl \<Longrightarrow>
      runs (dealloc p s) (\<lambda>_ s'. inv s' (p # fl) \<and> same_but p (content s) (content s') \<and> ok s' = ok s)"
    and inv_ok: "inv s fl \<Longrightarrow> p \<in> set fl \<Longrightarrow> ok s p"
    and inv_distinct: "inv s fl \<Longrightarrow> distinct fl"
begin

lemma alloc_dealloc:
  assumes "inv s (p # fl)"
  shows "runs (bnd (alloc s) (\<lambda>r s. dealloc r s))
           (\<lambda>_ s'. inv s' (p # fl) \<and> same_but p (content s) (content s'))"
proof -
  obtain s1 where s1: "alloc s = Ret p s1" "inv s1 fl" "same_but p (content s) (content s1)"
      "ok s1 = ok s"
    using alloc_cons[OF assms] by (auto elim!: runsE)
  have "ok s1 p" and "p \<notin> set fl"
    using s1(4) inv_ok[OF assms] inv_distinct[OF assms] by auto
  then have "runs (dealloc p s1)
      (\<lambda>_ s'. inv s' (p # fl) \<and> same_but p (content s1) (content s') \<and> ok s' = ok s1)"
    by (rule dealloc_ok[OF s1(2)])
  then show ?thesis
    using s1 by (auto simp: res_simps elim!: runs_mono intro: same_but_trans)
qed

lemma dealloc_alloc:
  assumes "inv s fl" "ok s p" "p \<notin> set fl"
  shows "runs (bnd (dealloc p s) (\<lambda>_ s. alloc s))
           (\<lambda>r s'. r = p \<and> inv s' fl \<and> same_but p (content s) (content s'))"
proof -
  obtain s1 where s1: "dealloc p s = Ret () s1" "inv s1 (p # fl)"
      "same_but p (content s) (content s1)"
    using dealloc_ok[OF assms] by (auto elim!: runsE)
  show ?thesis
    using alloc_cons[OF s1(2)] s1 by (auto elim!: runs_mono intro: same_but_trans)
qed

end

interpretation pa: page_allocator kalloc kfree kmem_inv phys "\<lambda>s. page_ok (kend s)"
proof (unfold_locales, goal_cases)
  case (2 s p fl)
  then show ?case by (rule runs_mono[OF kalloc_ok]) auto
next
  case (3 s fl p)
  then show ?case by (auto intro: runs_mono[OF kfree_ok])
qed (auto simp: kalloc_empty kmem_inv_page_ok kmem_inv_distinct)

section \<open>Building the free list\<close>

lemma freerange_loop_ok:
  assumes "kmem_inv s fl" "aligned p" "kend s \<le> p" "pa_end \<le> PHYSTOP"
    and "\<forall>q \<in> set fl. unat q < unat p" and "p \<le> PHYSTOP"
  shows "runs (freerange_loop p pa_end s)
    (\<lambda>_ s'. kend s' = kend s \<and> (\<exists>fl'. kmem_inv s' fl' \<and>
       set fl' = set fl \<union> {q. aligned q \<and> unat p \<le> unat q \<and> unat q + 4096 \<le> unat pa_end}))"
  using assms
proof (induction p pa_end s arbitrary: fl rule: freerange_loop.induct)
  case (1 p pa_end s)
  have n: "unat (p + 4096) = unat p + 4096"
    using "1.prems"(6) by (subst unat_plus_if_size) (simp add: word_le_nat_alt unat_PHYSTOP word_size)
  have e: "unat pa_end \<le> unat PHYSTOP" using "1.prems" by (simp add: word_le_nat_alt)
  show ?case
  proof (cases "unat p + 4096 \<le> unat pa_end")
    case True
    then have lt: "unat p < unat PHYSTOP" using e by simp
    have ok: "page_ok (kend s) p"
      using "1.prems" lt by (simp add: page_ok_def word_less_nat_alt)
    have "p \<notin> set fl" using "1.prems"(5) by auto
    then obtain s1 where s1: "kfree p s = Ret () s1" "kmem_inv s1 (p # fl)" "kend s1 = kend s"
      using kfree_ok[OF "1.prems"(1) ok] by (auto elim!: runsE)
    have guard: "p + 4096 \<le> pa_end" using True n by (simp add: word_le_nat_alt)
    have "aligned (p + 4096)" using "1.prems"(2) n by (simp add: aligned_iff)
    moreover have "kend s1 \<le> p + 4096" using "1.prems"(3) s1(3) n by (simp add: word_le_nat_alt)
    moreover have "\<forall>q \<in> set (p # fl). unat q < unat (p + 4096)" using "1.prems"(5) n by auto
    moreover have "p + 4096 \<le> PHYSTOP" using True e n by (simp add: word_le_nat_alt)
    ultimately have "runs (freerange_loop (p + 4096) pa_end s1)
      (\<lambda>_ s'. kend s' = kend s1 \<and> (\<exists>fl'. kmem_inv s' fl' \<and> set fl' = set (p # fl) \<union>
         {q. aligned q \<and> unat (p + 4096) \<le> unat q \<and> unat q + 4096 \<le> unat pa_end}))"
      using "1.IH"[OF guard s1(1) s1(2)] "1.prems"(4) by blast
    moreover have "set (p # fl) \<union> {q. aligned q \<and> unat (p + 4096) \<le> unat q \<and> unat q + 4096 \<le> unat pa_end}
        = set fl \<union> {q. aligned q \<and> unat p \<le> unat q \<and> unat q + 4096 \<le> unat pa_end}"
    proof -
      have "unat p \<le> unat q \<longleftrightarrow> q = p \<or> unat p + 4096 \<le> unat q" if "aligned q" for q
        using that "1.prems"(2) by (auto simp: aligned_iff word_unat_eq_iff elim!: dvdE)
      then show ?thesis using "1.prems"(2) True n by auto
    qed
    ultimately show ?thesis
      using s1(1,3) guard by (simp add: freerange_loop.simps[of p])
  next
    case False
    then have "{q. aligned q \<and> unat p \<le> unat q \<and> unat q + 4096 \<le> unat pa_end} = {}" by auto
    then show ?thesis
      using False n "1.prems"(1) by (auto simp: freerange_loop.simps[of p] word_le_nat_alt)
  qed
qed

section \<open>Properties\<close>

text \<open>
  (C12) Boot: run on an empty free list, \<^verbatim>\<open>kinit\<close> does not panic and leaves a well-formed free
  list that holds every page-aligned page from \<^verbatim>\<open>end\<close> up to \<^verbatim>\<open>PHYSTOP\<close>, each once.
\<close>

theorem kinit_frees_all_pages:
  assumes "freelist s = 0" "0 < kend s" "kend s \<le> PHYSTOP"
  shows "runs (kinit s) (\<lambda>_ s'. \<exists>fl. kmem_inv s' fl \<and> set fl = {p. page_ok (kend s) p})"
proof -
  let ?p = "PGROUNDUP (kend s)"
  have ke: "unat (kend s) \<le> unat PHYSTOP" using assms(3) by (simp add: word_le_nat_alt)
  then have up: "unat ?p = 4096 * ((unat (kend s) + 4095) div 4096)"
    by (intro unat_PGROUNDUP) (simp add: unat_PHYSTOP)
  have "(unat (kend s) + 4095) div 4096 \<le> 0x88000"
    using ke by (simp add: unat_PHYSTOP)
  then have le: "?p \<le> PHYSTOP" using up by (simp add: word_le_nat_alt unat_PHYSTOP)
  have ge: "kend s \<le> ?p" using up by (simp add: word_le_nat_alt)
  have al: "aligned ?p" using up by (simp add: aligned_iff)
  have inv: "kmem_inv s []" using assms by (simp add: kmem_inv_def)
  have "{q. aligned q \<and> unat ?p \<le> unat q \<and> unat q + 4096 \<le> unat PHYSTOP} = {p. page_ok (kend s) p}"
    using up by (auto simp: page_ok_def aligned_iff word_le_nat_alt word_less_nat_alt unat_PHYSTOP
        elim!: dvdE)
  then show ?thesis
    using freerange_loop_ok[OF inv al ge order_refl _ le]
    by (auto simp: kinit_def freerange_def elim!: runs_mono)
qed

definition last_page_kmem :: kmem where
  "last_page_kmem = \<lparr>phys = (\<lambda>_. 0), freelist = 0, kend = 0x87FFF000\<rparr>"

theorem kinit_frees_all_pages_witness:
  "freelist last_page_kmem = 0 \<and> 0 < kend last_page_kmem \<and> kend last_page_kmem \<le> PHYSTOP \<and>
   runs (kinit last_page_kmem)
     (\<lambda>_ s'. \<exists>fl. kmem_inv s' fl \<and> set fl = {p. page_ok (kend last_page_kmem) p})"
  using kinit_frees_all_pages[of last_page_kmem]
  by (simp add: last_page_kmem_def PHYSTOP_def)

text \<open>
  (C13) Freeing a page and allocating again returns that page, restores the free list and
  changes no byte outside the page.
\<close>

theorem kfree_kalloc_roundtrip:
  assumes "kmem_inv s fl" "page_ok (kend s) p" "p \<notin> set fl"
  shows "runs (bnd (kfree p s) (\<lambda>_ s. kalloc s))
           (\<lambda>r s'. r = p \<and> kmem_inv s' fl \<and> same_but p (phys s) (phys s'))"
  using assms by (rule pa.dealloc_alloc)

theorem kfree_kalloc_roundtrip_witness:
  "kmem_inv last_page_kmem [] \<and> page_ok (kend last_page_kmem) 0x87FFF000 \<and>
   runs (bnd (kfree 0x87FFF000 last_page_kmem) (\<lambda>_ s. kalloc s))
     (\<lambda>r s'. r = 0x87FFF000 \<and> kmem_inv s' [] \<and>
        same_but 0x87FFF000 (phys last_page_kmem) (phys s'))"
proof -
  have "kmem_inv last_page_kmem []" "page_ok (kend last_page_kmem) 0x87FFF000"
    by (simp_all add: kmem_inv_def last_page_kmem_def page_ok_def aligned_def PHYSTOP_def)
  then show ?thesis using kfree_kalloc_roundtrip[of last_page_kmem "[]" "0x87FFF000"] by simp
qed

end
