(* ===== verification/Vm.thy ===== *)
theory Vm
  imports Kalloc
begin

text \<open>
  Sv39 page tables, \<^verbatim>\<open>kernel/vm.c\<close>, over the physical memory. A page table is a tree of
  table pages that lives in memory allocated by \<^verbatim>\<open>kalloc\<close>; \<open>walk\<close> reads and extends it. The
  abstract view of a table is the function that gives each virtual address the entry its walk
  reaches (0 when the walk stops early); the properties state what each routine does to that
  function and to the bytes of memory.
\<close>

section \<open>Entries and addresses (\<^verbatim>\<open>kernel/riscv.h\<close>)\<close>

abbreviation (input) PTE_V :: u64 where "PTE_V \<equiv> 1"
abbreviation (input) PTE_R :: u64 where "PTE_R \<equiv> 2"
abbreviation (input) PTE_W :: u64 where "PTE_W \<equiv> 4"
abbreviation (input) PTE_X :: u64 where "PTE_X \<equiv> 8"
abbreviation (input) PTE_U :: u64 where "PTE_U \<equiv> 16"
abbreviation (input) PTE_D :: u64 where "PTE_D \<equiv> 128"

definition PA2PTE :: "u64 \<Rightarrow> u64" where
  "PA2PTE pa = push_bit 10 (drop_bit 12 pa)"

definition PTE2PA :: "u64 \<Rightarrow> u64" where
  "PTE2PA pte = push_bit 12 (drop_bit 10 pte)"

definition PTE_FLAGS :: "u64 \<Rightarrow> u64" where
  "PTE_FLAGS pte = pte AND 0x3FF"

definition PX :: "nat \<Rightarrow> u64 \<Rightarrow> u64" where
  "PX level va = drop_bit (12 + 9 * level) va AND 0x1FF"

definition MAXVA :: u64 where
  "MAXVA = push_bit (9 + 9 + 9 + 12 - 1) 1"

definition TRAMPOLINE :: u64 where
  "TRAMPOLINE = MAXVA - 4096"

definition TRAPFRAME :: u64 where
  "TRAPFRAME = TRAMPOLINE - 4096"

section \<open>Walking and mapping\<close>

text \<open>
  \<^verbatim>\<open>walk\<close> returns the address of the entry (0 for the null pointer). The loop counts the
  levels down; \<open>pte\<close> is the entry of the current level.
\<close>

primrec walk_loop :: "nat \<Rightarrow> u64 \<Rightarrow> u64 \<Rightarrow> bool \<Rightarrow> kmem \<Rightarrow> (u64, kmem) res" where
  "walk_loop 0 pagetable va alloc s = Ret (pagetable + 8 * PX 0 va) s"
| "walk_loop (Suc l) pagetable va alloc s =
     (let pte = pagetable + 8 * PX (Suc l) va; e = ld64 (phys s) pte in
      if e AND PTE_V \<noteq> 0 then walk_loop l (PTE2PA e) va alloc s
      else if \<not> alloc then Ret 0 s
      else bnd (kalloc s) (\<lambda>r s.
        if r = 0 then Ret 0 s
        else walk_loop l r va alloc
               (s\<lparr>phys := st64 (memset (phys s) r 0 PGSIZE) pte (PA2PTE r OR PTE_V)\<rparr>)))"

definition walk :: "u64 \<Rightarrow> u64 \<Rightarrow> bool \<Rightarrow> kmem \<Rightarrow> (u64, kmem) res" where
  "walk pagetable va alloc s =
     (if va \<ge> MAXVA then Panic ''walk'' else walk_loop 2 pagetable va alloc s)"

definition walkaddr :: "u64 \<Rightarrow> u64 \<Rightarrow> kmem \<Rightarrow> (u64, kmem) res" where
  "walkaddr pagetable va s =
     (if va \<ge> MAXVA then Ret 0 s
      else bnd (walk pagetable va False s) (\<lambda>pte s.
        if pte = 0 then Ret 0 s
        else let e = ld64 (phys s) pte in
          if e AND PTE_V = 0 then Ret 0 s
          else if e AND PTE_U = 0 then Ret 0 s
          else Ret (PTE2PA e) s))"

lemma walk_Ret_bound: "walk pt va al s = Ret r s' \<Longrightarrow> unat va < unat MAXVA"
  by (simp add: walk_def word_le_nat_alt split: if_splits)

lemma unat_MAXVA: "unat MAXVA = 0x4000000000"
  by (simp add: MAXVA_def push_bit_eq_mult)

lemma unat_next_va: "unat (a :: u64) < unat MAXVA \<Longrightarrow> unat (a + 4096) = unat a + 4096"
  by (subst unat_plus_if_size) (simp add: unat_MAXVA word_size)

function mappages_loop :: "u64 \<Rightarrow> u64 \<Rightarrow> u64 \<Rightarrow> u64 \<Rightarrow> u64 \<Rightarrow> kmem \<Rightarrow> (int, kmem) res" where
  "mappages_loop pagetable a lst pa perm s =
     bnd (walk pagetable a True s) (\<lambda>pte s.
       if pte = 0 then Ret (-1) s
       else if ld64 (phys s) pte AND PTE_V \<noteq> 0 then Panic ''mappages: remap''
       else
         let s = s\<lparr>phys := st64 (phys s) pte (PA2PTE pa OR perm OR PTE_V)\<rparr> in
         if a = lst then Ret 0 s
         else mappages_loop pagetable (a + 4096) lst (pa + 4096) perm s)"
  by pat_completeness auto
termination
  by (relation "measure (\<lambda>(pt, a, lst, pa, perm, s). unat MAXVA + 4096 - unat a)")
     (auto dest!: walk_Ret_bound simp: unat_next_va)

declare mappages_loop.simps [simp del]

definition mappages :: "u64 \<Rightarrow> u64 \<Rightarrow> u64 \<Rightarrow> u64 \<Rightarrow> u64 \<Rightarrow> kmem \<Rightarrow> (int, kmem) res" where
  "mappages pagetable va sz pa perm s =
     (if va AND 4095 \<noteq> 0 then Panic ''mappages: va not aligned''
      else if sz AND 4095 \<noteq> 0 then Panic ''mappages: size not aligned''
      else if sz = 0 then Panic ''mappages: size''
      else mappages_loop pagetable va (va + sz - 4096) pa perm s)"

definition kvmmap :: "u64 \<Rightarrow> u64 \<Rightarrow> u64 \<Rightarrow> u64 \<Rightarrow> u64 \<Rightarrow> kmem \<Rightarrow> (unit, kmem) res" where
  "kvmmap kpgtbl va pa sz perm s =
     bnd (mappages kpgtbl va sz pa perm s) (\<lambda>r s. if r \<noteq> 0 then Panic ''kvmmap'' else Ret () s)"

function uvmunmap_loop :: "u64 \<Rightarrow> u64 \<Rightarrow> u64 \<Rightarrow> bool \<Rightarrow> kmem \<Rightarrow> (unit, kmem) res" where
  "uvmunmap_loop pagetable a stop do_free s =
     (if a < stop then
        bnd (walk pagetable a False s) (\<lambda>pte s.
          if pte = 0 then Panic ''uvmunmap: walk''
          else if ld64 (phys s) pte AND PTE_V = 0 then Panic ''uvmunmap: not mapped''
          else if PTE_FLAGS (ld64 (phys s) pte) = PTE_V then Panic ''uvmunmap: not a leaf''
          else bnd (if do_free then kfree (PTE2PA (ld64 (phys s) pte)) s else Ret () s) (\<lambda>_ s.
            uvmunmap_loop pagetable (a + 4096) stop do_free (s\<lparr>phys := st64 (phys s) pte 0\<rparr>)))
      else Ret () s)"
  by pat_completeness auto
termination
  by (relation "measure (\<lambda>(pt, a, stop, df, s). unat MAXVA + 4096 - unat a)")
     (auto dest!: walk_Ret_bound simp: unat_next_va)

declare uvmunmap_loop.simps [simp del]

definition uvmunmap :: "u64 \<Rightarrow> u64 \<Rightarrow> u64 \<Rightarrow> bool \<Rightarrow> kmem \<Rightarrow> (unit, kmem) res" where
  "uvmunmap pagetable va npages do_free s =
     (if va AND 4095 \<noteq> 0 then Panic ''uvmunmap: not aligned''
      else uvmunmap_loop pagetable va (va + npages * 4096) do_free s)"

section \<open>User memory\<close>

definition uvmcreate :: "kmem \<Rightarrow> (u64, kmem) res" where
  "uvmcreate s =
     bnd (kalloc s) (\<lambda>pagetable s.
       if pagetable = 0 then Ret 0 s
       else Ret pagetable (s\<lparr>phys := memset (phys s) pagetable 0 PGSIZE\<rparr>))"

text \<open>A copy from a kernel object outside the allocated pages: \<open>n\<close> bytes of \<open>src\<close> to \<open>d\<close>.\<close>

primrec put_bytes :: "nat \<Rightarrow> mem \<Rightarrow> u64 \<Rightarrow> (nat \<Rightarrow> u8) \<Rightarrow> mem" where
  "put_bytes 0 m d src = m"
| "put_bytes (Suc n) m d src = put_bytes n (m(d := src 0)) (d + 1) (\<lambda>i. src (Suc i))"

definition uvmfirst :: "u64 \<Rightarrow> (nat \<Rightarrow> u8) \<Rightarrow> u32 \<Rightarrow> kmem \<Rightarrow> (unit, kmem) res" where
  "uvmfirst pagetable src sz s =
     (if sz \<ge> 4096 then Panic ''uvmfirst: more than a page''
      else bnd (kalloc s) (\<lambda>mem s.
        let s = s\<lparr>phys := memset (phys s) mem 0 PGSIZE\<rparr> in
        bnd (mappages pagetable 0 4096 mem (PTE_W OR PTE_R OR PTE_X OR PTE_U) s) (\<lambda>_ s.
          Ret () (s\<lparr>phys := put_bytes (unat sz) (phys s) mem src\<rparr>))))"

definition uvmdealloc :: "u64 \<Rightarrow> u64 \<Rightarrow> u64 \<Rightarrow> kmem \<Rightarrow> (u64, kmem) res" where
  "uvmdealloc pagetable oldsz newsz s =
     (if newsz \<ge> oldsz then Ret oldsz s
      else if PGROUNDUP newsz < PGROUNDUP oldsz then
        let npages = (ucast ((PGROUNDUP oldsz - PGROUNDUP newsz) div 4096) :: u32) in
        bnd (uvmunmap pagetable (PGROUNDUP newsz) (scast npages) True s) (\<lambda>_ s. Ret newsz s)
      else Ret newsz s)"

lemma mappages_Ret_bound: "mappages pt a 4096 pa perm s = Ret r s' \<Longrightarrow> unat a < unat MAXVA"
  by (auto simp: mappages_def mappages_loop.simps[of pt a] res_simps dest: walk_Ret_bound
      split: if_splits)

function uvmalloc_loop :: "u64 \<Rightarrow> u64 \<Rightarrow> u64 \<Rightarrow> u64 \<Rightarrow> u64 \<Rightarrow> kmem \<Rightarrow> (u64, kmem) res" where
  "uvmalloc_loop pagetable a oldsz newsz xperm s =
     (if a < newsz then
        bnd (kalloc s) (\<lambda>mem s.
          if mem = 0 then bnd (uvmdealloc pagetable a oldsz s) (\<lambda>_ s. Ret 0 s)
          else
            let s = s\<lparr>phys := memset (phys s) mem 0 PGSIZE\<rparr> in
            bnd (mappages pagetable a 4096 mem (PTE_R OR PTE_U OR xperm) s) (\<lambda>r s.
              if r \<noteq> 0 then
                bnd (kfree mem s) (\<lambda>_ s. bnd (uvmdealloc pagetable a oldsz s) (\<lambda>_ s. Ret 0 s))
              else uvmalloc_loop pagetable (a + 4096) oldsz newsz xperm s))
      else Ret newsz s)"
  by pat_completeness auto
termination
  by (relation "measure (\<lambda>(pt, a, oldsz, newsz, xp, s). unat MAXVA + 4096 - unat a)")
     (auto dest!: mappages_Ret_bound simp: unat_next_va)

declare uvmalloc_loop.simps [simp del]

definition uvmalloc :: "u64 \<Rightarrow> u64 \<Rightarrow> u64 \<Rightarrow> u64 \<Rightarrow> kmem \<Rightarrow> (u64, kmem) res" where
  "uvmalloc pagetable oldsz newsz xperm s =
     (if newsz < oldsz then Ret oldsz s
      else let oldsz = PGROUNDUP oldsz in
        uvmalloc_loop pagetable oldsz oldsz newsz xperm s)"

text \<open>
  \<^verbatim>\<open>freewalk\<close> recurses through memory. The fuel bounds the depth of that recursion; a table
  built by \<^verbatim>\<open>walk\<close> has three levels.
\<close>

primrec freewalk_loop ::
    "(u64 \<Rightarrow> kmem \<Rightarrow> (unit, kmem) res) \<Rightarrow> u64 \<Rightarrow> nat list \<Rightarrow> kmem \<Rightarrow> (unit, kmem) res" where
  "freewalk_loop rec pagetable [] s = Ret () s"
| "freewalk_loop rec pagetable (i # is) s =
     (let a = pagetable + 8 * of_nat i; pte = ld64 (phys s) a in
      if pte AND PTE_V \<noteq> 0 \<and> pte AND (PTE_R OR PTE_W OR PTE_X) = 0 then
        bnd (rec (PTE2PA pte) s) (\<lambda>_ s.
          freewalk_loop rec pagetable is (s\<lparr>phys := st64 (phys s) a 0\<rparr>))
      else if pte AND PTE_V \<noteq> 0 then Panic ''freewalk: leaf''
      else freewalk_loop rec pagetable is s)"

primrec freewalk :: "nat \<Rightarrow> u64 \<Rightarrow> kmem \<Rightarrow> (unit, kmem) res" where
  "freewalk 0 pagetable s = Diverge"
| "freewalk (Suc d) pagetable s =
     bnd (freewalk_loop (freewalk d) pagetable [0..<512] s) (\<lambda>_ s. kfree pagetable s)"

definition uvmfree :: "u64 \<Rightarrow> u64 \<Rightarrow> kmem \<Rightarrow> (unit, kmem) res" where
  "uvmfree pagetable sz s =
     bnd (if sz > 0 then uvmunmap pagetable 0 (PGROUNDUP sz div 4096) True s else Ret () s) (\<lambda>_ s.
       freewalk 3 pagetable s)"

function uvmcopy_loop :: "u64 \<Rightarrow> u64 \<Rightarrow> u64 \<Rightarrow> u64 \<Rightarrow> kmem \<Rightarrow> (int, kmem) res" where
  "uvmcopy_loop old new i sz s =
     (if i < sz then
        bnd (walk old i False s) (\<lambda>pte s.
          if pte = 0 then Panic ''uvmcopy: pte should exist''
          else let e = ld64 (phys s) pte in
            if e AND PTE_V = 0 then Panic ''uvmcopy: page not present''
            else
              let pa = PTE2PA e; flags = PTE_FLAGS e in
              bnd (kalloc s) (\<lambda>mem s.
                if mem = 0 then
                  bnd (uvmunmap new 0 (i div 4096) True s) (\<lambda>_ s. Ret (-1) s)
                else
                  let s = s\<lparr>phys := memmove (phys s) mem pa 4096\<rparr> in
                  bnd (mappages new i 4096 mem flags s) (\<lambda>r s.
                    if r \<noteq> 0 then
                      bnd (kfree mem s) (\<lambda>_ s.
                        bnd (uvmunmap new 0 (i div 4096) True s) (\<lambda>_ s. Ret (-1) s))
                    else uvmcopy_loop old new (i + 4096) sz s)))
      else Ret 0 s)"
  by pat_completeness auto
termination
  by (relation "measure (\<lambda>(old, new, i, sz, s). unat MAXVA + 4096 - unat i)")
     (auto dest!: walk_Ret_bound simp: unat_next_va)

declare uvmcopy_loop.simps [simp del]

definition uvmcopy :: "u64 \<Rightarrow> u64 \<Rightarrow> u64 \<Rightarrow> kmem \<Rightarrow> (int, kmem) res" where
  "uvmcopy old new sz s = uvmcopy_loop old new 0 sz s"

definition uvmclear :: "u64 \<Rightarrow> u64 \<Rightarrow> kmem \<Rightarrow> (unit, kmem) res" where
  "uvmclear pagetable va s =
     bnd (walk pagetable va False s) (\<lambda>pte s.
       if pte = 0 then Panic ''uvmclear''
       else Ret () (s\<lparr>phys := st64 (phys s) pte (ld64 (phys s) pte AND NOT PTE_U)\<rparr>))"

section \<open>Copies between kernel and user space\<close>

text \<open>
  The kernel side of a copy is a kernel object: \<open>src\<close> is the view of its bytes, \<open>dst\<close> the array
  that is filled from index \<open>di\<close> on.
\<close>

primrec get_bytes :: "nat \<Rightarrow> mem \<Rightarrow> u64 \<Rightarrow> (nat \<Rightarrow> u8) \<Rightarrow> nat \<Rightarrow> (nat \<Rightarrow> u8)" where
  "get_bytes 0 m a dst di = dst"
| "get_bytes (Suc n) m a dst di = get_bytes n m (a + 1) (dst(di := m a)) (Suc di)"

text \<open>The number of bytes up to the end of the page that holds \<open>va\<close>, at most \<open>len\<close>.\<close>

definition page_left :: "u64 \<Rightarrow> u64 \<Rightarrow> u64" where
  "page_left va len =
     (let n = 4096 - (va - PGROUNDDOWN va) in if n > len then len else n)"

lemma unat_page_offset: "unat (a - PGROUNDDOWN a) = unat a mod 4096"
proof -
  have "a - PGROUNDDOWN a = a AND 4095"
    by (simp add: PGROUNDDOWN_def and_not_mask12)
  then show ?thesis by (simp add: unat_and_mask12)
qed

lemma unat_page_left: "unat (page_left va len) = min (unat len) (4096 - unat va mod 4096)"
proof -
  have "unat (4096 - (va - PGROUNDDOWN va)) = 4096 - unat va mod 4096"
    by (subst unat_sub) (simp_all add: unat_page_offset word_le_nat_alt)
  then show ?thesis by (auto simp: page_left_def Let_def word_less_nat_alt min_def)
qed

lemma page_left_decreases: "len > 0 \<Longrightarrow> unat (len - page_left va len) < unat len"
proof -
  assume "len > 0"
  then have "0 < unat len" by (simp add: word_less_nat_alt)
  moreover have "unat (len - page_left va len) = unat len - unat (page_left va len)"
    by (rule unat_sub) (simp add: word_le_nat_alt unat_page_left)
  moreover have "0 < 4096 - unat va mod 4096" by simp
  ultimately show ?thesis unfolding unat_page_left by linarith
qed

function copyout :: "u64 \<Rightarrow> u64 \<Rightarrow> (nat \<Rightarrow> u8) \<Rightarrow> u64 \<Rightarrow> kmem \<Rightarrow> (int, kmem) res" where
  "copyout pagetable dstva src len s =
     (if len > 0 then
        let va0 = PGROUNDDOWN dstva in
        if va0 \<ge> MAXVA then Ret (-1) s
        else bnd (walk pagetable va0 False s) (\<lambda>pte s.
          let e = ld64 (phys s) pte in
          if pte = 0 \<or> e AND PTE_V = 0 \<or> e AND PTE_U = 0 \<or> e AND PTE_W = 0 then Ret (-1) s
          else
            let pa0 = PTE2PA e; n = page_left dstva len in
            copyout pagetable (va0 + 4096) (\<lambda>i. src (unat n + i)) (len - n)
              (s\<lparr>phys := put_bytes (unat n) (phys s) (pa0 + (dstva - va0)) src\<rparr>))
      else Ret 0 s)"
  by pat_completeness auto
termination
  by (relation "measure (\<lambda>(pt, va, src, len, s). unat len)") (auto simp: page_left_decreases)

declare copyout.simps [simp del]

function copyin :: "u64 \<Rightarrow> (nat \<Rightarrow> u8) \<Rightarrow> nat \<Rightarrow> u64 \<Rightarrow> u64 \<Rightarrow> kmem \<Rightarrow> (int \<times> (nat \<Rightarrow> u8), kmem) res"
where
  "copyin pagetable dst di srcva len s =
     (if len > 0 then
        let va0 = PGROUNDDOWN srcva in
        bnd (walkaddr pagetable va0 s) (\<lambda>pa0 s.
          if pa0 = 0 then Ret (-1, dst) s
          else
            let n = page_left srcva len in
            copyin pagetable (get_bytes (unat n) (phys s) (pa0 + (srcva - va0)) dst di)
              (di + unat n) (va0 + 4096) (len - n) s)
      else Ret (0, dst) s)"
  by pat_completeness auto
termination
  by (relation "measure (\<lambda>(pt, dst, di, va, len, s). unat len)") (auto simp: page_left_decreases)

declare copyin.simps [simp del]

text \<open>
  The inner loop of \<^verbatim>\<open>copyinstr\<close>: copy up to \<open>n\<close> bytes from \<open>p\<close>, stop after a zero byte
  (the first component of the result is \<^verbatim>\<open>got_null\<close>).
\<close>

primrec copyinstr_page :: "nat \<Rightarrow> mem \<Rightarrow> u64 \<Rightarrow> (nat \<Rightarrow> u8) \<Rightarrow> nat \<Rightarrow> bool \<times> (nat \<Rightarrow> u8)" where
  "copyinstr_page 0 m p dst di = (False, dst)"
| "copyinstr_page (Suc n) m p dst di =
     (if m p = 0 then (True, dst(di := 0))
      else copyinstr_page n m (p + 1) (dst(di := m p)) (Suc di))"

function copyinstr :: "u64 \<Rightarrow> (nat \<Rightarrow> u8) \<Rightarrow> nat \<Rightarrow> u64 \<Rightarrow> u64 \<Rightarrow> kmem \<Rightarrow> (int \<times> (nat \<Rightarrow> u8), kmem) res"
where
  "copyinstr pagetable dst di srcva mx s =
     (if mx > 0 then
        let va0 = PGROUNDDOWN srcva in
        bnd (walkaddr pagetable va0 s) (\<lambda>pa0 s.
          if pa0 = 0 then Ret (-1, dst) s
          else
            let n = page_left srcva mx;
                (got_null, dst) = copyinstr_page (unat n) (phys s) (pa0 + (srcva - va0)) dst di in
            if got_null then Ret (0, dst) s
            else copyinstr pagetable dst (di + unat n) (va0 + 4096) (mx - n) s)
      else Ret (-1, dst) s)"
  by pat_completeness auto
termination
  by (relation "measure (\<lambda>(pt, dst, di, va, mx, s). unat mx)") (auto simp: page_left_decreases)

declare copyinstr.simps [simp del]

section \<open>The kernel page table\<close>

abbreviation (input) NPROC :: nat where "NPROC \<equiv> 64"

definition KSTACK :: "nat \<Rightarrow> u64" where
  "KSTACK p = TRAMPOLINE - (of_nat p + 1) * 2 * 4096"

text \<open>One kernel stack per process-table slot, each followed by an unmapped guard page.\<close>

primrec proc_mapstacks_loop :: "nat list \<Rightarrow> u64 \<Rightarrow> kmem \<Rightarrow> (unit, kmem) res" where
  "proc_mapstacks_loop [] kpgtbl s = Ret () s"
| "proc_mapstacks_loop (p # ps) kpgtbl s =
     bnd (kalloc s) (\<lambda>pa s.
       if pa = 0 then Panic ''kalloc''
       else bnd (kvmmap kpgtbl (KSTACK p) pa 4096 (PTE_R OR PTE_W) s) (\<lambda>_ s.
         proc_mapstacks_loop ps kpgtbl s))"

definition proc_mapstacks :: "u64 \<Rightarrow> kmem \<Rightarrow> (unit, kmem) res" where
  "proc_mapstacks kpgtbl s = proc_mapstacks_loop [0..<NPROC] kpgtbl s"

abbreviation (input) UART0 :: u64 where "UART0 \<equiv> 0x10000000"
abbreviation (input) VIRTIO0 :: u64 where "VIRTIO0 \<equiv> 0x10001000"
abbreviation (input) PLIC :: u64 where "PLIC \<equiv> 0x0c000000"

text \<open>The linker symbols \<^verbatim>\<open>etext\<close> and \<^verbatim>\<open>trampoline\<close> are arguments.\<close>

definition kvmmake :: "u64 \<Rightarrow> u64 \<Rightarrow> kmem \<Rightarrow> (u64, kmem) res" where
  "kvmmake etext trampoline s =
     bnd (kalloc s) (\<lambda>kpgtbl s.
     let s = s\<lparr>phys := memset (phys s) kpgtbl 0 PGSIZE\<rparr> in
     bnd (kvmmap kpgtbl UART0 UART0 4096 (PTE_R OR PTE_W) s) (\<lambda>_ s.
     bnd (kvmmap kpgtbl VIRTIO0 VIRTIO0 4096 (PTE_R OR PTE_W) s) (\<lambda>_ s.
     bnd (kvmmap kpgtbl PLIC PLIC 0x4000000 (PTE_R OR PTE_W) s) (\<lambda>_ s.
     bnd (kvmmap kpgtbl KERNBASE KERNBASE (etext - KERNBASE) (PTE_R OR PTE_X) s) (\<lambda>_ s.
     bnd (kvmmap kpgtbl etext etext (PHYSTOP - etext) (PTE_R OR PTE_W) s) (\<lambda>_ s.
     bnd (kvmmap kpgtbl TRAMPOLINE trampoline 4096 (PTE_R OR PTE_X) s) (\<lambda>_ s.
     bnd (proc_mapstacks kpgtbl s) (\<lambda>_ s.
     Ret kpgtbl s))))))))"

end
