(* ===== verification/Fs.thy ===== *)
theory Fs
  imports Log Vm
begin

text \<open>
  The file system of \<^verbatim>\<open>kernel/fs.c\<close>: blocks, inodes, file content, directories and path names, over the log.
  Inode pointers are indices into the inode table, \<open>None\<close> the null pointer. A routine takes the identity of
  the calling process (its pid and page table). Data is copied to and from user memory, physical memory
  (a page known by its kernel address) or an object local to the caller.
\<close>

section \<open>State\<close>

abbreviation (input) NINODE :: nat where "NINODE \<equiv> 50"
abbreviation (input) NDIRECT :: nat where "NDIRECT \<equiv> 12"
abbreviation (input) NINDIRECT :: nat where "NINDIRECT \<equiv> 256"
abbreviation (input) MAXFILE :: nat where "MAXFILE \<equiv> 268"
abbreviation (input) IPB :: nat where "IPB \<equiv> 16"
abbreviation (input) BPB :: nat where "BPB \<equiv> 8192"
abbreviation (input) DIRSIZ :: nat where "DIRSIZ \<equiv> 14"
abbreviation (input) ROOTINO :: u32 where "ROOTINO \<equiv> 1"
abbreviation (input) FSMAGIC :: u32 where "FSMAGIC \<equiv> 0x10203040"
abbreviation (input) T_DIR :: u16 where "T_DIR \<equiv> 1"
abbreviation (input) T_FILE :: u16 where "T_FILE \<equiv> 2"
abbreviation (input) T_DEVICE :: u16 where "T_DEVICE \<equiv> 3"

record inode =
  i_dev :: u32
  i_inum :: u32
  i_ref :: int
  i_lock :: sleeplock
  i_valid :: bool
  i_type :: u16
  i_major :: u16
  i_minor :: u16
  i_nlink :: u16
  i_size :: u32
  i_addrs :: "nat \<Rightarrow> u32"

text \<open>\<open>msgs\<close> are the messages that the kernel prints, \<open>iwakes\<close> the wakeups of inode locks.\<close>

record fs =
  sb :: superblock
  itable :: "nat \<Rightarrow> inode"
  flog :: log
  fmem :: kmem
  msgs :: "string list"
  iwakes :: "chan list"

record who =
  wpid :: int
  wpt :: u64

definition on_log :: "(log \<Rightarrow> ('a, log) res) \<Rightarrow> fs \<Rightarrow> ('a, fs) res" where
  "on_log f s = in_part (\<lambda>l. s\<lparr>flog := l\<rparr>) (f (flog s))"

definition on_mem :: "(kmem \<Rightarrow> ('a, kmem) res) \<Rightarrow> fs \<Rightarrow> ('a, fs) res" where
  "on_mem f s = in_part (\<lambda>m. s\<lparr>fmem := m\<rparr>) (f (fmem s))"

definition fbread :: "who \<Rightarrow> u32 \<Rightarrow> u32 \<Rightarrow> fs \<Rightarrow> (nat, fs) res" where
  "fbread c dev b s = on_log (on_bc (bread (wpid c) dev b)) s"

definition fbrelse :: "who \<Rightarrow> nat \<Rightarrow> fs \<Rightarrow> (unit, fs) res" where
  "fbrelse c bp s = on_log (on_bc (brelse (wpid c) bp)) s"

definition flog_write :: "nat \<Rightarrow> fs \<Rightarrow> (unit, fs) res" where
  "flog_write bp s = on_log (log_write bp) s"

text \<open>The data of a buffer, and storing into it.\<close>

definition bp_data :: "fs \<Rightarrow> nat \<Rightarrow> block" where
  "bp_data s bp = bdata (bufs (lbc (flog s)) bp)"

definition bp_put :: "nat \<Rightarrow> block \<Rightarrow> fs \<Rightarrow> fs" where
  "bp_put bp d s = s\<lparr>flog := (flog s)\<lparr>lbc := set_data bp d (lbc (flog s))\<rparr>\<rparr>"

definition upd_inode :: "nat \<Rightarrow> (inode \<Rightarrow> inode) \<Rightarrow> fs \<Rightarrow> fs" where
  "upd_inode ip f s = s\<lparr>itable := (itable s)(ip := f (itable s ip))\<rparr>"

section \<open>Super block\<close>

definition readsb :: "who \<Rightarrow> u32 \<Rightarrow> fs \<Rightarrow> (unit, fs) res" where
  "readsb c dev s =
     bnd (fbread c dev 1 s) (\<lambda>bp s.
       let d = bp_data s bp in
       fbrelse c bp (s\<lparr>sb := \<lparr>magic = ld32 d 0, sb_size = ld32 d 4, nblocks = ld32 d 8, ninodes = ld32 d 12,
         nlog = ld32 d 16, logstart = ld32 d 20, inodestart = ld32 d 24, bmapstart = ld32 d 28\<rparr>\<rparr>))"

definition fsinit :: "who \<Rightarrow> u32 \<Rightarrow> fs \<Rightarrow> (unit, fs) res" where
  "fsinit c dev s =
     bnd (readsb c dev s) (\<lambda>_ s.
       if magic (sb s) \<noteq> FSMAGIC then Panic ''invalid file system''
       else on_log (initlog (wpid c) dev (sb s)) s)"

section \<open>Blocks\<close>

definition IBLOCK :: "u32 \<Rightarrow> superblock \<Rightarrow> u32" where
  "IBLOCK i p = i div 16 + inodestart p"

definition BBLOCK :: "u32 \<Rightarrow> superblock \<Rightarrow> u32" where
  "BBLOCK b p = b div 8192 + bmapstart p"

definition zero_block :: "block \<Rightarrow> block" where
  "zero_block d = (\<lambda>i. if i < BSIZE then 0 else d i)"

definition bzero :: "who \<Rightarrow> u32 \<Rightarrow> u32 \<Rightarrow> fs \<Rightarrow> (unit, fs) res" where
  "bzero c dev bno s =
     bnd (fbread c dev bno s) (\<lambda>bp s.
     bnd (flog_write bp (bp_put bp (zero_block (bp_data s bp)) s)) (\<lambda>_ s. fbrelse c bp s))"

definition bit_mask :: "nat \<Rightarrow> u8" where
  "bit_mask bi = 2 ^ (bi mod 8)"

text \<open>The first free bit below \<open>n\<close> in a block of the free map.\<close>

definition free_bit :: "block \<Rightarrow> nat \<Rightarrow> nat option" where
  "free_bit d n = find (\<lambda>bi. d (bi div 8) AND bit_mask bi = 0) [0..<n]"

primrec balloc_loop :: "nat list \<Rightarrow> who \<Rightarrow> u32 \<Rightarrow> fs \<Rightarrow> (u32, fs) res" where
  "balloc_loop [] c dev s = Ret 0 (s\<lparr>msgs := msgs s @ [''balloc: out of blocks'']\<rparr>)"
| "balloc_loop (b # bs) c dev s =
     bnd (fbread c dev (BBLOCK (of_nat b) (sb s)) s) (\<lambda>bp s.
       case free_bit (bp_data s bp) (min BPB (unat (sb_size (sb s)) - b)) of
         Some bi \<Rightarrow>
           let d = bp_data s bp in
           bnd (flog_write bp (bp_put bp (d(bi div 8 := d (bi div 8) OR bit_mask bi)) s)) (\<lambda>_ s.
           bnd (fbrelse c bp s) (\<lambda>_ s.
           bnd (bzero c dev (of_nat (b + bi)) s) (\<lambda>_ s. Ret (of_nat (b + bi)) s)))
       | None \<Rightarrow> bnd (fbrelse c bp s) (\<lambda>_ s. balloc_loop bs c dev s))"

text \<open>The blocks of the free map cover the block numbers \<open>0, BPB, 2 * BPB, ...\<close> below the size.\<close>

definition balloc :: "who \<Rightarrow> u32 \<Rightarrow> fs \<Rightarrow> (u32, fs) res" where
  "balloc c dev s =
     balloc_loop (map (\<lambda>k. k * BPB) [0..<(unat (sb_size (sb s)) + (BPB - 1)) div BPB]) c dev s"

definition bfree :: "who \<Rightarrow> u32 \<Rightarrow> u32 \<Rightarrow> fs \<Rightarrow> (unit, fs) res" where
  "bfree c dev b s =
     bnd (fbread c dev (BBLOCK b (sb s)) s) (\<lambda>bp s.
       let bi = unat b mod BPB; d = bp_data s bp in
       if d (bi div 8) AND bit_mask bi = 0 then Panic ''freeing free block''
       else bnd (flog_write bp (bp_put bp (d(bi div 8 := d (bi div 8) AND NOT (bit_mask bi))) s)) (\<lambda>_ s.
         fbrelse c bp s))"

section \<open>Inodes\<close>

definition iinit :: "fs \<Rightarrow> fs" where
  "iinit s = s\<lparr>itable := (\<lambda>i. if i < NINODE then (itable s i)\<lparr>i_lock := initsleeplock\<rparr> else itable s i)\<rparr>"

definition iget :: "u32 \<Rightarrow> u32 \<Rightarrow> fs \<Rightarrow> (nat, fs) res" where
  "iget dev inum s =
     (case find (\<lambda>ip. i_ref (itable s ip) > 0 \<and> i_dev (itable s ip) = dev \<and> i_inum (itable s ip) = inum) [0..<NINODE] of
        Some ip \<Rightarrow> Ret ip (upd_inode ip (i_ref_update (\<lambda>r. r + 1)) s)
      | None \<Rightarrow>
          (case find (\<lambda>ip. i_ref (itable s ip) = 0) [0..<NINODE] of
             None \<Rightarrow> Panic ''iget: no inodes''
           | Some ip \<Rightarrow>
               Ret ip (upd_inode ip (\<lambda>x. x\<lparr>i_dev := dev, i_inum := inum, i_ref := 1, i_valid := False\<rparr>) s)))"

text \<open>The on-disk inode \<open>k\<close> of a block: 64 bytes, little endian.\<close>

definition dinode_off :: "u32 \<Rightarrow> nat" where
  "dinode_off inum = 64 * (unat inum mod IPB)"

definition dinode_get :: "block \<Rightarrow> nat \<Rightarrow> inode \<Rightarrow> inode" where
  "dinode_get d off x = x\<lparr>i_type := ld16 d off, i_major := ld16 d (off + 2), i_minor := ld16 d (off + 4),
     i_nlink := ld16 d (off + 6), i_size := ld32 d (off + 8),
     i_addrs := (\<lambda>k. if k \<le> NDIRECT then ld32 d (off + 12 + 4 * k) else i_addrs x k)\<rparr>"

primrec put_addrs :: "nat \<Rightarrow> nat \<Rightarrow> (nat \<Rightarrow> u32) \<Rightarrow> block \<Rightarrow> block" where
  "put_addrs 0 off a d = d"
| "put_addrs (Suc k) off a d = st32 (put_addrs k off a d) (off + 4 * k) (a k)"

definition dinode_put :: "inode \<Rightarrow> nat \<Rightarrow> block \<Rightarrow> block" where
  "dinode_put x off d =
     put_addrs (NDIRECT + 1) (off + 12) (i_addrs x)
       (st32 (st16 (st16 (st16 (st16 d off (i_type x)) (off + 2) (i_major x)) (off + 4) (i_minor x)) (off + 6) (i_nlink x))
         (off + 8) (i_size x))"

primrec ialloc_loop :: "nat list \<Rightarrow> who \<Rightarrow> u32 \<Rightarrow> u16 \<Rightarrow> fs \<Rightarrow> (nat option, fs) res" where
  "ialloc_loop [] c dev type s = Ret None (s\<lparr>msgs := msgs s @ [''ialloc: no inodes'']\<rparr>)"
| "ialloc_loop (inum # ks) c dev type s =
     bnd (fbread c dev (IBLOCK (of_nat inum) (sb s)) s) (\<lambda>bp s.
       let d = bp_data s bp; off = dinode_off (of_nat inum) in
       if ld16 d off = 0 then
         bnd (flog_write bp (bp_put bp (st16 (\<lambda>i. if off \<le> i \<and> i < off + 64 then 0 else d i) off type) s)) (\<lambda>_ s.
         bnd (fbrelse c bp s) (\<lambda>_ s.
         bnd (iget dev (of_nat inum) s) (\<lambda>ip s. Ret (Some ip) s)))
       else bnd (fbrelse c bp s) (\<lambda>_ s. ialloc_loop ks c dev type s))"

definition ialloc :: "who \<Rightarrow> u32 \<Rightarrow> u16 \<Rightarrow> fs \<Rightarrow> (nat option, fs) res" where
  "ialloc c dev type s = ialloc_loop [1..<unat (ninodes (sb s))] c dev type s"

definition iupdate :: "who \<Rightarrow> nat \<Rightarrow> fs \<Rightarrow> (unit, fs) res" where
  "iupdate c ip s =
     bnd (fbread c (i_dev (itable s ip)) (IBLOCK (i_inum (itable s ip)) (sb s)) s) (\<lambda>bp s.
       let x = itable s ip in
       bnd (flog_write bp (bp_put bp (dinode_put x (dinode_off (i_inum x)) (bp_data s bp)) s)) (\<lambda>_ s.
         fbrelse c bp s))"

definition idup :: "nat \<Rightarrow> fs \<Rightarrow> fs" where
  "idup ip s = upd_inode ip (i_ref_update (\<lambda>r. r + 1)) s"

definition ilock :: "who \<Rightarrow> nat option \<Rightarrow> fs \<Rightarrow> (unit, fs) res" where
  "ilock c ipo s =
     (case ipo of None \<Rightarrow> Panic ''ilock'' | Some ip \<Rightarrow>
      if i_ref (itable s ip) < 1 then Panic ''ilock''
      else case acquiresleep (wpid c) (i_lock (itable s ip)) of
        None \<Rightarrow> Sleep (ChInodeLock ip) s
      | Some l \<Rightarrow>
          let s = upd_inode ip (i_lock_update (\<lambda>_. l)) s; x = itable s ip in
          if \<not> i_valid x then
            bnd (fbread c (i_dev x) (IBLOCK (i_inum x) (sb s)) s) (\<lambda>bp s.
              let s = upd_inode ip (dinode_get (bp_data s bp) (dinode_off (i_inum x))) s in
              bnd (fbrelse c bp s) (\<lambda>_ s.
                let s = upd_inode ip (i_valid_update (\<lambda>_. True)) s in
                if i_type (itable s ip) = 0 then Panic ''ilock: no type'' else Ret () s))
          else Ret () s)"

definition iunlock :: "who \<Rightarrow> nat option \<Rightarrow> fs \<Rightarrow> (unit, fs) res" where
  "iunlock c ipo s =
     (case ipo of None \<Rightarrow> Panic ''iunlock'' | Some ip \<Rightarrow>
      if \<not> holdingsleep (wpid c) (i_lock (itable s ip)) \<or> i_ref (itable s ip) < 1 then Panic ''iunlock''
      else Ret () (upd_inode ip (i_lock_update releasesleep) (s\<lparr>iwakes := iwakes s @ [ChInodeLock ip]\<rparr>)))"

section \<open>Inode content\<close>

definition bmap :: "who \<Rightarrow> nat \<Rightarrow> u32 \<Rightarrow> fs \<Rightarrow> (u32, fs) res" where
  "bmap c ip bn s =
     (let dev = i_dev (itable s ip) in
      if unat bn < NDIRECT then
        let addr = i_addrs (itable s ip) (unat bn) in
        if addr = 0 then
          bnd (balloc c dev s) (\<lambda>addr s.
            if addr = 0 then Ret 0 s
            else Ret addr (upd_inode ip (i_addrs_update (\<lambda>a. a(unat bn := addr))) s))
        else Ret addr s
      else
        let bn = unat bn - NDIRECT in
        if bn < NINDIRECT then
          bnd (let addr = i_addrs (itable s ip) NDIRECT in
               if addr = 0 then
                 bnd (balloc c dev s) (\<lambda>addr s.
                   if addr = 0 then Ret 0 s
                   else Ret addr (upd_inode ip (i_addrs_update (\<lambda>a. a(NDIRECT := addr))) s))
               else Ret addr s) (\<lambda>addr s.
          if addr = 0 then Ret 0 s
          else bnd (fbread c dev addr s) (\<lambda>bp s.
            bnd (let addr = ld32 (bp_data s bp) (4 * bn) in
                 if addr = 0 then
                   bnd (balloc c dev s) (\<lambda>addr s.
                     if addr \<noteq> 0 then
                       bnd (flog_write bp (bp_put bp (st32 (bp_data s bp) (4 * bn) addr) s)) (\<lambda>_ s. Ret addr s)
                     else Ret addr s)
                 else Ret addr s) (\<lambda>addr s.
            bnd (fbrelse c bp s) (\<lambda>_ s. Ret addr s))))
        else Panic ''bmap: out of range'')"

primrec itrunc_direct :: "nat list \<Rightarrow> who \<Rightarrow> nat \<Rightarrow> fs \<Rightarrow> (unit, fs) res" where
  "itrunc_direct [] c ip s = Ret () s"
| "itrunc_direct (i # ks) c ip s =
     (if i_addrs (itable s ip) i \<noteq> 0 then
        bnd (bfree c (i_dev (itable s ip)) (i_addrs (itable s ip) i) s) (\<lambda>_ s.
          itrunc_direct ks c ip (upd_inode ip (i_addrs_update (\<lambda>a. a(i := 0))) s))
      else itrunc_direct ks c ip s)"

primrec itrunc_indirect :: "nat list \<Rightarrow> who \<Rightarrow> u32 \<Rightarrow> nat \<Rightarrow> fs \<Rightarrow> (unit, fs) res" where
  "itrunc_indirect [] c dev bp s = Ret () s"
| "itrunc_indirect (j # js) c dev bp s =
     (let a = ld32 (bp_data s bp) (4 * j) in
      bnd (if a \<noteq> 0 then bfree c dev a s else Ret () s) (\<lambda>_ s. itrunc_indirect js c dev bp s))"

definition itrunc :: "who \<Rightarrow> nat \<Rightarrow> fs \<Rightarrow> (unit, fs) res" where
  "itrunc c ip s =
     bnd (itrunc_direct [0..<NDIRECT] c ip s) (\<lambda>_ s.
     bnd (let dev = i_dev (itable s ip); a = i_addrs (itable s ip) NDIRECT in
          if a \<noteq> 0 then
            bnd (fbread c dev a s) (\<lambda>bp s.
            bnd (itrunc_indirect [0..<NINDIRECT] c dev bp s) (\<lambda>_ s.
            bnd (fbrelse c bp s) (\<lambda>_ s.
            bnd (bfree c dev a s) (\<lambda>_ s.
            Ret () (upd_inode ip (i_addrs_update (\<lambda>a. a(NDIRECT := 0))) s)))))
          else Ret () s) (\<lambda>_ s.
     iupdate c ip (upd_inode ip (i_size_update (\<lambda>_. 0)) s)))"

text \<open>
  A process that would have to wait for the inode's lock here holds the spin lock of the inode table, and
  \<^verbatim>\<open>sched\<close> panics.
\<close>

definition iput :: "who \<Rightarrow> nat \<Rightarrow> fs \<Rightarrow> (unit, fs) res" where
  "iput c ip s =
     bnd (let x = itable s ip in
          if i_ref x = 1 \<and> i_valid x \<and> i_nlink x = 0 then
            (case acquiresleep (wpid c) (i_lock x) of
               None \<Rightarrow> Panic ''sched locks''
             | Some l \<Rightarrow>
                 bnd (itrunc c ip (upd_inode ip (i_lock_update (\<lambda>_. l)) s)) (\<lambda>_ s.
                 bnd (iupdate c ip (upd_inode ip (i_type_update (\<lambda>_. 0)) s)) (\<lambda>_ s.
                 Ret () (upd_inode ip (\<lambda>x. x\<lparr>i_valid := False, i_lock := releasesleep (i_lock x)\<rparr>)
                   (s\<lparr>iwakes := iwakes s @ [ChInodeLock ip]\<rparr>)))))
          else Ret () s) (\<lambda>_ s.
     Ret () (upd_inode ip (i_ref_update (\<lambda>r. r - 1)) s))"

definition iunlockput :: "who \<Rightarrow> nat \<Rightarrow> fs \<Rightarrow> (unit, fs) res" where
  "iunlockput c ip s = bnd (iunlock c (Some ip) s) (\<lambda>_ s. iput c ip s)"

record stat =
  st_dev :: u32
  st_ino :: u32
  st_type :: u16
  st_nlink :: u16
  st_size :: u64

definition stati :: "nat \<Rightarrow> fs \<Rightarrow> stat" where
  "stati ip s = (let x = itable s ip in
     \<lparr>st_dev = i_dev x, st_ino = i_inum x, st_type = i_type x, st_nlink = i_nlink x, st_size = ucast (i_size x)\<rparr>)"

end
