(* ===== verification/Fs_Content.thy ===== *)
theory Fs_Content
  imports Fs
begin

text \<open>
  Reading and writing the content of inodes, directories and path names: the second half of
  \<^verbatim>\<open>kernel/fs.c\<close>, with \<^verbatim>\<open>either_copyout\<close> and \<^verbatim>\<open>either_copyin\<close> of \<^verbatim>\<open>kernel/proc.c\<close>, which it copies with.
\<close>

section \<open>Copying\<close>

text \<open>
  Where bytes go and where they come from. A kernel address is either the address of a page
  in physical memory or an object of the calling C function, which the routine then returns.
\<close>

datatype dest = ToUser u64 | ToPhys u64 | ToLocal "nat \<Rightarrow> u8" nat

datatype source = FromUser u64 | FromPhys u64 | FromLocal "nat \<Rightarrow> u8"

primrec dest_add :: "dest \<Rightarrow> nat \<Rightarrow> dest" where
  "dest_add (ToUser a) m = ToUser (a + of_nat m)"
| "dest_add (ToPhys a) m = ToPhys (a + of_nat m)"
| "dest_add (ToLocal f i) m = ToLocal f (i + m)"

primrec source_add :: "source \<Rightarrow> nat \<Rightarrow> source" where
  "source_add (FromUser a) m = FromUser (a + of_nat m)"
| "source_add (FromPhys a) m = FromPhys (a + of_nat m)"
| "source_add (FromLocal f) m = FromLocal (\<lambda>i. f (m + i))"

definition put_at :: "(nat \<Rightarrow> u8) \<Rightarrow> nat \<Rightarrow> (nat \<Rightarrow> u8) \<Rightarrow> nat \<Rightarrow> (nat \<Rightarrow> u8)" where
  "put_at f i src n = (\<lambda>k. if i \<le> k \<and> k < i + n then src (k - i) else f k)"

definition either_copyout :: "who \<Rightarrow> dest \<Rightarrow> (nat \<Rightarrow> u8) \<Rightarrow> u64 \<Rightarrow> kmem \<Rightarrow> (int \<times> dest, kmem) res" where
  "either_copyout c dst src len m =
     (case dst of
        ToUser a \<Rightarrow> bnd (copyout (wpt c) a src len m) (\<lambda>r m. Ret (r, dst) m)
      | ToPhys a \<Rightarrow> Ret (0, dst) (m\<lparr>phys := put_bytes (unat len) (phys m) a src\<rparr>)
      | ToLocal f i \<Rightarrow> Ret (0, ToLocal (put_at f i src (unat len)) i) m)"

text \<open>The kernel object that \<^verbatim>\<open>either_copyin\<close> fills is given by its content \<open>dst\<close> and the offset \<open>di\<close> in it.\<close>

definition either_copyin :: "who \<Rightarrow> (nat \<Rightarrow> u8) \<Rightarrow> nat \<Rightarrow> source \<Rightarrow> u64 \<Rightarrow> kmem \<Rightarrow> (int \<times> (nat \<Rightarrow> u8), kmem) res" where
  "either_copyin c dst di src len m =
     (case src of
        FromUser a \<Rightarrow> copyin (wpt c) dst di a len m
      | FromPhys a \<Rightarrow> Ret (0, get_bytes (unat len) (phys m) a dst di) m
      | FromLocal f \<Rightarrow> Ret (0, put_at dst di f (unat len)) m)"

section \<open>Content\<close>

text \<open>The part of a transfer of \<open>n\<close> bytes that falls into the block of offset \<open>off\<close>.\<close>

definition chunk :: "u32 \<Rightarrow> u32 \<Rightarrow> u32" where
  "chunk off n = min n (1024 - off mod 1024)"

lemma chunk_bounds:
  assumes "n > 0"
  shows "0 < chunk off n" "chunk off n \<le> n" "unat (n - chunk off n) < unat n"
proof -
  have m: "unat (off mod 1024) < 1024" by (simp add: unat_mod)
  have d: "unat (1024 - off mod 1024) = 1024 - unat (off mod 1024)"
    using m by (subst unat_sub) (simp_all add: word_le_nat_alt)
  show p: "0 < chunk off n" using assms m d by (simp add: chunk_def word_less_nat_alt min_def)
  show le: "chunk off n \<le> n" by (simp add: chunk_def)
  show "unat (n - chunk off n) < unat n"
    using p le assms by (simp add: unat_sub word_less_nat_alt word_le_nat_alt)
qed

function readi_loop :: "who \<Rightarrow> nat \<Rightarrow> dest \<Rightarrow> u32 \<Rightarrow> u32 \<Rightarrow> u32 \<Rightarrow> fs \<Rightarrow> (u32 \<times> dest, fs) res" where
  "readi_loop c ip dst off tot n s =
     (if tot < n then
        bnd (bmap c ip (off div 1024) s) (\<lambda>addr s.
          if addr = 0 then Ret (tot, dst) s
          else bnd (fbread c (i_dev (itable s ip)) addr s) (\<lambda>bp s.
            let m = chunk off (n - tot); d = bp_data s bp in
            bnd (on_mem (either_copyout c dst (\<lambda>i. d (unat (off mod 1024) + i)) (ucast m)) s) (\<lambda>(r, dst) s.
              if r = -1 then bnd (fbrelse c bp s) (\<lambda>_ s. Ret (-1, dst) s)
              else bnd (fbrelse c bp s) (\<lambda>_ s.
                readi_loop c ip (dest_add dst (unat m)) (off + m) (tot + m) n s))))
      else Ret (tot, dst) s)"
  by pat_completeness auto
termination
proof (relation "measure (\<lambda>(c, ip, dst, off, tot, n, s). unat (n - tot))", goal_cases)
  case (2 c ip dst off tot n s)
  then have "n - tot > 0" by (simp add: word_less_nat_alt unat_sub word_le_nat_alt)
  then show ?case using chunk_bounds(3)[of "n - tot" off] 2 by (simp add: algebra_simps)
qed simp

declare readi_loop.simps [simp del]

definition readi :: "who \<Rightarrow> nat \<Rightarrow> dest \<Rightarrow> u32 \<Rightarrow> u32 \<Rightarrow> fs \<Rightarrow> (int \<times> dest, fs) res" where
  "readi c ip dst off n s =
     (let size = i_size (itable s ip) in
      if off > size \<or> off + n < off then Ret (0, dst) s
      else
        let n = (if off + n > size then size - off else n) in
        bnd (readi_loop c ip dst off 0 n s) (\<lambda>(tot, dst) s. Ret (sint tot, dst) s))"

text \<open>The loop of \<^verbatim>\<open>writei\<close> returns the number of bytes written and the offset it has reached.\<close>

function writei_loop :: "who \<Rightarrow> nat \<Rightarrow> source \<Rightarrow> u32 \<Rightarrow> u32 \<Rightarrow> u32 \<Rightarrow> fs \<Rightarrow> (u32 \<times> u32, fs) res" where
  "writei_loop c ip src off tot n s =
     (if tot < n then
        bnd (bmap c ip (off div 1024) s) (\<lambda>addr s.
          if addr = 0 then Ret (tot, off) s
          else bnd (fbread c (i_dev (itable s ip)) addr s) (\<lambda>bp s.
            let m = chunk off (n - tot) in
            bnd (on_mem (either_copyin c (bp_data s bp) (unat (off mod 1024)) src (ucast m)) s) (\<lambda>(r, d) s.
              let s = bp_put bp d s in
              if r = -1 then bnd (fbrelse c bp s) (\<lambda>_ s. Ret (tot, off) s)
              else bnd (flog_write bp s) (\<lambda>_ s. bnd (fbrelse c bp s) (\<lambda>_ s.
                writei_loop c ip (source_add src (unat m)) (off + m) (tot + m) n s)))))
      else Ret (tot, off) s)"
  by pat_completeness auto
termination
proof (relation "measure (\<lambda>(c, ip, src, off, tot, n, s). unat (n - tot))", goal_cases)
  case (2 c ip src off tot n s)
  then have "n - tot > 0" by (simp add: word_less_nat_alt unat_sub word_le_nat_alt)
  then show ?case using chunk_bounds(3)[of "n - tot" off] 2 by (simp add: algebra_simps)
qed simp

declare writei_loop.simps [simp del]

definition writei :: "who \<Rightarrow> nat \<Rightarrow> source \<Rightarrow> u32 \<Rightarrow> u32 \<Rightarrow> fs \<Rightarrow> (int, fs) res" where
  "writei c ip src off n s =
     (if off > i_size (itable s ip) \<or> off + n < off then Ret (-1) s
      else if off + n > of_nat (MAXFILE * BSIZE) then Ret (-1) s
      else bnd (writei_loop c ip src off 0 n s) (\<lambda>(tot, off) s.
        let s = (if off > i_size (itable s ip) then upd_inode ip (i_size_update (\<lambda>_. off)) s else s) in
        bnd (iupdate c ip s) (\<lambda>_ s. Ret (sint tot) s)))"

section \<open>Directories\<close>

definition namecmp :: "(nat \<Rightarrow> u8) \<Rightarrow> (nat \<Rightarrow> u8) \<Rightarrow> int" where
  "namecmp s t = strncmp s t DIRSIZ"

text \<open>A directory entry: the inode number in two bytes, then the name. \<open>read_dirent\<close> is the call of \<^verbatim>\<open>readi\<close>.\<close>

definition de_inum :: "(nat \<Rightarrow> u8) \<Rightarrow> u16" where
  "de_inum de = ld16 de 0"

definition de_name :: "(nat \<Rightarrow> u8) \<Rightarrow> nat \<Rightarrow> u8" where
  "de_name de = (\<lambda>i. de (2 + i))"

primrec local_of :: "dest \<Rightarrow> (nat \<Rightarrow> u8)" where
  "local_of (ToUser a) = (\<lambda>_. 0)"
| "local_of (ToPhys a) = (\<lambda>_. 0)"
| "local_of (ToLocal f i) = f"

definition read_dirent :: "string \<Rightarrow> who \<Rightarrow> nat \<Rightarrow> u32 \<Rightarrow> fs \<Rightarrow> (nat \<Rightarrow> u8, fs) res" where
  "read_dirent err c dp off s =
     bnd (readi c dp (ToLocal (\<lambda>_. 0) 0) off 16 s) (\<lambda>(r, dst) s.
       if r \<noteq> 16 then Panic err else Ret (local_of dst) s)"

text \<open>The loops over the entries of a directory stop at the offset that has passed its size.\<close>

fun dirlookup_loop :: "nat list \<Rightarrow> who \<Rightarrow> nat \<Rightarrow> (nat \<Rightarrow> u8) \<Rightarrow> fs \<Rightarrow> ((nat \<times> u32) option, fs) res" where
  "dirlookup_loop [] c dp name s = Ret None s"
| "dirlookup_loop (k # ks) c dp name s =
     bnd (read_dirent ''dirlookup read'' c dp (of_nat (16 * k)) s) (\<lambda>de s.
       if de_inum de = 0 then dirlookup_loop ks c dp name s
       else if namecmp name (de_name de) = 0 then
         bnd (iget (i_dev (itable s dp)) (ucast (de_inum de)) s) (\<lambda>ip s. Ret (Some (ip, of_nat (16 * k))) s)
       else dirlookup_loop ks c dp name s)"

definition dir_slots :: "u32 \<Rightarrow> nat list" where
  "dir_slots n = [0..<(unat n + 15) div 16]"

text \<open>The result carries the offset stored through \<^verbatim>\<open>poff\<close>.\<close>

definition dirlookup :: "who \<Rightarrow> nat \<Rightarrow> (nat \<Rightarrow> u8) \<Rightarrow> fs \<Rightarrow> ((nat \<times> u32) option, fs) res" where
  "dirlookup c dp name s =
     (if i_type (itable s dp) \<noteq> T_DIR then Panic ''dirlookup not DIR''
      else dirlookup_loop (dir_slots (i_size (itable s dp))) c dp name s)"

text \<open>The offset of the first empty entry, or the end of the directory, with the entry last read.\<close>

fun dirlink_loop :: "nat list \<Rightarrow> u32 \<Rightarrow> (nat \<Rightarrow> u8) \<Rightarrow> who \<Rightarrow> nat \<Rightarrow> fs \<Rightarrow> (u32 \<times> (nat \<Rightarrow> u8), fs) res" where
  "dirlink_loop [] off de c dp s = Ret (off, de) s"
| "dirlink_loop (k # ks) off de c dp s =
     bnd (read_dirent ''dirlink read'' c dp (of_nat (16 * k)) s) (\<lambda>de s.
       if de_inum de = 0 then Ret (of_nat (16 * k), de) s
       else dirlink_loop ks (of_nat (16 * Suc k)) de c dp s)"

definition dirent :: "(nat \<Rightarrow> u8) \<Rightarrow> u16 \<Rightarrow> (nat \<Rightarrow> u8) \<Rightarrow> nat \<Rightarrow> u8" where
  "dirent name inum de = st16 (put_at de 2 (strncpy (\<lambda>i. de (2 + i)) name DIRSIZ) DIRSIZ) 0 inum"

definition dirlink :: "who \<Rightarrow> nat \<Rightarrow> (nat \<Rightarrow> u8) \<Rightarrow> u32 \<Rightarrow> fs \<Rightarrow> (int, fs) res" where
  "dirlink c dp name inum s =
     bnd (dirlookup c dp name s) (\<lambda>found s.
       case found of
         Some (ip, off) \<Rightarrow> bnd (iput c ip s) (\<lambda>_ s. Ret (-1) s)
       | None \<Rightarrow>
           bnd (dirlink_loop (dir_slots (i_size (itable s dp))) 0 (\<lambda>_. 0) c dp s) (\<lambda>(off, de) s.
           bnd (writei c dp (FromLocal (dirent name (ucast inum) de)) off 16 s) (\<lambda>r s.
           if r \<noteq> 16 then Ret (-1) s else Ret 0 s)))"

section \<open>Paths\<close>

text \<open>
  A path is the list of its bytes before the terminating zero; a name is a buffer of \<^verbatim>\<open>DIRSIZ\<close> bytes.
\<close>

abbreviation (input) SLASH :: u8 where "SLASH \<equiv> 47"

definition skipelem :: "u8 list \<Rightarrow> (nat \<Rightarrow> u8) \<Rightarrow> (u8 list \<times> (nat \<Rightarrow> u8)) option" where
  "skipelem path name =
     (let path = dropWhile (\<lambda>c. c = SLASH) path in
      if path = [] then None
      else
        let s = takeWhile (\<lambda>c. c \<noteq> SLASH) path;
            path = dropWhile (\<lambda>c. c \<noteq> SLASH) path;
            len = length s;
            name = (if len \<ge> DIRSIZ then (\<lambda>i. if i < DIRSIZ then s ! i else name i)
                    else (\<lambda>i. if i < len then s ! i else if i = len then 0 else name i))
        in Some (dropWhile (\<lambda>c. c = SLASH) path, name))"

lemma skipelem_shorter: "skipelem path name = Some (rest, name') \<Longrightarrow> length rest < length path"
proof -
  assume a: "skipelem path name = Some (rest, name')"
  let ?p = "dropWhile (\<lambda>c. c = SLASH) path"
  have ne: "?p \<noteq> []" and rest: "rest = dropWhile (\<lambda>c. c = SLASH) (dropWhile (\<lambda>c. c \<noteq> SLASH) ?p)"
    using a by (auto simp: skipelem_def Let_def split: if_splits)
  have "hd ?p \<noteq> SLASH" using hd_dropWhile[of "\<lambda>c. c = SLASH" path] ne by simp
  then have e: "dropWhile (\<lambda>c. c \<noteq> SLASH) ?p = dropWhile (\<lambda>c. c \<noteq> SLASH) (tl ?p)" using ne by (cases ?p) auto
  have "length rest \<le> length (dropWhile (\<lambda>c. c \<noteq> SLASH) (tl ?p))" unfolding rest e by (rule length_dropWhile_le)
  also have "\<dots> \<le> length (tl ?p)" by (rule length_dropWhile_le)
  also have "\<dots> < length ?p" using ne by simp
  finally show ?thesis using length_dropWhile_le[of "\<lambda>c. c = SLASH" path] by simp
qed

function namex_loop :: "who \<Rightarrow> u8 list \<Rightarrow> bool \<Rightarrow> (nat \<Rightarrow> u8) \<Rightarrow> nat \<Rightarrow> fs \<Rightarrow> (nat option \<times> (nat \<Rightarrow> u8), fs) res" where
  "namex_loop c path parent name ip s =
     (case skipelem path name of
        None \<Rightarrow>
          if parent then bnd (iput c ip s) (\<lambda>_ s. Ret (None, name) s) else Ret (Some ip, name) s
      | Some (path', name) \<Rightarrow>
          bnd (ilock c (Some ip) s) (\<lambda>_ s.
            if i_type (itable s ip) \<noteq> T_DIR then bnd (iunlockput c ip s) (\<lambda>_ s. Ret (None, name) s)
            else if parent \<and> path' = [] then bnd (iunlock c (Some ip) s) (\<lambda>_ s. Ret (Some ip, name) s)
            else bnd (dirlookup c ip name s) (\<lambda>found s.
              case found of
                None \<Rightarrow> bnd (iunlockput c ip s) (\<lambda>_ s. Ret (None, name) s)
              | Some (next, off) \<Rightarrow>
                  bnd (iunlockput c ip s) (\<lambda>_ s. namex_loop c path' parent name next s))))"
  by pat_completeness auto
termination
  by (relation "measure (\<lambda>(c, path, parent, name, ip, s). length path)") (auto simp: skipelem_shorter)

declare namex_loop.simps [simp del]

definition namex :: "who \<Rightarrow> nat \<Rightarrow> u8 list \<Rightarrow> bool \<Rightarrow> (nat \<Rightarrow> u8) \<Rightarrow> fs \<Rightarrow> (nat option \<times> (nat \<Rightarrow> u8), fs) res" where
  "namex c cwd path parent name s =
     bnd (if take 1 path = [SLASH] then iget ROOTDEV ROOTINO s else Ret cwd (idup cwd s)) (\<lambda>ip s.
       namex_loop c path parent name ip s)"

definition namei :: "who \<Rightarrow> nat \<Rightarrow> u8 list \<Rightarrow> fs \<Rightarrow> (nat option, fs) res" where
  "namei c cwd path s = bnd (namex c cwd path False (\<lambda>_. 0) s) (\<lambda>(ip, name) s. Ret ip s)"

definition nameiparent :: "who \<Rightarrow> nat \<Rightarrow> u8 list \<Rightarrow> (nat \<Rightarrow> u8) \<Rightarrow> fs \<Rightarrow> (nat option \<times> (nat \<Rightarrow> u8), fs) res" where
  "nameiparent c cwd path name s = namex c cwd path True name s"

end
