(* ===== verification/Console.thy ===== *)
theory Console
  imports Fs_Content
begin

text \<open>
  The serial port of \<^verbatim>\<open>kernel/uart.c\<close> and the console of \<^verbatim>\<open>kernel/console.c\<close>. The device is its registers: what
  successive reads of the line status and of the receive register return is given as two scripts, and the
  bytes written to the transmit register are recorded in order. Reading a status past
  the end of its script returns 0, that is, the device is neither idle nor has it input.
\<close>

section \<open>The serial port\<close>

abbreviation (input) UART_TX_BUF_SIZE :: u64 where "UART_TX_BUF_SIZE \<equiv> 32"
abbreviation (input) LSR_TX_IDLE :: u8 where "LSR_TX_IDLE \<equiv> 32"

record uart =
  tx_buf :: "nat \<Rightarrow> u8"
  tx_w :: u64
  tx_r :: u64
  lsr :: "u8 list"
  rhr :: "u8 list"
  thr :: "u8 list"
  uregs :: "(nat \<times> u8) list"
  panicked :: bool
  uwakes :: "chan list"

definition read_lsr :: "uart \<Rightarrow> u8 \<times> uart" where
  "read_lsr u = (case lsr u of [] \<Rightarrow> (0, u) | x # xs \<Rightarrow> (x, u\<lparr>lsr := xs\<rparr>))"

definition read_rhr :: "uart \<Rightarrow> u8 \<times> uart" where
  "read_rhr u = (case rhr u of [] \<Rightarrow> (0, u) | x # xs \<Rightarrow> (x, u\<lparr>rhr := xs\<rparr>))"

definition write_thr :: "u8 \<Rightarrow> uart \<Rightarrow> uart" where
  "write_thr c u = u\<lparr>thr := thr u @ [c]\<rparr>"

text \<open>The registers are written in this order: IER 1, LCR 3, divisor 0 and 1, LCR 3, FCR 2, IER 1.\<close>

definition uartinit :: "uart \<Rightarrow> uart" where
  "uartinit u = u\<lparr>uregs := uregs u @ [(1, 0), (3, 128), (0, 3), (1, 0), (3, 3), (2, 1 OR 6), (1, 2 OR 1)]\<rparr>"

function uartstart :: "uart \<Rightarrow> uart" where
  "uartstart u =
     (if tx_w u = tx_r u then u
      else
        let (x, u) = read_lsr u in
        if x AND LSR_TX_IDLE = 0 then u
        else
          let c = tx_buf u (unat (tx_r u mod UART_TX_BUF_SIZE));
              u = u\<lparr>tx_r := tx_r u + 1, uwakes := uwakes u @ [ChUart]\<rparr>
          in uartstart (write_thr c u))"
  by pat_completeness auto

lemma unat_diff_less: "(a :: u64) \<noteq> b \<Longrightarrow> unat (a - (b + 1)) < unat (a - b)"
proof -
  assume "a \<noteq> b"
  then have "a - b \<noteq> 0" by simp
  then have "unat (a - b - 1) < unat (a - b)" by (rule unat_pred)
  then show ?thesis by (simp add: algebra_simps)
qed

termination uartstart
proof (relation "measure (\<lambda>u. unat (tx_w u - tx_r u))", goal_cases)
  case (2 u x y v c w)
  then have "tx_w v = tx_w u" "tx_r v = tx_r u"
    by (auto simp: read_lsr_def split: list.splits)
  then show ?case using 2 unat_diff_less[of "tx_w u" "tx_r u"] by (simp add: write_thr_def)
qed simp

declare uartstart.simps [simp del]

definition uartputc :: "u8 \<Rightarrow> uart \<Rightarrow> (unit, uart) res" where
  "uartputc c u =
     (if panicked u then Diverge
      else if tx_w u = tx_r u + UART_TX_BUF_SIZE then Sleep ChUart u
      else
        let u = u\<lparr>tx_buf := (tx_buf u)(unat (tx_w u mod UART_TX_BUF_SIZE) := c), tx_w := tx_w u + 1\<rparr>
        in Ret () (uartstart u))"

text \<open>Polling the status until the device is idle: \<open>None\<close> when the script ends first.\<close>

fun wait_idle :: "u8 list \<Rightarrow> u8 list option" where
  "wait_idle [] = None"
| "wait_idle (x # xs) = (if x AND LSR_TX_IDLE = 0 then wait_idle xs else Some xs)"

definition uartputc_sync :: "u8 \<Rightarrow> uart \<Rightarrow> (unit, uart) res" where
  "uartputc_sync c u =
     (if panicked u then Diverge
      else case wait_idle (lsr u) of None \<Rightarrow> Diverge | Some xs \<Rightarrow> Ret () (write_thr c (u\<lparr>lsr := xs\<rparr>)))"

definition uartgetc :: "uart \<Rightarrow> int \<times> uart" where
  "uartgetc u =
     (let (x, u) = read_lsr u in
      if x AND 1 \<noteq> 0 then let (c, u) = read_rhr u in (uint c, u) else (-1, u))"

section \<open>The console\<close>

abbreviation (input) INPUT_BUF_SIZE :: u32 where "INPUT_BUF_SIZE \<equiv> 128"
abbreviation (input) BACKSPACE :: int where "BACKSPACE \<equiv> 256"

record console =
  cbuf :: "nat \<Rightarrow> u8"
  cr :: u32
  cw :: u32
  ce :: u32
  uart :: uart
  cwakes :: "chan list"

definition on_uart :: "(uart \<Rightarrow> ('a, uart) res) \<Rightarrow> console \<Rightarrow> ('a, console) res" where
  "on_uart f s = in_part (\<lambda>u. s\<lparr>uart := u\<rparr>) (f (uart s))"

definition consputc :: "int \<Rightarrow> console \<Rightarrow> (unit, console) res" where
  "consputc c s =
     (if c = BACKSPACE then
        bnd (on_uart (uartputc_sync 8) s) (\<lambda>_ s. bnd (on_uart (uartputc_sync 32) s) (\<lambda>_ s.
          on_uart (uartputc_sync 8) s))
      else on_uart (uartputc_sync (of_int c)) s)"

primrec consputs :: "u8 list \<Rightarrow> console \<Rightarrow> (unit, console) res" where
  "consputs [] s = Ret () s"
| "consputs (c # cs) s = bnd (consputc (uint c) s) (\<lambda>_ s. consputs cs s)"

text \<open>\<^verbatim>\<open>consolewrite\<close> with the number of bytes already written; the memory is read, the console changes.\<close>

record con_mem =
  con :: console
  cmem :: kmem

definition on_con :: "(console \<Rightarrow> ('a, console) res) \<Rightarrow> con_mem \<Rightarrow> ('a, con_mem) res" where
  "on_con f s = in_part (\<lambda>x. s\<lparr>con := x\<rparr>) (f (con s))"

definition on_cmem :: "(kmem \<Rightarrow> ('a, kmem) res) \<Rightarrow> con_mem \<Rightarrow> ('a, con_mem) res" where
  "on_cmem f s = in_part (\<lambda>m. s\<lparr>cmem := m\<rparr>) (f (cmem s))"

primrec consolewrite_loop :: "nat \<Rightarrow> int \<Rightarrow> who \<Rightarrow> source \<Rightarrow> con_mem \<Rightarrow> (int, con_mem) res" where
  "consolewrite_loop 0 i c src s = Ret i s"
| "consolewrite_loop (Suc k) i c src s =
     bnd (on_cmem (either_copyin c (\<lambda>_. 0) 0 src 1) s) (\<lambda>(r, ch) s.
       if r = -1 then Ret i s
       else bnd (on_con (on_uart (uartputc (ch 0))) s) (\<lambda>_ s.
         consolewrite_loop k (i + 1) c (source_add src 1) s))"

definition consolewrite :: "who \<Rightarrow> source \<Rightarrow> int \<Rightarrow> con_mem \<Rightarrow> (int, con_mem) res" where
  "consolewrite c src n s = consolewrite_loop (nat n) 0 c src s"

text \<open>
  The loop of \<^verbatim>\<open>consoleread\<close>: \<open>n\<close> bytes are still wanted of \<open>target\<close>. When it waits, the bytes copied so far are
  in user memory and the wait is the outcome \<open>Sleep\<close>.
\<close>

primrec consoleread_loop :: "nat \<Rightarrow> nat \<Rightarrow> who \<Rightarrow> bool \<Rightarrow> dest \<Rightarrow> con_mem \<Rightarrow> (int, con_mem) res" where
  "consoleread_loop 0 target c kld dst s = Ret (int target) s"
| "consoleread_loop (Suc n) target c kld dst s =
     (if cr (con s) = cw (con s) then (if kld then Ret (-1) s else Sleep ChCons s)
      else
        let ch = cbuf (con s) (unat (cr (con s) mod INPUT_BUF_SIZE));
            s = s\<lparr>con := (con s)\<lparr>cr := cr (con s) + 1\<rparr>\<rparr> in
        if ch = 4 then
          Ret (int target - int (Suc n)) (if Suc n < target then s\<lparr>con := (con s)\<lparr>cr := cr (con s) - 1\<rparr>\<rparr> else s)
        else bnd (on_cmem (either_copyout c dst (\<lambda>_. ch) 1) s) (\<lambda>(r, dst) s.
          if r = -1 then Ret (int target - int (Suc n)) s
          else if ch = 10 then Ret (int target - int n) s
          else consoleread_loop n target c kld (dest_add dst 1) s))"

definition consoleread :: "who \<Rightarrow> bool \<Rightarrow> dest \<Rightarrow> int \<Rightarrow> con_mem \<Rightarrow> (int, con_mem) res" where
  "consoleread c kld dst n s =
     (if n > 0 then consoleread_loop (nat n) (nat n) c kld dst s else Ret 0 s)"

lemma consputc_same:
  "consputc c s = Ret x s' \<Longrightarrow> ce s' = ce s \<and> cw s' = cw s \<and> cr s' = cr s \<and> cbuf s' = cbuf s"
  by (auto simp: consputc_def on_uart_def res_simps split: if_splits)

function kill_line :: "console \<Rightarrow> (unit, console) res" where
  "kill_line s =
     (if ce s \<noteq> cw s \<and> cbuf s (unat ((ce s - 1) mod INPUT_BUF_SIZE)) \<noteq> 10 then
        bnd (consputc BACKSPACE (s\<lparr>ce := ce s - 1\<rparr>)) (\<lambda>_ s. kill_line s)
      else Ret () s)"
  by pat_completeness auto

termination kill_line
proof (relation "measure (\<lambda>s. unat (ce s - cw s))", goal_cases)
  case (2 s x t)
  have "ce s - cw s \<noteq> 0" using 2 by simp
  then have "unat (ce s - cw s - 1) < unat (ce s - cw s)" by (rule unat_pred)
  moreover have "ce t - cw t = ce s - cw s - 1" using consputc_same[OF 2(2)] by simp
  ultimately show ?case by simp
qed simp

declare kill_line.simps [simp del]

text \<open>\<open>pd\<close> is the listing that \<^verbatim>\<open>procdump\<close> prints.\<close>

definition consoleintr :: "u8 list \<Rightarrow> int \<Rightarrow> console \<Rightarrow> (unit, console) res" where
  "consoleintr pd c s =
     (if c = 16 then consputs pd s
      else if c = 21 then kill_line s
      else if c = 8 \<or> c = 127 then
        (if ce s \<noteq> cw s then consputc BACKSPACE (s\<lparr>ce := ce s - 1\<rparr>) else Ret () s)
      else if c \<noteq> 0 \<and> ce s - cr s < INPUT_BUF_SIZE then
        let c = (if c = 13 then 10 else c) in
        bnd (consputc c s) (\<lambda>_ s.
          let s = s\<lparr>cbuf := (cbuf s)(unat (ce s mod INPUT_BUF_SIZE) := of_int c), ce := ce s + 1\<rparr> in
          if c = 10 \<or> c = 4 \<or> ce s - cr s = INPUT_BUF_SIZE then
            Ret () (s\<lparr>cw := ce s, cwakes := cwakes s @ [ChCons]\<rparr>)
          else Ret () s)
      else Ret () s)"

text \<open>Every turn of the loop of \<^verbatim>\<open>uartintr\<close> reads the status once.\<close>

primrec uartintr_loop :: "nat \<Rightarrow> u8 list \<Rightarrow> console \<Rightarrow> (unit, console) res" where
  "uartintr_loop 0 pd s = Ret () s"
| "uartintr_loop (Suc k) pd s =
     (let (c, u) = uartgetc (uart s); s = s\<lparr>uart := u\<rparr> in
      if c = -1 then Ret () s else bnd (consoleintr pd c s) (\<lambda>_ s. uartintr_loop k pd s))"

definition uartintr :: "u8 list \<Rightarrow> console \<Rightarrow> (unit, console) res" where
  "uartintr pd s =
     bnd (uartintr_loop (Suc (length (lsr (uart s)))) pd s) (\<lambda>_ s. Ret () (s\<lparr>uart := uartstart (uart s)\<rparr>))"

end
