(* ===== verification/Pipe.thy ===== *)
theory Pipe
  imports Console
begin

text \<open>
  Pipes, \<^verbatim>\<open>kernel/pipe.c\<close>. A pipe lives in a page of its own; the table of pipes is indexed by the page's address.
  The counters \<^verbatim>\<open>nread\<close> and \<^verbatim>\<open>nwrite\<close> are 32-bit words that wrap around. A caller that must wait is the outcome
  \<open>Wait\<close> of the loops, with the number of bytes transferred so far, so that it can be resumed.
\<close>

section \<open>State and operations\<close>

abbreviation (input) PIPESIZE :: u32 where "PIPESIZE \<equiv> 512"

record pipe =
  pdata :: "nat \<Rightarrow> u8"
  nread :: u32
  nwrite :: u32
  readopen :: bool
  writeopen :: bool

record pipe_mem =
  pp :: pipe
  pmem :: kmem
  pwakes :: "chan list"

datatype xfer = Done int | Wait nat

definition pipe_put :: "u8 \<Rightarrow> pipe \<Rightarrow> pipe" where
  "pipe_put ch p = p\<lparr>pdata := (pdata p)(unat (nwrite p mod PIPESIZE) := ch), nwrite := nwrite p + 1\<rparr>"

definition pipe_get :: "pipe \<Rightarrow> u8 \<times> pipe" where
  "pipe_get p = (pdata p (unat (nread p mod PIPESIZE)), p\<lparr>nread := nread p + 1\<rparr>)"

definition on_pmem :: "(kmem \<Rightarrow> ('a, kmem) res) \<Rightarrow> pipe_mem \<Rightarrow> ('a, pipe_mem) res" where
  "on_pmem f s = in_part (\<lambda>m. s\<lparr>pmem := m\<rparr>) (f (pmem s))"

definition pwake :: "chan \<Rightarrow> pipe_mem \<Rightarrow> pipe_mem" where
  "pwake ch s = s\<lparr>pwakes := pwakes s @ [ch]\<rparr>"

text \<open>\<open>k\<close> bytes are left to write after the first \<open>i\<close>; \<open>kld\<close> is the caller's killed flag.\<close>

primrec pipewrite_loop :: "nat \<Rightarrow> nat \<Rightarrow> u64 \<Rightarrow> u64 \<Rightarrow> bool \<Rightarrow> u64 \<Rightarrow> pipe_mem \<Rightarrow> (xfer, pipe_mem) res" where
  "pipewrite_loop 0 i pt pi kld addr s = Ret (Done (int i)) (pwake (ChPipeRead (unat pi)) s)"
| "pipewrite_loop (Suc k) i pt pi kld addr s =
     (if \<not> readopen (pp s) \<or> kld then Ret (Done (-1)) s
      else if nwrite (pp s) = nread (pp s) + PIPESIZE then Ret (Wait i) (pwake (ChPipeRead (unat pi)) s)
      else bnd (on_pmem (copyin pt (\<lambda>_. 0) 0 (addr + of_nat i) 1) s) (\<lambda>(r, ch) s.
        if r = -1 then Ret (Done (int i)) (pwake (ChPipeRead (unat pi)) s)
        else pipewrite_loop k (Suc i) pt pi kld addr (s\<lparr>pp := pipe_put (ch 0) (pp s)\<rparr>)))"

definition pipewrite :: "u64 \<Rightarrow> u64 \<Rightarrow> bool \<Rightarrow> u64 \<Rightarrow> int \<Rightarrow> pipe_mem \<Rightarrow> (xfer, pipe_mem) res" where
  "pipewrite pt pi kld addr n s = pipewrite_loop (nat n) 0 pt pi kld addr s"

primrec piperead_loop :: "nat \<Rightarrow> nat \<Rightarrow> u64 \<Rightarrow> u64 \<Rightarrow> u64 \<Rightarrow> pipe_mem \<Rightarrow> (xfer, pipe_mem) res" where
  "piperead_loop 0 i pt pi addr s = Ret (Done (int i)) (pwake (ChPipeWrite (unat pi)) s)"
| "piperead_loop (Suc k) i pt pi addr s =
     (if nread (pp s) = nwrite (pp s) then Ret (Done (int i)) (pwake (ChPipeWrite (unat pi)) s)
      else
        let (ch, p) = pipe_get (pp s); s = s\<lparr>pp := p\<rparr> in
        bnd (on_pmem (copyout pt (addr + of_nat i) (\<lambda>_. ch) 1) s) (\<lambda>r s.
          if r = -1 then Ret (Done (int i)) (pwake (ChPipeWrite (unat pi)) s)
          else piperead_loop k (Suc i) pt pi addr s))"

definition piperead :: "u64 \<Rightarrow> u64 \<Rightarrow> bool \<Rightarrow> u64 \<Rightarrow> int \<Rightarrow> pipe_mem \<Rightarrow> (xfer, pipe_mem) res" where
  "piperead pt pi kld addr n s =
     (if nread (pp s) = nwrite (pp s) \<and> writeopen (pp s) then
        if kld then Ret (Done (-1)) s else Ret (Wait 0) s
      else piperead_loop (nat n) 0 pt pi addr s)"

text \<open>Closing one end; the page is freed with the second.\<close>

definition pipeclose :: "u64 \<Rightarrow> bool \<Rightarrow> pipe_mem \<Rightarrow> (unit, pipe_mem) res" where
  "pipeclose pi writable s =
     (let s = (if writable then pwake (ChPipeRead (unat pi)) (s\<lparr>pp := (pp s)\<lparr>writeopen := False\<rparr>\<rparr>)
               else pwake (ChPipeWrite (unat pi)) (s\<lparr>pp := (pp s)\<lparr>readopen := False\<rparr>\<rparr>)) in
      if \<not> readopen (pp s) \<and> \<not> writeopen (pp s) then on_pmem (kfree pi) s else Ret () s)"

end
