(* ===== verification/File.thy ===== *)
theory File
  imports Pipe
begin

text \<open>
  Open files, \<^verbatim>\<open>kernel/file.c\<close>, with \<^verbatim>\<open>pipealloc\<close> of \<^verbatim>\<open>kernel/pipe.c\<close> and \<^verbatim>\<open>consoleinit\<close>. File pointers are indices into
  the file table. The record of this theory is extended by the process table later, so its routines are stated for every
  extension.
\<close>

section \<open>State\<close>

abbreviation (input) NFILE :: nat where "NFILE \<equiv> 100"
abbreviation (input) NDEV :: int where "NDEV \<equiv> 10"
abbreviation (input) CONSOLE :: nat where "CONSOLE \<equiv> 1"

datatype ftype = FD_NONE | FD_PIPE | FD_INODE | FD_DEVICE

record kfile =
  f_type :: ftype
  f_ref :: int
  f_readable :: bool
  f_writable :: bool
  f_pipe :: u64
  f_ip :: nat
  f_off :: u32
  f_major :: u16

text \<open>\<open>devsw\<close> tells which device numbers have the console's routines.\<close>

record files =
  kfs :: fs
  ftable :: "nat \<Rightarrow> kfile"
  pipes :: "u64 \<Rightarrow> pipe"
  kcon :: console
  devsw :: "nat \<Rightarrow> bool"
  fwakes :: "chan list"

text \<open>The caller: its identity and its killed flag.\<close>

record caller = who +
  wkilled :: bool

definition who_of :: "caller \<Rightarrow> who" where
  "who_of c = \<lparr>wpid = wpid c, wpt = wpt c\<rparr>"

definition on_fs :: "(fs \<Rightarrow> ('a, fs) res) \<Rightarrow> 'z files_scheme \<Rightarrow> ('a, 'z files_scheme) res" where
  "on_fs f s = in_part (\<lambda>x. s\<lparr>kfs := x\<rparr>) (f (kfs s))"

definition on_km :: "(kmem \<Rightarrow> ('a, kmem) res) \<Rightarrow> 'z files_scheme \<Rightarrow> ('a, 'z files_scheme) res" where
  "on_km f s = on_fs (on_mem f) s"

definition on_pipe :: "u64 \<Rightarrow> (pipe_mem \<Rightarrow> ('a, pipe_mem) res) \<Rightarrow> 'z files_scheme \<Rightarrow> ('a, 'z files_scheme) res" where
  "on_pipe pi f s =
     in_part (\<lambda>x. s\<lparr>kfs := (kfs s)\<lparr>fmem := pmem x\<rparr>, pipes := (pipes s)(pi := pp x), fwakes := pwakes x\<rparr>)
       (f \<lparr>pp = pipes s pi, pmem = fmem (kfs s), pwakes = fwakes s\<rparr>)"

definition on_cons :: "(con_mem \<Rightarrow> ('a, con_mem) res) \<Rightarrow> 'z files_scheme \<Rightarrow> ('a, 'z files_scheme) res" where
  "on_cons f s =
     in_part (\<lambda>x. s\<lparr>kfs := (kfs s)\<lparr>fmem := cmem x\<rparr>, kcon := con x\<rparr>) (f \<lparr>con = kcon s, cmem = fmem (kfs s)\<rparr>)"

definition upd_file :: "nat \<Rightarrow> (kfile \<Rightarrow> kfile) \<Rightarrow> 'z files_scheme \<Rightarrow> 'z files_scheme" where
  "upd_file f g s = s\<lparr>ftable := (ftable s)(f := g (ftable s f))\<rparr>"

definition consoleinit :: "'z files_scheme \<Rightarrow> 'z files_scheme" where
  "consoleinit s = s\<lparr>kcon := (kcon s)\<lparr>uart := uartinit (uart (kcon s))\<rparr>, devsw := (devsw s)(CONSOLE := True)\<rparr>"

text \<open>The transactions of the log, as the file layer calls them.\<close>

definition kbegin_op :: "'z files_scheme \<Rightarrow> (unit, 'z files_scheme) res" where
  "kbegin_op s = on_fs (on_log begin_op) s"

definition kend_op :: "caller \<Rightarrow> 'z files_scheme \<Rightarrow> (unit, 'z files_scheme) res" where
  "kend_op c s = on_fs (on_log (end_op (wpid c))) s"

section \<open>Operations\<close>

definition filealloc :: "'z files_scheme \<Rightarrow> nat option \<times> 'z files_scheme" where
  "filealloc s =
     (case find (\<lambda>f. f_ref (ftable s f) = 0) [0..<NFILE] of
        None \<Rightarrow> (None, s) | Some f \<Rightarrow> (Some f, upd_file f (f_ref_update (\<lambda>_. 1)) s))"

definition filedup :: "nat \<Rightarrow> 'z files_scheme \<Rightarrow> (nat, 'z files_scheme) res" where
  "filedup f s =
     (if f_ref (ftable s f) < 1 then Panic ''filedup'' else Ret f (upd_file f (f_ref_update (\<lambda>r. r + 1)) s))"

definition fileclose :: "caller \<Rightarrow> nat \<Rightarrow> 'z files_scheme \<Rightarrow> (unit, 'z files_scheme) res" where
  "fileclose c f s =
     (if f_ref (ftable s f) < 1 then Panic ''fileclose''
      else
        let s = upd_file f (f_ref_update (\<lambda>r. r - 1)) s in
        if f_ref (ftable s f) > 0 then Ret () s
        else
          let ff = ftable s f; s = upd_file f (\<lambda>x. x\<lparr>f_ref := 0, f_type := FD_NONE\<rparr>) s in
          case f_type ff of
            FD_PIPE \<Rightarrow> on_pipe (f_pipe ff) (pipeclose (f_pipe ff) (f_writable ff)) s
          | FD_NONE \<Rightarrow> Ret () s
          | _ \<Rightarrow> bnd (kbegin_op s) (\<lambda>_ s. bnd (on_fs (iput (who_of c) (f_ip ff)) s) (\<lambda>_ s. kend_op c s)))"

text \<open>
  \<^verbatim>\<open>struct stat\<close> is 24 bytes; \<open>junk\<close> is the stack memory it is built in, whose padding bytes 12 to 15 stay as they are.
\<close>

definition stat_bytes :: "(nat \<Rightarrow> u8) \<Rightarrow> stat \<Rightarrow> nat \<Rightarrow> u8" where
  "stat_bytes junk st =
     st32 (st32 (st16 (st16 (st32 (st32 junk 0 (st_dev st)) 4 (st_ino st)) 8 (st_type st)) 10 (st_nlink st))
       16 (ucast (st_size st))) 20 (ucast (drop_bit 32 (st_size st)))"

definition filestat :: "(nat \<Rightarrow> u8) \<Rightarrow> caller \<Rightarrow> nat \<Rightarrow> u64 \<Rightarrow> 'z files_scheme \<Rightarrow> (int, 'z files_scheme) res" where
  "filestat junk c f addr s =
     (let x = ftable s f in
      if f_type x = FD_INODE \<or> f_type x = FD_DEVICE then
        bnd (on_fs (ilock (who_of c) (Some (f_ip x))) s) (\<lambda>_ s.
        let st = stati (f_ip x) (kfs s) in
        bnd (on_fs (iunlock (who_of c) (Some (f_ip x))) s) (\<lambda>_ s.
        bnd (on_km (copyout (wpt c) addr (stat_bytes junk st) 24) s) (\<lambda>r s.
        Ret (if r < 0 then -1 else 0) s)))
      else Ret (-1) s)"

definition dev_ok :: "u16 \<Rightarrow> 'z files_scheme \<Rightarrow> bool" where
  "dev_ok major s \<longleftrightarrow> 0 \<le> sint major \<and> sint major < NDEV \<and> devsw s (nat (sint major))"

primrec xfer_res :: "chan \<Rightarrow> xfer \<Rightarrow> 's \<Rightarrow> (int, 's) res" where
  "xfer_res ch (Done r) s = Ret r s"
| "xfer_res ch (Wait i) s = Sleep ch s"

definition fileread :: "caller \<Rightarrow> nat \<Rightarrow> u64 \<Rightarrow> int \<Rightarrow> 'z files_scheme \<Rightarrow> (int, 'z files_scheme) res" where
  "fileread c f addr n s =
     (let x = ftable s f in
      if \<not> f_readable x then Ret (-1) s
      else case f_type x of
        FD_PIPE \<Rightarrow> bnd (on_pipe (f_pipe x) (piperead (wpt c) (f_pipe x) (wkilled c) addr n) s)
          (xfer_res (ChPipeRead (unat (f_pipe x))))
      | FD_DEVICE \<Rightarrow>
          if \<not> dev_ok (f_major x) s then Ret (-1) s
          else on_cons (consoleread (who_of c) (wkilled c) (ToUser addr) n) s
      | FD_INODE \<Rightarrow>
          bnd (on_fs (ilock (who_of c) (Some (f_ip x))) s) (\<lambda>_ s.
          bnd (on_fs (readi (who_of c) (f_ip x) (ToUser addr) (f_off (ftable s f)) (of_int n)) s) (\<lambda>(r, _) s.
          let s = (if r > 0 then upd_file f (f_off_update (\<lambda>o'. o' + of_int r)) s else s) in
          bnd (on_fs (iunlock (who_of c) (Some (f_ip x))) s) (\<lambda>_ s. Ret r s)))
      | FD_NONE \<Rightarrow> Panic ''fileread'')"

text \<open>The writes of \<^verbatim>\<open>filewrite\<close> to an inode: at most \<open>max\<close> bytes per transaction, \<open>i\<close> are written.\<close>

definition filewrite_max :: int where
  "filewrite_max = ((int MAXOPBLOCKS - 1 - 1 - 2) div 2) * int BSIZE"

function filewrite_loop :: "caller \<Rightarrow> nat \<Rightarrow> u64 \<Rightarrow> int \<Rightarrow> int \<Rightarrow> 'z files_scheme \<Rightarrow> (int, 'z files_scheme) res" where
  "filewrite_loop c f addr i n s =
     (if i < n then
        let n1 = min (n - i) filewrite_max; ip = f_ip (ftable s f) in
        bnd (kbegin_op s) (\<lambda>_ s.
        bnd (on_fs (ilock (who_of c) (Some ip)) s) (\<lambda>_ s.
        bnd (on_fs (writei (who_of c) ip (FromUser (addr + of_int i)) (f_off (ftable s f)) (of_int n1)) s) (\<lambda>r s.
        let s = (if r > 0 then upd_file f (f_off_update (\<lambda>o'. o' + of_int r)) s else s) in
        bnd (on_fs (iunlock (who_of c) (Some ip)) s) (\<lambda>_ s.
        bnd (kend_op c s) (\<lambda>_ s.
        if r \<noteq> n1 then Ret i s else filewrite_loop c f addr (i + r) n s)))))
      else Ret i s)"
  by pat_completeness auto
termination
  by (relation "measure (\<lambda>(c, f, addr, i, n, s). nat (n - i))") (auto simp: filewrite_max_def)

declare filewrite_loop.simps [simp del]

definition filewrite :: "caller \<Rightarrow> nat \<Rightarrow> u64 \<Rightarrow> int \<Rightarrow> 'z files_scheme \<Rightarrow> (int, 'z files_scheme) res" where
  "filewrite c f addr n s =
     (let x = ftable s f in
      if \<not> f_writable x then Ret (-1) s
      else case f_type x of
        FD_PIPE \<Rightarrow> bnd (on_pipe (f_pipe x) (pipewrite (wpt c) (f_pipe x) (wkilled c) addr n) s)
          (xfer_res (ChPipeWrite (unat (f_pipe x))))
      | FD_DEVICE \<Rightarrow>
          if \<not> dev_ok (f_major x) s then Ret (-1) s
          else on_cons (consolewrite (who_of c) (FromUser addr) n) s
      | FD_INODE \<Rightarrow> bnd (filewrite_loop c f addr 0 n s) (\<lambda>i s. Ret (if i = n then n else -1) s)
      | FD_NONE \<Rightarrow> Panic ''filewrite'')"

text \<open>Failure of \<^verbatim>\<open>pipealloc\<close> closes what it has allocated.\<close>

definition pipe_bad :: "caller \<Rightarrow> nat option \<Rightarrow> nat option \<Rightarrow> 'z files_scheme \<Rightarrow> ((nat \<times> nat) option, 'z files_scheme) res" where
  "pipe_bad c f0 f1 s =
     bnd (case f0 of None \<Rightarrow> Ret () s | Some f \<Rightarrow> fileclose c f s) (\<lambda>_ s.
     bnd (case f1 of None \<Rightarrow> Ret () s | Some f \<Rightarrow> fileclose c f s) (\<lambda>_ s. Ret None s))"

definition pipealloc :: "caller \<Rightarrow> 'z files_scheme \<Rightarrow> ((nat \<times> nat) option, 'z files_scheme) res" where
  "pipealloc c s =
     (case filealloc s of
        (None, s) \<Rightarrow> pipe_bad c None None s
      | (Some f0, s) \<Rightarrow>
          (case filealloc s of
             (None, s) \<Rightarrow> pipe_bad c (Some f0) None s
           | (Some f1, s) \<Rightarrow>
               bnd (on_km kalloc s) (\<lambda>pi s.
                 if pi = 0 then pipe_bad c (Some f0) (Some f1) s
                 else
                   let s = s\<lparr>pipes := (pipes s)(pi := (pipes s pi)\<lparr>readopen := True, writeopen := True,
                         nwrite := 0, nread := 0\<rparr>)\<rparr>;
                       s = upd_file f0 (\<lambda>x. x\<lparr>f_type := FD_PIPE, f_readable := True, f_writable := False, f_pipe := pi\<rparr>) s;
                       s = upd_file f1 (\<lambda>x. x\<lparr>f_type := FD_PIPE, f_readable := False, f_writable := True, f_pipe := pi\<rparr>) s
                   in Ret (Some (f0, f1)) s)))"

end
