(* ===== verification/Vma.thy ===== *)
theory Vma
  imports File
begin

text \<open>
  Memory-mapped areas, \<^verbatim>\<open>struct vm_area\<close> of \<^verbatim>\<open>kernel/proc.h\<close>, and the routines of \<^verbatim>\<open>kernel/sysfile.c\<close> that give their pages
  back: \<^verbatim>\<open>write_back\<close> for shared and \<^verbatim>\<open>put_back\<close> for private mappings.
\<close>

abbreviation (input) NVMA :: nat where "NVMA \<equiv> 16"
abbreviation (input) PROT_READ :: u32 where "PROT_READ \<equiv> 1"
abbreviation (input) PROT_WRITE :: u32 where "PROT_WRITE \<equiv> 2"
abbreviation (input) MAP_SHARED :: u32 where "MAP_SHARED \<equiv> 1"

record vm_area =
  va_start :: u64
  va_length :: u64
  va_prot :: u32
  va_flags :: u32
  va_fptr :: "nat option"
  va_vstart :: u64
  va_vend :: u64

definition no_area :: vm_area where
  "no_area = \<lparr>va_start = 0, va_length = 0, va_prot = 0, va_flags = 0, va_fptr = None, va_vstart = 0, va_vend = 0\<rparr>"

text \<open>
  The loops run over the pages from \<open>pg\<close> up to \<open>e\<close>. The page address is a 64-bit word; if it wrapped around, the
  source would start again from address 0 and the model says \<open>Diverge\<close>.
\<close>

definition write_back_page :: "caller \<Rightarrow> u64 \<Rightarrow> nat \<Rightarrow> u64 \<Rightarrow> u64 \<Rightarrow> 'z files_scheme \<Rightarrow> (unit, 'z files_scheme) res" where
  "write_back_page c pagetable ip pg offset s =
     bnd (on_km (walk pagetable pg False) s) (\<lambda>pte s.
     let e = ld64 (phys (fmem (kfs s))) pte; size = ucast (i_size (itable (kfs s) ip)) :: u64 in
     bnd (if PTE_FLAGS e AND PTE_D \<noteq> 0 \<and> offset < size then
            let nbyte = ucast (size - offset) :: u32 in
            bnd (on_fs (writei (who_of c) ip (FromPhys (PTE2PA e)) (ucast offset) nbyte) s) (\<lambda>r s.
              if of_int r \<noteq> nbyte then Panic ''write_back: writei fail'' else Ret () s)
          else Ret () s) (\<lambda>_ s.
     on_km (uvmunmap pagetable pg 1 True) s))"

function write_back_loop ::
  "caller \<Rightarrow> u64 \<Rightarrow> nat \<Rightarrow> u64 \<Rightarrow> u64 \<Rightarrow> u64 \<Rightarrow> 'z files_scheme \<Rightarrow> (unit, 'z files_scheme) res" where
  "write_back_loop c pagetable ip pg e offset s =
     (if pg < e then
        bnd (on_km (walkaddr pagetable pg) s) (\<lambda>pa s.
        bnd (if pa \<noteq> 0 then bnd (write_back_page c pagetable ip pg offset s) (\<lambda>_ s. Ret (offset + 4096) s)
             else Ret offset s) (\<lambda>offset s.
        if pg + 4096 < pg then Diverge else write_back_loop c pagetable ip (pg + 4096) e offset s))
      else Ret () s)"
  by pat_completeness auto

lemma page_up_less: "\<not> (pg + 4096 < (pg :: u64)) \<Longrightarrow> 2 ^ 64 - unat (pg + 4096) < 2 ^ 64 - unat pg"
proof -
  assume "\<not> (pg + 4096 < pg)"
  then have "unat pg \<le> unat (pg + 4096)" by (simp add: word_le_nat_alt not_less)
  moreover have "unat (pg + 4096) \<noteq> unat pg" by (simp add: word_unat_eq_iff[symmetric])
  moreover have "unat (pg + 4096) < 2 ^ 64" by (rule unat_less_u64)
  ultimately show ?thesis by linarith
qed

termination write_back_loop
  by (relation "measure (\<lambda>(c, pt, ip, pg, e, offset, s). 2 ^ 64 - unat pg)") (auto simp: page_up_less[simplified])

declare write_back_loop.simps [simp del]

definition write_back ::
  "caller \<Rightarrow> u64 \<Rightarrow> nat \<Rightarrow> u64 \<Rightarrow> u64 \<Rightarrow> u64 \<Rightarrow> 'z files_scheme \<Rightarrow> (unit, 'z files_scheme) res" where
  "write_back c pagetable fptr addr len offset s =
     (let ip = f_ip (ftable s fptr) in
      bnd (kbegin_op s) (\<lambda>_ s.
      bnd (on_fs (ilock (who_of c) (Some ip)) s) (\<lambda>_ s.
      if offset mod 4096 \<noteq> 0 then Panic ''write_back: pagsize not aligned''
      else bnd (write_back_loop c pagetable ip addr (addr + len) offset s) (\<lambda>_ s.
        bnd (on_fs (iunlock (who_of c) (Some ip)) s) (\<lambda>_ s. kend_op c s)))))"

function put_back_loop :: "u64 \<Rightarrow> u64 \<Rightarrow> u64 \<Rightarrow> kmem \<Rightarrow> (unit, kmem) res" where
  "put_back_loop pagetable pg e s =
     (if pg < e then
        bnd (walkaddr pagetable pg s) (\<lambda>pa s.
        bnd (if pa \<noteq> 0 then uvmunmap pagetable pg 1 True s else Ret () s) (\<lambda>_ s.
        if pg + 4096 < pg then Diverge else put_back_loop pagetable (pg + 4096) e s))
      else Ret () s)"
  by pat_completeness auto
termination put_back_loop
  by (relation "measure (\<lambda>(pt, pg, e, s). 2 ^ 64 - unat pg)") (auto simp: page_up_less[simplified])

declare put_back_loop.simps [simp del]

definition put_back :: "u64 \<Rightarrow> u64 \<Rightarrow> u64 \<Rightarrow> kmem \<Rightarrow> (unit, kmem) res" where
  "put_back pagetable addr len s = put_back_loop pagetable addr (addr + len) s"

text \<open>
  What \<^verbatim>\<open>clear_vm_area\<close> does before it clears the slot. The mapping's file pointer is not null in a used slot; reading through a
  null pointer is a trap in the kernel.
\<close>

definition release_area :: "caller \<Rightarrow> vm_area \<Rightarrow> u64 \<Rightarrow> 'z files_scheme \<Rightarrow> (unit, 'z files_scheme) res" where
  "release_area c area pagetable s =
     (case va_fptr area of
        None \<Rightarrow> Panic ''kerneltrap''
      | Some fptr \<Rightarrow>
          bnd (if va_vstart area < va_vend area then
                 let addr = va_vstart area; len = va_vend area - va_vstart area in
                 if va_flags area AND MAP_SHARED \<noteq> 0 then
                   write_back c pagetable fptr addr len (addr - va_start area) s
                 else on_km (put_back pagetable addr len) s
               else Ret () s) (\<lambda>_ s.
          fileclose c fptr s))"

end
