(* ===== verification/Proc.thy ===== *)
theory Proc
  imports Vma
begin

text \<open>
  Processes, \<^verbatim>\<open>kernel/proc.c\<close>. Process pointers are indices into the process table. A trapframe is a page of
  physical memory, so its registers are words of that page. The context switch itself is not modelled: \<^verbatim>\<open>sched\<close> is
  its checks, and the scheduler's choices are steps of a transition relation.
\<close>

section \<open>State\<close>

abbreviation (input) NOFILE :: nat where "NOFILE \<equiv> 16"

datatype procstate = UNUSED | USED | SLEEPING | RUNNABLE | RUNNING | ZOMBIE

record proc =
  p_state :: procstate
  p_chan :: "chan option"
  p_killed :: bool
  p_xstate :: u32
  p_pid :: int
  p_parent :: "nat option"
  p_kstack :: u64
  p_sz :: u64
  p_pagetable :: u64
  p_next_start :: u64
  p_areas :: "nat \<Rightarrow> vm_area"
  p_trapframe :: u64
  p_ra :: u64
  p_sp :: u64
  p_ofile :: "nat \<Rightarrow> nat option"
  p_cwd :: "nat option"
  p_name :: "nat \<Rightarrow> u8"

text \<open>\<open>tramp\<close> and \<open>forkret_pc\<close> are the addresses of the symbols \<^verbatim>\<open>trampoline\<close> and \<^verbatim>\<open>forkret\<close>, fixed by the linker.\<close>

record kern = files +
  procs :: "nat \<Rightarrow> proc"
  nextpid :: int
  initproc :: "nat option"
  ticks :: u32
  fs_ready :: bool
  tramp :: u64
  forkret_pc :: u64

definition upd_proc :: "nat \<Rightarrow> (proc \<Rightarrow> proc) \<Rightarrow> kern \<Rightarrow> kern" where
  "upd_proc p f s = s\<lparr>procs := (procs s)(p := f (procs s p))\<rparr>"

definition me :: "nat \<Rightarrow> kern \<Rightarrow> caller" where
  "me p s = \<lparr>wpid = p_pid (procs s p), wpt = p_pagetable (procs s p), wkilled = p_killed (procs s p)\<rparr>"

definition say :: "string \<Rightarrow> kern \<Rightarrow> kern" where
  "say m s = s\<lparr>kfs := (kfs s)\<lparr>msgs := msgs (kfs s) @ [m]\<rparr>\<rparr>"

text \<open>Registers of a trapframe, by their offset: \<^verbatim>\<open>epc\<close> 24, \<^verbatim>\<open>sp\<close> 48, \<^verbatim>\<open>a0\<close> 112 to \<^verbatim>\<open>a7\<close> 168.\<close>

definition tf_get :: "nat \<Rightarrow> u64 \<Rightarrow> kern \<Rightarrow> u64" where
  "tf_get p off s = ld64 (phys (fmem (kfs s))) (p_trapframe (procs s p) + off)"

definition tf_set :: "nat \<Rightarrow> u64 \<Rightarrow> u64 \<Rightarrow> kern \<Rightarrow> kern" where
  "tf_set p off v s = s\<lparr>kfs := (kfs s)\<lparr>fmem := (fmem (kfs s))\<lparr>phys :=
     st64 (phys (fmem (kfs s))) (p_trapframe (procs s p) + off) v\<rparr>\<rparr>\<rparr>"

section \<open>Sleep and wakeup\<close>

definition procinit :: "kern \<Rightarrow> kern" where
  "procinit s = s\<lparr>procs := (\<lambda>p. if p < NPROC then (procs s p)\<lparr>p_state := UNUSED, p_kstack := KSTACK p\<rparr> else procs s p)\<rparr>"

definition allocpid :: "kern \<Rightarrow> int \<times> kern" where
  "allocpid s = (nextpid s, s\<lparr>nextpid := nextpid s + 1\<rparr>)"

definition wake_one :: "chan \<Rightarrow> proc \<Rightarrow> proc" where
  "wake_one ch x = (if p_state x = SLEEPING \<and> p_chan x = Some ch then x\<lparr>p_state := RUNNABLE\<rparr> else x)"

definition wakeup :: "nat option \<Rightarrow> chan \<Rightarrow> kern \<Rightarrow> kern" where
  "wakeup cur ch s =
     s\<lparr>procs := (\<lambda>p. if p < NPROC \<and> Some p \<noteq> cur then wake_one ch (procs s p) else procs s p)\<rparr>"

text \<open>The wakeups that the lower layers have asked for, delivered to the process table.\<close>

definition pending :: "kern \<Rightarrow> chan list" where
  "pending s = lwakes (flog (kfs s)) @ bwakes (lbc (flog (kfs s))) @ iwakes (kfs s) @ fwakes s @
     cwakes (kcon s) @ uwakes (uart (kcon s))"

definition no_pending :: "kern \<Rightarrow> kern" where
  "no_pending s = s\<lparr>
     kfs := (kfs s)\<lparr>flog := (flog (kfs s))\<lparr>lwakes := [], lbc := (lbc (flog (kfs s)))\<lparr>bwakes := []\<rparr>\<rparr>, iwakes := []\<rparr>,
     fwakes := [], kcon := (kcon s)\<lparr>cwakes := [], uart := (uart (kcon s))\<lparr>uwakes := []\<rparr>\<rparr>\<rparr>"

definition deliver :: "nat option \<Rightarrow> kern \<Rightarrow> kern" where
  "deliver cur s = no_pending (fold (wakeup cur) (pending s) s)"

text \<open>\<^verbatim>\<open>sched\<close>: the processor state is given by whether it holds the process's lock, its depth and its interrupt flag.\<close>

definition sched :: "bool \<Rightarrow> int \<Rightarrow> bool \<Rightarrow> nat \<Rightarrow> kern \<Rightarrow> (unit, kern) res" where
  "sched holds noff intr p s =
     (if \<not> holds then Panic ''sched p->lock''
      else if noff \<noteq> 1 then Panic ''sched locks''
      else if p_state (procs s p) = RUNNING then Panic ''sched running''
      else if intr then Panic ''sched interruptible''
      else Ret () s)"

definition yield :: "nat \<Rightarrow> kern \<Rightarrow> (unit, kern) res" where
  "yield p s = sched True 1 False p (upd_proc p (p_state_update (\<lambda>_. RUNNABLE)) s)"

text \<open>
  \<^verbatim>\<open>sleep\<close> up to the switch, and what it does when the process runs again. \<open>depth\<close> counts the spin locks
  the caller holds apart from \<open>lk\<close>, which is released.
\<close>

definition sleep :: "int \<Rightarrow> chan \<Rightarrow> nat \<Rightarrow> kern \<Rightarrow> (unit, kern) res" where
  "sleep depth ch p s =
     sched True (depth + 1) False p (upd_proc p (\<lambda>x. x\<lparr>p_chan := Some ch, p_state := SLEEPING\<rparr>) s)"

definition sleep_done :: "nat \<Rightarrow> kern \<Rightarrow> kern" where
  "sleep_done p s = upd_proc p (p_chan_update (\<lambda>_. None)) s"

text \<open>One step of \<^verbatim>\<open>scheduler\<close>: a runnable process is chosen.\<close>

definition run_proc :: "nat \<Rightarrow> kern \<Rightarrow> kern option" where
  "run_proc p s =
     (if p < NPROC \<and> p_state (procs s p) = RUNNABLE then Some (upd_proc p (p_state_update (\<lambda>_. RUNNING)) s) else None)"

text \<open>The pass of \<^verbatim>\<open>scheduler\<close> over the table, when no process changes state in between: the first runnable process from \<open>p\<close> on.\<close>

definition pick :: "nat \<Rightarrow> kern \<Rightarrow> nat option" where
  "pick p s = find (\<lambda>q. p_state (procs s q) = RUNNABLE) [p..<NPROC]"

definition kill :: "int \<Rightarrow> kern \<Rightarrow> int \<times> kern" where
  "kill pid s =
     (case find (\<lambda>p. p_pid (procs s p) = pid) [0..<NPROC] of
        None \<Rightarrow> (-1, s)
      | Some p \<Rightarrow> (0, upd_proc p (\<lambda>x. x\<lparr>p_killed := True,
          p_state := (if p_state x = SLEEPING then RUNNABLE else p_state x)\<rparr>) s))"

definition setkilled :: "nat \<Rightarrow> kern \<Rightarrow> kern" where
  "setkilled p s = upd_proc p (p_killed_update (\<lambda>_. True)) s"

definition killed :: "nat \<Rightarrow> kern \<Rightarrow> bool" where
  "killed p s = p_killed (procs s p)"

section \<open>Allocation\<close>

definition proc_pagetable :: "u64 \<Rightarrow> u64 \<Rightarrow> kmem \<Rightarrow> (u64, kmem) res" where
  "proc_pagetable trampoline trapframe s =
     bnd (uvmcreate s) (\<lambda>pagetable s.
       if pagetable = 0 then Ret 0 s
       else bnd (mappages pagetable TRAMPOLINE 4096 trampoline (PTE_R OR PTE_X) s) (\<lambda>r s.
         if r < 0 then bnd (uvmfree pagetable 0 s) (\<lambda>_ s. Ret 0 s)
         else bnd (mappages pagetable TRAPFRAME 4096 trapframe (PTE_R OR PTE_W) s) (\<lambda>r s.
           if r < 0 then
             bnd (uvmunmap pagetable TRAMPOLINE 1 False s) (\<lambda>_ s. bnd (uvmfree pagetable 0 s) (\<lambda>_ s. Ret 0 s))
           else Ret pagetable s)))"

definition proc_freepagetable :: "u64 \<Rightarrow> u64 \<Rightarrow> kmem \<Rightarrow> (unit, kmem) res" where
  "proc_freepagetable pagetable sz s =
     bnd (uvmunmap pagetable TRAMPOLINE 1 False s) (\<lambda>_ s.
     bnd (uvmunmap pagetable TRAPFRAME 1 False s) (\<lambda>_ s. uvmfree pagetable sz s))"

definition clear_vm_area :: "caller \<Rightarrow> nat \<Rightarrow> nat \<Rightarrow> u64 \<Rightarrow> kern \<Rightarrow> (unit, kern) res" where
  "clear_vm_area c p i pagetable s =
     bnd (release_area c (p_areas (procs s p) i) pagetable s) (\<lambda>_ s.
       Ret () (upd_proc p (p_areas_update (\<lambda>a. a(i := no_area))) s))"

primrec proc_free_vmareas_loop :: "nat list \<Rightarrow> caller \<Rightarrow> nat \<Rightarrow> u64 \<Rightarrow> kern \<Rightarrow> (unit, kern) res" where
  "proc_free_vmareas_loop [] c p pagetable s = Ret () s"
| "proc_free_vmareas_loop (i # is) c p pagetable s =
     bnd (if va_length (p_areas (procs s p) i) > 0 then clear_vm_area c p i pagetable s else Ret () s) (\<lambda>_ s.
       proc_free_vmareas_loop is c p pagetable s)"

definition proc_free_vmareas :: "caller \<Rightarrow> nat \<Rightarrow> u64 \<Rightarrow> kern \<Rightarrow> (unit, kern) res" where
  "proc_free_vmareas c p pagetable s = proc_free_vmareas_loop [0..<NVMA] c p pagetable s"

text \<open>The last loop of \<^verbatim>\<open>freeproc\<close> looks at \<^verbatim>\<open>proc->vm_areas\<close>, the areas of the first process of the table.\<close>

primrec freeproc_check :: "nat list \<Rightarrow> kern \<Rightarrow> kern" where
  "freeproc_check [] s = s"
| "freeproc_check (i # is) s = freeproc_check is
     (if va_length (p_areas (procs s 0) i) \<noteq> 0 then
        say ''freeproc: vma not released when exit'' (upd_proc 0 (p_areas_update (\<lambda>a. a(i := no_area))) s)
      else s)"

definition freeproc :: "caller \<Rightarrow> nat \<Rightarrow> kern \<Rightarrow> (unit, kern) res" where
  "freeproc c p s =
     bnd (if p_trapframe (procs s p) \<noteq> 0 then on_km (kfree (p_trapframe (procs s p))) s else Ret () s) (\<lambda>_ s.
     let s = upd_proc p (p_trapframe_update (\<lambda>_. 0)) s in
     bnd (if p_pagetable (procs s p) \<noteq> 0 then
            bnd (proc_free_vmareas c p (p_pagetable (procs s p)) s) (\<lambda>_ s.
              on_km (proc_freepagetable (p_pagetable (procs s p)) (p_sz (procs s p))) s)
          else Ret () s) (\<lambda>_ s.
     Ret () (freeproc_check [0..<NVMA] (upd_proc p (\<lambda>x. x\<lparr>p_pagetable := 0, p_sz := 0, p_pid := 0, p_parent := None,
       p_name := (p_name x)(0 := 0), p_chan := None, p_killed := False, p_xstate := 0, p_state := UNUSED\<rparr>) s))))"

definition allocproc :: "caller \<Rightarrow> kern \<Rightarrow> (nat option, kern) res" where
  "allocproc c s =
     (case find (\<lambda>p. p_state (procs s p) = UNUSED) [0..<NPROC] of
        None \<Rightarrow> Ret None s
      | Some p \<Rightarrow>
          let (pid, s) = allocpid s; s = upd_proc p (\<lambda>x. x\<lparr>p_pid := pid, p_state := USED\<rparr>) s in
          bnd (on_km kalloc s) (\<lambda>tf s.
          let s = upd_proc p (p_trapframe_update (\<lambda>_. tf)) s in
          if tf = 0 then bnd (freeproc c p s) (\<lambda>_ s. Ret None s)
          else bnd (on_km (proc_pagetable (tramp s) tf) s) (\<lambda>pt s.
            let s = upd_proc p (p_pagetable_update (\<lambda>_. pt)) s in
            if pt = 0 then bnd (freeproc c p s) (\<lambda>_ s. Ret None s)
            else if \<exists>i \<in> set [0..<NVMA]. va_length (p_areas (procs s 0) i) \<noteq> 0 then
              Panic ''allocproc: vma contains data''
            else
              let s = upd_proc 0 (p_next_start_update (\<lambda>_. 0)) s;
                  s = upd_proc p (\<lambda>x. x\<lparr>p_ra := forkret_pc s, p_sp := p_kstack x + 4096\<rparr>) s
              in Ret (Some p) s)))"

definition initcode :: "u8 list" where
  "initcode = [0x17, 0x05, 0x00, 0x00, 0x13, 0x05, 0x45, 0x02,
     0x97, 0x05, 0x00, 0x00, 0x93, 0x85, 0x35, 0x02,
     0x93, 0x08, 0x70, 0x00, 0x73, 0x00, 0x00, 0x00,
     0x93, 0x08, 0x20, 0x00, 0x73, 0x00, 0x00, 0x00,
     0xef, 0xf0, 0x9f, 0xff, 0x2f, 0x69, 0x6e, 0x69,
     0x74, 0x00, 0x00, 0x24, 0x00, 0x00, 0x00, 0x00,
     0x00, 0x00, 0x00, 0x00]"

definition bytes_of :: "string \<Rightarrow> u8 list" where
  "bytes_of cs = map (\<lambda>c. of_nat (of_char c)) cs"

definition cstr :: "u8 list \<Rightarrow> nat \<Rightarrow> u8" where
  "cstr xs = (\<lambda>i. if i < length xs then xs ! i else 0)"

text \<open>\<^verbatim>\<open>userinit\<close> uses the result of \<^verbatim>\<open>allocproc\<close> unchecked; a null pointer is a trap in the kernel.\<close>

definition userinit :: "kern \<Rightarrow> (unit, kern) res" where
  "userinit s =
     (let c = \<lparr>wpid = 0, wpt = 0, wkilled = False\<rparr> in
      bnd (allocproc c s) (\<lambda>po s.
      case po of None \<Rightarrow> Panic ''kerneltrap'' | Some p \<Rightarrow>
        let s = s\<lparr>initproc := Some p\<rparr> in
        bnd (on_km (uvmfirst (p_pagetable (procs s p)) (cstr initcode) (of_nat (length initcode))) s) (\<lambda>_ s.
        let s = upd_proc p (p_sz_update (\<lambda>_. 4096)) s;
            s = tf_set p 48 4096 (tf_set p 24 0 s);
            s = upd_proc p (p_name_update (\<lambda>n. safestrcpy n (cstr (bytes_of ''initcode'')) 16)) s in
        bnd (on_fs (namei (who_of c) 0 (bytes_of ''/'')) s) (\<lambda>ip s.
        Ret () (upd_proc p (\<lambda>x. x\<lparr>p_cwd := ip, p_state := RUNNABLE\<rparr>) s)))))"

definition growproc :: "int \<Rightarrow> nat \<Rightarrow> kern \<Rightarrow> (int, kern) res" where
  "growproc n p s =
     (let sz = p_sz (procs s p); pt = p_pagetable (procs s p) in
      if n > 0 then
        bnd (on_km (uvmalloc pt sz (sz + of_int n) PTE_W) s) (\<lambda>sz s.
          if sz = 0 then Ret (-1) s else Ret 0 (upd_proc p (p_sz_update (\<lambda>_. sz)) s))
      else if n < 0 then
        bnd (on_km (uvmdealloc pt sz (sz + of_int n)) s) (\<lambda>sz s. Ret 0 (upd_proc p (p_sz_update (\<lambda>_. sz)) s))
      else Ret 0 (upd_proc p (p_sz_update (\<lambda>_. sz)) s))"

section \<open>Fork, exit, wait\<close>

primrec fork_areas :: "nat list \<Rightarrow> nat \<Rightarrow> nat \<Rightarrow> kern \<Rightarrow> (unit, kern) res" where
  "fork_areas [] p np s = Ret () s"
| "fork_areas (i # is) p np s =
     (let a = p_areas (procs s p) i; s = upd_proc np (p_areas_update (\<lambda>f. f(i := a))) s in
      bnd (if va_length a > 0 then
             (case va_fptr a of None \<Rightarrow> Panic ''kerneltrap'' | Some f \<Rightarrow> bnd (filedup f s) (\<lambda>_ s. Ret () s))
           else Ret () s) (\<lambda>_ s. fork_areas is p np s))"

primrec fork_files :: "nat list \<Rightarrow> nat \<Rightarrow> nat \<Rightarrow> kern \<Rightarrow> (unit, kern) res" where
  "fork_files [] p np s = Ret () s"
| "fork_files (i # is) p np s =
     (case p_ofile (procs s p) i of
        None \<Rightarrow> fork_files is p np s
      | Some f \<Rightarrow> bnd (filedup f s) (\<lambda>f s. fork_files is p np (upd_proc np (p_ofile_update (\<lambda>o'. o'(i := Some f))) s)))"

definition copy_trapframe :: "nat \<Rightarrow> nat \<Rightarrow> kern \<Rightarrow> kern" where
  "copy_trapframe p np s = s\<lparr>kfs := (kfs s)\<lparr>fmem := (fmem (kfs s))\<lparr>phys :=
     (let m = phys (fmem (kfs s)) in
      put_bytes 288 m (p_trapframe (procs s np)) (\<lambda>i. m (p_trapframe (procs s p) + of_nat i)))\<rparr>\<rparr>\<rparr>"

text \<open>The current directory of a process in \<^verbatim>\<open>fork\<close> is never null.\<close>

definition fork :: "nat \<Rightarrow> kern \<Rightarrow> (int, kern) res" where
  "fork p s =
     bnd (allocproc (me p s) s) (\<lambda>npo s.
     case npo of None \<Rightarrow> Ret (-1) s | Some np \<Rightarrow>
       bnd (on_km (uvmcopy (p_pagetable (procs s p)) (p_pagetable (procs s np)) (p_sz (procs s p))) s) (\<lambda>r s.
       if r < 0 then bnd (freeproc (me p s) np s) (\<lambda>_ s. Ret (-1) s)
       else
         let s = upd_proc np (p_sz_update (\<lambda>_. p_sz (procs s p))) s in
         bnd (fork_areas [0..<NVMA] p np s) (\<lambda>_ s.
         let s = upd_proc np (p_next_start_update (\<lambda>_. p_next_start (procs s p))) s;
             s = tf_set np 112 0 (copy_trapframe p np s) in
         bnd (fork_files [0..<NOFILE] p np s) (\<lambda>_ s.
         case p_cwd (procs s p) of None \<Rightarrow> Panic ''kerneltrap'' | Some d \<Rightarrow>
           let s = s\<lparr>kfs := idup d (kfs s)\<rparr>;
               s = upd_proc np (\<lambda>x. x\<lparr>p_cwd := Some d, p_name := safestrcpy (p_name x) (p_name (procs s p)) 16\<rparr>) s;
               pid = p_pid (procs s np)
           in Ret pid (upd_proc np (\<lambda>x. x\<lparr>p_parent := Some p, p_state := RUNNABLE\<rparr>) s)))))"

definition initchan :: "kern \<Rightarrow> chan" where
  "initchan s = (case initproc s of None \<Rightarrow> ChProc NPROC | Some p \<Rightarrow> ChProc p)"

primrec reparent_loop :: "nat list \<Rightarrow> nat \<Rightarrow> kern \<Rightarrow> kern" where
  "reparent_loop [] p s = s"
| "reparent_loop (q # qs) p s = reparent_loop qs p
     (if p_parent (procs s q) = Some p then
        wakeup (Some p) (initchan s) (upd_proc q (p_parent_update (\<lambda>_. initproc s)) s)
      else s)"

definition reparent :: "nat \<Rightarrow> kern \<Rightarrow> kern" where
  "reparent p s = reparent_loop [0..<NPROC] p s"

primrec exit_files :: "nat list \<Rightarrow> nat \<Rightarrow> kern \<Rightarrow> (unit, kern) res" where
  "exit_files [] p s = Ret () s"
| "exit_files (fd # fds) p s =
     (case p_ofile (procs s p) fd of
        None \<Rightarrow> exit_files fds p s
      | Some f \<Rightarrow> bnd (fileclose (me p s) f s) (\<lambda>_ s.
          exit_files fds p (upd_proc p (p_ofile_update (\<lambda>o'. o'(fd := None))) s)))"

text \<open>The part of \<^verbatim>\<open>exit\<close> that runs under \<^verbatim>\<open>wait_lock\<close>: the children go to init, the parent is woken, the process is a zombie.\<close>

definition exit_finish :: "u32 \<Rightarrow> nat \<Rightarrow> kern \<Rightarrow> kern" where
  "exit_finish status p s =
     (let s = reparent p s;
          s = (case p_parent (procs s p) of None \<Rightarrow> s | Some q \<Rightarrow> wakeup (Some p) (ChProc q) s)
      in upd_proc p (\<lambda>x. x\<lparr>p_xstate := status, p_state := ZOMBIE\<rparr>) s)"

definition exit :: "u32 \<Rightarrow> nat \<Rightarrow> kern \<Rightarrow> ('a, kern) res" where
  "exit status p s =
     (if initproc s = Some p then Panic ''init exiting''
      else bnd (proc_free_vmareas (me p s) p (p_pagetable (procs s p)) s) (\<lambda>_ s.
        bnd (exit_files [0..<NOFILE] p s) (\<lambda>_ s.
        bnd (kbegin_op s) (\<lambda>_ s.
        case p_cwd (procs s p) of None \<Rightarrow> Panic ''kerneltrap'' | Some d \<Rightarrow>
          bnd (on_fs (iput (who_of (me p s)) d) s) (\<lambda>_ s.
          bnd (kend_op (me p s) s) (\<lambda>_ s.
          let s = upd_proc p (p_cwd_update (\<lambda>_. None)) s in
          Exit (exit_finish status p s)))))))"

text \<open>One pass of the loop of \<^verbatim>\<open>wait\<close>; it sleeps on the process's own address.\<close>

definition wait :: "u64 \<Rightarrow> nat \<Rightarrow> kern \<Rightarrow> (int, kern) res" where
  "wait addr p s =
     (case find (\<lambda>q. p_parent (procs s q) = Some p \<and> p_state (procs s q) = ZOMBIE) [0..<NPROC] of
        Some q \<Rightarrow>
          let pid = p_pid (procs s q) in
          bnd (if addr \<noteq> 0 then
                 on_km (copyout (p_pagetable (procs s p)) addr (\<lambda>i. byte i (p_xstate (procs s q))) 4) s
               else Ret 0 s) (\<lambda>r s.
          if r < 0 then Ret (-1) s
          else bnd (freeproc (me p s) q s) (\<lambda>_ s. Ret pid s))
      | None \<Rightarrow>
          if (\<forall>q \<in> set [0..<NPROC]. p_parent (procs s q) \<noteq> Some p) \<or> p_killed (procs s p) then Ret (-1) s
          else Sleep (ChProc p) s)"

text \<open>The first scheduling of the first process reads the file system's super block and recovers the log.\<close>

definition forkret :: "nat \<Rightarrow> kern \<Rightarrow> (unit, kern) res" where
  "forkret p s =
     (if \<not> fs_ready s then bnd (on_fs (fsinit (who_of (me p s)) ROOTDEV) s) (\<lambda>_ s. Ret () (s\<lparr>fs_ready := True\<rparr>))
      else Ret () s)"

text \<open>The listing of \<^verbatim>\<open>procdump\<close>: pid, state and name of every used slot.\<close>

definition state_name :: "procstate \<Rightarrow> string" where
  "state_name st = (case st of UNUSED \<Rightarrow> ''unused'' | USED \<Rightarrow> ''used'' | SLEEPING \<Rightarrow> ''sleep '' | RUNNABLE \<Rightarrow> ''runble''
     | RUNNING \<Rightarrow> ''run   '' | ZOMBIE \<Rightarrow> ''zombie'')"

definition procdump :: "kern \<Rightarrow> (int \<times> string \<times> (nat \<Rightarrow> u8)) list" where
  "procdump s = map (\<lambda>p. (p_pid (procs s p), state_name (p_state (procs s p)), p_name (procs s p)))
     (filter (\<lambda>p. p_state (procs s p) \<noteq> UNUSED) [0..<NPROC])"

end
