(* ===== verification/Exec.thy ===== *)
theory Exec
  imports Proc
begin

text \<open>
  Fetching system call arguments (\<^verbatim>\<open>kernel/syscall.c\<close>) and program execution (\<^verbatim>\<open>kernel/exec.c\<close>).
\<close>

section \<open>Arguments\<close>

abbreviation (input) MAXPATH :: nat where "MAXPATH \<equiv> 128"
abbreviation (input) MAXARG :: nat where "MAXARG \<equiv> 32"

definition argraw :: "nat \<Rightarrow> nat \<Rightarrow> kern \<Rightarrow> (u64, kern) res" where
  "argraw n p s = (if n \<le> 5 then Ret (tf_get p (112 + 8 * of_nat n) s) s else Panic ''argraw'')"

definition argint :: "nat \<Rightarrow> nat \<Rightarrow> kern \<Rightarrow> (u32, kern) res" where
  "argint n p s = bnd (argraw n p s) (\<lambda>v s. Ret (ucast v) s)"

definition argaddr :: "nat \<Rightarrow> nat \<Rightarrow> kern \<Rightarrow> (u64, kern) res" where
  "argaddr n p s = argraw n p s"

text \<open>A 64-bit word of an object of the calling C function.\<close>

definition get64 :: "(nat \<Rightarrow> u8) \<Rightarrow> nat \<Rightarrow> u64" where
  "get64 f i = le64 (ld32 f i) (ld32 f (i + 4))"

definition fetchaddr :: "u64 \<Rightarrow> nat \<Rightarrow> kern \<Rightarrow> (u64 option, kern) res" where
  "fetchaddr addr p s =
     (let sz = p_sz (procs s p) in
      if addr \<ge> sz \<or> addr + 8 > sz then Ret None s
      else bnd (on_km (copyin (p_pagetable (procs s p)) (\<lambda>_. 0) 0 addr 8) s) (\<lambda>(r, d) s.
        Ret (if r \<noteq> 0 then None else Some (get64 d 0)) s))"

text \<open>
  The result of \<^verbatim>\<open>fetchstr\<close> is the string without its terminator, whose length the C function returns, together with the
  content of the buffer.
\<close>

definition fetchstr :: "u64 \<Rightarrow> (nat \<Rightarrow> u8) \<Rightarrow> nat \<Rightarrow> nat \<Rightarrow> kern \<Rightarrow> (u8 list option \<times> (nat \<Rightarrow> u8), kern) res" where
  "fetchstr addr buf mx p s =
     bnd (on_km (copyinstr (p_pagetable (procs s p)) buf 0 addr (of_nat mx)) s) (\<lambda>(r, d) s.
       if r < 0 then Ret (None, d) s
       else case strlen d of None \<Rightarrow> Diverge | Some n \<Rightarrow> Ret (Some (map d [0..<n]), d) s)"

definition argstr :: "nat \<Rightarrow> nat \<Rightarrow> nat \<Rightarrow> kern \<Rightarrow> (u8 list option, kern) res" where
  "argstr n mx p s =
     bnd (argaddr n p s) (\<lambda>addr s. bnd (fetchstr addr (\<lambda>_. 0) mx p s) (\<lambda>(r, _) s. Ret r s))"

section \<open>Program execution\<close>

abbreviation (input) ELF_MAGIC :: u32 where "ELF_MAGIC \<equiv> 0x464C457F"

definition flags2perm :: "u32 \<Rightarrow> u64" where
  "flags2perm flags =
     (let perm = (if flags AND 1 \<noteq> 0 then PTE_X else 0) in if flags AND 2 \<noteq> 0 then perm OR PTE_W else perm)"

text \<open>The segment is loaded page by page; \<open>i\<close> counts bytes in a 32-bit word.\<close>

function loadseg_loop :: "caller \<Rightarrow> u64 \<Rightarrow> u64 \<Rightarrow> nat \<Rightarrow> u32 \<Rightarrow> u32 \<Rightarrow> u32 \<Rightarrow> kern \<Rightarrow> (int, kern) res" where
  "loadseg_loop c pagetable va ip offset i sz s =
     (if i < sz then
        bnd (on_km (walkaddr pagetable (va + ucast i)) s) (\<lambda>pa s.
          if pa = 0 then Panic ''loadseg: address should exist''
          else
            let n = (if sz - i < 4096 then sz - i else 4096) in
            bnd (on_fs (readi (who_of c) ip (ToPhys pa) (offset + i) n) s) (\<lambda>(r, _) s.
              if of_int r \<noteq> n then Ret (-1) s
              else if i + 4096 < i then Diverge else loadseg_loop c pagetable va ip offset (i + 4096) sz s))
      else Ret 0 s)"
  by pat_completeness auto

lemma page_up_less32: "\<not> (i + 4096 < (i :: u32)) \<Longrightarrow> 2 ^ 32 - unat (i + 4096) < 2 ^ 32 - unat i"
proof -
  assume "\<not> (i + 4096 < i)"
  then have "unat i \<le> unat (i + 4096)" by (simp add: word_le_nat_alt not_less)
  moreover have "unat (i + 4096) \<noteq> unat i" by (simp add: word_unat_eq_iff[symmetric])
  moreover have "unat (i + 4096) < 2 ^ 32" by (rule unat_less_u32)
  ultimately show ?thesis by linarith
qed

termination loadseg_loop
  by (relation "measure (\<lambda>(c, pt, va, ip, offset, i, sz, s). 2 ^ 32 - unat i)") (auto simp: page_up_less32[simplified])

declare loadseg_loop.simps [simp del]

definition loadseg :: "caller \<Rightarrow> u64 \<Rightarrow> u64 \<Rightarrow> nat \<Rightarrow> u32 \<Rightarrow> u32 \<Rightarrow> kern \<Rightarrow> (int, kern) res" where
  "loadseg c pagetable va ip offset sz s = loadseg_loop c pagetable va ip offset 0 sz s"

text \<open>The loop over the program headers; the result is the new size, and whether all went well.\<close>

primrec exec_load :: "nat list \<Rightarrow> caller \<Rightarrow> nat \<Rightarrow> u32 \<Rightarrow> u64 \<Rightarrow> u64 \<Rightarrow> kern \<Rightarrow> (bool \<times> u64, kern) res" where
  "exec_load [] c ip phoff pagetable sz s = Ret (True, sz) s"
| "exec_load (i # is) c ip phoff pagetable sz s =
     bnd (on_fs (readi (who_of c) ip (ToLocal (\<lambda>_. 0) 0) (phoff + 56 * of_nat i) 56) s) (\<lambda>(r, d) s.
       let ph = local_of d; vaddr = get64 ph 16; filesz = get64 ph 32; memsz = get64 ph 40 in
       if r \<noteq> 56 then Ret (False, sz) s
       else if ld32 ph 0 \<noteq> 1 then exec_load is c ip phoff pagetable sz s
       else if memsz < filesz \<or> vaddr + memsz < vaddr \<or> vaddr mod 4096 \<noteq> 0 then Ret (False, sz) s
       else bnd (on_km (uvmalloc pagetable sz (vaddr + memsz) (flags2perm (ld32 ph 4))) s) (\<lambda>sz1 s.
         if sz1 = 0 then Ret (False, sz) s
         else bnd (loadseg c pagetable vaddr ip (ucast (get64 ph 8)) (ucast filesz) s) (\<lambda>r s.
           if r < 0 then Ret (False, sz1) s else exec_load is c ip phoff pagetable sz1 s)))"

text \<open>The label \<^verbatim>\<open>bad\<close>.\<close>

definition exec_bad :: "caller \<Rightarrow> u64 \<Rightarrow> u64 \<Rightarrow> nat option \<Rightarrow> kern \<Rightarrow> (int, kern) res" where
  "exec_bad c pagetable sz ipo s =
     bnd (if pagetable \<noteq> 0 then on_km (proc_freepagetable pagetable sz) s else Ret () s) (\<lambda>_ s.
     case ipo of
       None \<Rightarrow> Ret (-1) s
     | Some ip \<Rightarrow> bnd (on_fs (iunlockput (who_of c) ip) s) (\<lambda>_ s. bnd (kend_op c s) (\<lambda>_ s. Ret (-1) s)))"

text \<open>Pushing the argument strings, which are in pages of the kernel; \<open>ustack\<close> collects their user addresses.\<close>

primrec exec_args :: "u64 list \<Rightarrow> u64 \<Rightarrow> u64 \<Rightarrow> u64 \<Rightarrow> u64 list \<Rightarrow> kern \<Rightarrow> ((u64 \<times> u64 list) option, kern) res" where
  "exec_args [] pagetable stackbase sp ustack s = Ret (Some (sp, ustack)) s"
| "exec_args (a # as) pagetable stackbase sp ustack s =
     (if length ustack \<ge> MAXARG then Ret None s
      else
        let str = (\<lambda>i. phys (fmem (kfs s)) (a + of_nat i)) in
        case strlen str of None \<Rightarrow> Diverge | Some n \<Rightarrow>
          let sp = sp - (of_nat n + 1); sp = sp - sp mod 16 in
          if sp < stackbase then Ret None s
          else bnd (on_km (copyout pagetable sp str (of_nat n + 1)) s) (\<lambda>r s.
            if r < 0 then Ret None s else exec_args as pagetable stackbase sp (ustack @ [sp]) s))"

definition last_elem :: "u8 list \<Rightarrow> u8 list" where
  "last_elem path = rev (takeWhile (\<lambda>c. c \<noteq> SLASH) (rev path))"

text \<open>From the point where the program is loaded: the stack, the arguments and the commit to the new image.\<close>

definition exec_commit :: "u8 list \<Rightarrow> u64 list \<Rightarrow> u64 \<Rightarrow> u64 \<Rightarrow> u64 \<Rightarrow> nat \<Rightarrow> kern \<Rightarrow> (int, kern) res" where
  "exec_commit path argv entry pagetable sz p s =
     (let oldsz = p_sz (procs s p); sz = PGROUNDUP sz in
      bnd (on_km (uvmalloc pagetable sz (sz + 2 * 4096) PTE_W) s) (\<lambda>sz1 s.
      if sz1 = 0 then exec_bad (me p s) pagetable sz None s
      else
        let sz = sz1; stackbase = sz - 4096 in
        bnd (on_km (uvmclear pagetable (sz - 2 * 4096)) s) (\<lambda>_ s.
        bnd (exec_args argv pagetable stackbase sz [] s) (\<lambda>args s.
        case args of None \<Rightarrow> exec_bad (me p s) pagetable sz None s | Some (sp, ustack) \<Rightarrow>
          let argc = length ustack; sp = sp - (of_nat argc + 1) * 8; sp = sp - sp mod 16;
              words = ustack @ [0] in
          if sp < stackbase then exec_bad (me p s) pagetable sz None s
          else bnd (on_km (copyout pagetable sp (\<lambda>i. byte (i mod 8) (words ! (i div 8))) ((of_nat argc + 1) * 8)) s) (\<lambda>r s.
            if r < 0 then exec_bad (me p s) pagetable sz None s
            else
              let s = tf_set p 120 sp s;
                  s = upd_proc p (p_name_update (\<lambda>n. safestrcpy n (cstr (last_elem path)) 16)) s;
                  oldpagetable = p_pagetable (procs s p);
                  s = upd_proc p (\<lambda>x. x\<lparr>p_pagetable := pagetable, p_sz := sz\<rparr>) s;
                  s = tf_set p 48 sp (tf_set p 24 entry s)
              in bnd (proc_free_vmareas (me p s) p oldpagetable s) (\<lambda>_ s.
                 bnd (on_km (proc_freepagetable oldpagetable oldsz) s) (\<lambda>_ s.
                 Ret (int argc) s)))))))"

definition exec :: "u8 list \<Rightarrow> u64 list \<Rightarrow> nat \<Rightarrow> kern \<Rightarrow> (int, kern) res" where
  "exec path argv p s =
     (let c = me p s in
      bnd (kbegin_op s) (\<lambda>_ s.
      bnd (on_fs (namei (who_of c) (the_default 0 (p_cwd (procs s p))) path) s) (\<lambda>ipo s.
      case ipo of None \<Rightarrow> bnd (kend_op c s) (\<lambda>_ s. Ret (-1) s) | Some ip \<Rightarrow>
        bnd (on_fs (ilock (who_of c) (Some ip)) s) (\<lambda>_ s.
        bnd (on_fs (readi (who_of c) ip (ToLocal (\<lambda>_. 0) 0) 0 64) s) (\<lambda>(r, d) s.
        let elf = local_of d in
        if r \<noteq> 64 \<or> ld32 elf 0 \<noteq> ELF_MAGIC then exec_bad c 0 0 (Some ip) s
        else bnd (on_km (proc_pagetable (tramp s) (p_trapframe (procs s p))) s) (\<lambda>pagetable s.
          if pagetable = 0 then exec_bad c 0 0 (Some ip) s
          else bnd (exec_load [0..<unat (ld16 elf 56)] c ip (ucast (get64 elf 32)) pagetable 0 s) (\<lambda>(ok, sz) s.
            if \<not> ok then exec_bad c pagetable sz (Some ip) s
            else bnd (on_fs (iunlockput (who_of c) ip) s) (\<lambda>_ s.
              bnd (kend_op c s) (\<lambda>_ s.
              exec_commit path argv (get64 elf 24) pagetable sz p s)))))))))"

end
