(* ===== verification/Sysfile.thy ===== *)
theory Sysfile
  imports Exec
begin

text \<open>
  The file system calls, \<^verbatim>\<open>kernel/sysfile.c\<close>. \<open>p\<close> is the calling process; a result is the 64-bit value that
  goes into its register \<^verbatim>\<open>a0\<close>, with -1 for an error. Messages are recorded by their format strings.
\<close>

section \<open>Descriptors\<close>

definition fs_do :: "nat \<Rightarrow> (who \<Rightarrow> fs \<Rightarrow> ('a, fs) res) \<Rightarrow> kern \<Rightarrow> ('a, kern) res" where
  "fs_do p f s = on_fs (f (who_of (me p s))) s"

definition begin_tx :: "kern \<Rightarrow> (unit, kern) res" where
  "begin_tx s = kbegin_op s"

definition end_tx :: "nat \<Rightarrow> 'a \<Rightarrow> kern \<Rightarrow> ('a, kern) res" where
  "end_tx p r s = bnd (kend_op (me p s) s) (\<lambda>_ s. Ret r s)"

definition cwd_of :: "nat \<Rightarrow> kern \<Rightarrow> nat" where
  "cwd_of p s = the_default 0 (p_cwd (procs s p))"

definition argfd :: "nat \<Rightarrow> nat \<Rightarrow> kern \<Rightarrow> ((nat \<times> nat) option, kern) res" where
  "argfd n p s =
     bnd (argint n p s) (\<lambda>v s.
       let fd = sint v in
       if fd < 0 \<or> fd \<ge> int NOFILE then Ret None s
       else Ret (case p_ofile (procs s p) (nat fd) of None \<Rightarrow> None | Some f \<Rightarrow> Some (nat fd, f)) s)"

definition fdalloc :: "nat \<Rightarrow> nat \<Rightarrow> kern \<Rightarrow> nat option \<times> kern" where
  "fdalloc f p s =
     (case find (\<lambda>fd. p_ofile (procs s p) fd = None) [0..<NOFILE] of
        None \<Rightarrow> (None, s)
      | Some fd \<Rightarrow> (Some fd, upd_proc p (p_ofile_update (\<lambda>o'. o'(fd := Some f))) s))"

definition sys_dup :: "nat \<Rightarrow> kern \<Rightarrow> (u64, kern) res" where
  "sys_dup p s =
     bnd (argfd 0 p s) (\<lambda>a s.
       case a of None \<Rightarrow> Ret (-1) s | Some (_, f) \<Rightarrow>
         case fdalloc f p s of
           (None, s) \<Rightarrow> Ret (-1) s
         | (Some fd, s) \<Rightarrow> bnd (filedup f s) (\<lambda>_ s. Ret (of_nat fd) s))"

definition sys_read :: "nat \<Rightarrow> kern \<Rightarrow> (u64, kern) res" where
  "sys_read p s =
     bnd (argaddr 1 p s) (\<lambda>a s. bnd (argint 2 p s) (\<lambda>n s. bnd (argfd 0 p s) (\<lambda>fd s.
       case fd of None \<Rightarrow> Ret (-1) s
       | Some (_, f) \<Rightarrow> bnd (fileread (me p s) f a (sint n) s) (\<lambda>r s. Ret (of_int r) s))))"

definition sys_write :: "nat \<Rightarrow> kern \<Rightarrow> (u64, kern) res" where
  "sys_write p s =
     bnd (argaddr 1 p s) (\<lambda>a s. bnd (argint 2 p s) (\<lambda>n s. bnd (argfd 0 p s) (\<lambda>fd s.
       case fd of None \<Rightarrow> Ret (-1) s
       | Some (_, f) \<Rightarrow> bnd (filewrite (me p s) f a (sint n) s) (\<lambda>r s. Ret (of_int r) s))))"

definition sys_close :: "nat \<Rightarrow> kern \<Rightarrow> (u64, kern) res" where
  "sys_close p s =
     bnd (argfd 0 p s) (\<lambda>a s.
       case a of None \<Rightarrow> Ret (-1) s | Some (fd, f) \<Rightarrow>
         let s = upd_proc p (p_ofile_update (\<lambda>o'. o'(fd := None))) s in
         bnd (fileclose (me p s) f s) (\<lambda>_ s. Ret 0 s))"

definition sys_fstat :: "(nat \<Rightarrow> u8) \<Rightarrow> nat \<Rightarrow> kern \<Rightarrow> (u64, kern) res" where
  "sys_fstat junk p s =
     bnd (argaddr 1 p s) (\<lambda>st s. bnd (argfd 0 p s) (\<lambda>a s.
       case a of None \<Rightarrow> Ret (-1) s
       | Some (_, f) \<Rightarrow> bnd (filestat junk (me p s) f st s) (\<lambda>r s. Ret (of_int r) s)))"

section \<open>Names\<close>

text \<open>The label \<^verbatim>\<open>bad\<close> of \<^verbatim>\<open>sys_link\<close>.\<close>

definition link_bad :: "nat \<Rightarrow> nat \<Rightarrow> kern \<Rightarrow> (u64, kern) res" where
  "link_bad p ip s =
     bnd (fs_do p (\<lambda>c. ilock c (Some ip)) s) (\<lambda>_ s.
     let s = s\<lparr>kfs := upd_inode ip (i_nlink_update (\<lambda>n. n - 1)) (kfs s)\<rparr> in
     bnd (fs_do p (\<lambda>c. iupdate c ip) s) (\<lambda>_ s.
     bnd (fs_do p (\<lambda>c. iunlockput c ip) s) (\<lambda>_ s. end_tx p (-1) s)))"

definition sys_link :: "nat \<Rightarrow> kern \<Rightarrow> (u64, kern) res" where
  "sys_link p s =
     bnd (argstr 0 MAXPATH p s) (\<lambda>old s.
     case old of None \<Rightarrow> Ret (-1) s | Some old \<Rightarrow>
     bnd (argstr 1 MAXPATH p s) (\<lambda>new s.
     case new of None \<Rightarrow> Ret (-1) s | Some new \<Rightarrow>
     bnd (begin_tx s) (\<lambda>_ s.
     bnd (fs_do p (\<lambda>c. namei c (cwd_of p s) old) s) (\<lambda>ipo s.
     case ipo of None \<Rightarrow> end_tx p (-1) s | Some ip \<Rightarrow>
     bnd (fs_do p (\<lambda>c. ilock c (Some ip)) s) (\<lambda>_ s.
     if i_type (itable (kfs s) ip) = T_DIR then
       bnd (fs_do p (\<lambda>c. iunlockput c ip) s) (\<lambda>_ s. end_tx p (-1) s)
     else
       let s = s\<lparr>kfs := upd_inode ip (i_nlink_update (\<lambda>n. n + 1)) (kfs s)\<rparr> in
       bnd (fs_do p (\<lambda>c. iupdate c ip) s) (\<lambda>_ s.
       bnd (fs_do p (\<lambda>c. iunlock c (Some ip)) s) (\<lambda>_ s.
       bnd (fs_do p (\<lambda>c. nameiparent c (cwd_of p s) new (\<lambda>_. 0)) s) (\<lambda>(dpo, name) s.
       case dpo of None \<Rightarrow> link_bad p ip s | Some dp \<Rightarrow>
       bnd (fs_do p (\<lambda>c. ilock c (Some dp)) s) (\<lambda>_ s.
       bnd (if i_dev (itable (kfs s) dp) \<noteq> i_dev (itable (kfs s) ip) then Ret (-1) s
            else fs_do p (\<lambda>c. dirlink c dp name (i_inum (itable (kfs s) ip))) s) (\<lambda>r s.
       bnd (fs_do p (\<lambda>c. iunlockput c dp) s) (\<lambda>_ s.
       if r < 0 then link_bad p ip s
       else bnd (fs_do p (\<lambda>c. iput c ip) s) (\<lambda>_ s. end_tx p 0 s))))))))))))"

primrec isdirempty_loop :: "nat list \<Rightarrow> who \<Rightarrow> nat \<Rightarrow> fs \<Rightarrow> (bool, fs) res" where
  "isdirempty_loop [] c dp s = Ret True s"
| "isdirempty_loop (k # ks) c dp s =
     bnd (read_dirent ''isdirempty: readi'' c dp (of_nat (16 * k)) s) (\<lambda>de s.
       if de_inum de \<noteq> 0 then Ret False s else isdirempty_loop ks c dp s)"

definition isdirempty :: "who \<Rightarrow> nat \<Rightarrow> fs \<Rightarrow> (bool, fs) res" where
  "isdirempty c dp s = isdirempty_loop (filter (\<lambda>k. k \<ge> 2) (dir_slots (i_size (itable s dp)))) c dp s"

definition sys_unlink :: "nat \<Rightarrow> kern \<Rightarrow> (u64, kern) res" where
  "sys_unlink p s =
     bnd (argstr 0 MAXPATH p s) (\<lambda>path s.
     case path of None \<Rightarrow> Ret (-1) s | Some path \<Rightarrow>
     bnd (begin_tx s) (\<lambda>_ s.
     bnd (fs_do p (\<lambda>c. nameiparent c (cwd_of p s) path (\<lambda>_. 0)) s) (\<lambda>(dpo, name) s.
     case dpo of None \<Rightarrow> end_tx p (-1) s | Some dp \<Rightarrow>
     bnd (fs_do p (\<lambda>c. ilock c (Some dp)) s) (\<lambda>_ s.
     let bad = (\<lambda>s. bnd (fs_do p (\<lambda>c. iunlockput c dp) s) (\<lambda>_ s. end_tx p (-1) s)) in
     if namecmp name (cstr (bytes_of ''.'')) = 0 \<or> namecmp name (cstr (bytes_of ''..'')) = 0 then bad s
     else bnd (fs_do p (\<lambda>c. dirlookup c dp name) s) (\<lambda>found s.
       case found of None \<Rightarrow> bad s | Some (ip, off) \<Rightarrow>
       bnd (fs_do p (\<lambda>c. ilock c (Some ip)) s) (\<lambda>_ s.
       if sint (i_nlink (itable (kfs s) ip)) < 1 then Panic ''unlink: nlink < 1''
       else bnd (if i_type (itable (kfs s) ip) = T_DIR then fs_do p (\<lambda>c. isdirempty c ip) s else Ret True s) (\<lambda>empty s.
         if \<not> empty then bnd (fs_do p (\<lambda>c. iunlockput c ip) s) (\<lambda>_ s. bad s)
         else bnd (fs_do p (\<lambda>c. writei c dp (FromLocal (\<lambda>_. 0)) off 16) s) (\<lambda>r s.
           if r \<noteq> 16 then Panic ''unlink: writei''
           else bnd (if i_type (itable (kfs s) ip) = T_DIR then
                       fs_do p (\<lambda>c. iupdate c dp) (s\<lparr>kfs := upd_inode dp (i_nlink_update (\<lambda>n. n - 1)) (kfs s)\<rparr>)
                     else Ret () s) (\<lambda>_ s.
             bnd (fs_do p (\<lambda>c. iunlockput c dp) s) (\<lambda>_ s.
             let s = s\<lparr>kfs := upd_inode ip (i_nlink_update (\<lambda>n. n - 1)) (kfs s)\<rparr> in
             bnd (fs_do p (\<lambda>c. iupdate c ip) s) (\<lambda>_ s.
             bnd (fs_do p (\<lambda>c. iunlockput c ip) s) (\<lambda>_ s. end_tx p 0 s))))))))))))"

text \<open>\<^verbatim>\<open>create\<close>, with its label \<^verbatim>\<open>fail\<close>; \<open>cwd\<close> is the directory relative paths start from.\<close>

definition create_fail :: "who \<Rightarrow> nat \<Rightarrow> nat \<Rightarrow> fs \<Rightarrow> (nat option, fs) res" where
  "create_fail c ip dp s =
     bnd (iupdate c ip (upd_inode ip (i_nlink_update (\<lambda>_. 0)) s)) (\<lambda>_ s.
     bnd (iunlockput c ip s) (\<lambda>_ s. bnd (iunlockput c dp s) (\<lambda>_ s. Ret None s)))"

definition create :: "who \<Rightarrow> nat \<Rightarrow> u8 list \<Rightarrow> u16 \<Rightarrow> u16 \<Rightarrow> u16 \<Rightarrow> fs \<Rightarrow> (nat option, fs) res" where
  "create c cwd path type major minor s =
     bnd (nameiparent c cwd path (\<lambda>_. 0) s) (\<lambda>(dpo, name) s.
     case dpo of None \<Rightarrow> Ret None s | Some dp \<Rightarrow>
     bnd (ilock c (Some dp) s) (\<lambda>_ s.
     bnd (dirlookup c dp name s) (\<lambda>found s.
     case found of
       Some (ip, _) \<Rightarrow>
         bnd (iunlockput c dp s) (\<lambda>_ s.
         bnd (ilock c (Some ip) s) (\<lambda>_ s.
         if type = T_FILE \<and> (i_type (itable s ip) = T_FILE \<or> i_type (itable s ip) = T_DEVICE) then Ret (Some ip) s
         else bnd (iunlockput c ip s) (\<lambda>_ s. Ret None s)))
     | None \<Rightarrow>
         bnd (ialloc c (i_dev (itable s dp)) type s) (\<lambda>ipo s.
         case ipo of None \<Rightarrow> bnd (iunlockput c dp s) (\<lambda>_ s. Ret None s) | Some ip \<Rightarrow>
         bnd (ilock c (Some ip) s) (\<lambda>_ s.
         bnd (iupdate c ip (upd_inode ip (\<lambda>x. x\<lparr>i_major := major, i_minor := minor, i_nlink := 1\<rparr>) s)) (\<lambda>_ s.
         bnd (if type = T_DIR then
                bnd (dirlink c ip (cstr (bytes_of ''.'')) (i_inum (itable s ip)) s) (\<lambda>r s.
                  if r < 0 then Ret r s else dirlink c ip (cstr (bytes_of ''..'')) (i_inum (itable s dp)) s)
              else Ret 0 s) (\<lambda>r s.
         if r < 0 then create_fail c ip dp s
         else bnd (dirlink c dp name (i_inum (itable s ip)) s) (\<lambda>r s.
           if r < 0 then create_fail c ip dp s
           else bnd (if type = T_DIR then iupdate c dp (upd_inode dp (i_nlink_update (\<lambda>n. n + 1)) s) else Ret () s) (\<lambda>_ s.
             bnd (iunlockput c dp s) (\<lambda>_ s. Ret (Some ip) s))))))))))"

section \<open>Opening and making\<close>

abbreviation (input) O_WRONLY :: u32 where "O_WRONLY \<equiv> 1"
abbreviation (input) O_RDWR :: u32 where "O_RDWR \<equiv> 2"
abbreviation (input) O_CREATE :: u32 where "O_CREATE \<equiv> 0x200"
abbreviation (input) O_TRUNC :: u32 where "O_TRUNC \<equiv> 0x400"

text \<open>\<^verbatim>\<open>sys_open\<close> from the point where the inode \<open>ip\<close> is locked.\<close>

definition open_inode :: "nat \<Rightarrow> nat \<Rightarrow> u32 \<Rightarrow> kern \<Rightarrow> (u64, kern) res" where
  "open_inode p ip omode s =
     (let bad = (\<lambda>s. bnd (fs_do p (\<lambda>c. iunlockput c ip) s) (\<lambda>_ s. end_tx p (-1) s)); x = itable (kfs s) ip in
      if i_type x = T_DEVICE \<and> (sint (i_major x) < 0 \<or> sint (i_major x) \<ge> NDEV) then bad s
      else case filealloc s of
        (None, s) \<Rightarrow> bad s
      | (Some f, s) \<Rightarrow>
          (case fdalloc f p s of
             (None, s) \<Rightarrow> bnd (fileclose (me p s) f s) (\<lambda>_ s. bad s)
           | (Some fd, s) \<Rightarrow>
               let s = upd_file f (\<lambda>y. if i_type x = T_DEVICE then y\<lparr>f_type := FD_DEVICE, f_major := i_major x\<rparr>
                     else y\<lparr>f_type := FD_INODE, f_off := 0\<rparr>) s;
                   s = upd_file f (\<lambda>y. y\<lparr>f_ip := ip, f_readable := (omode AND O_WRONLY = 0),
                     f_writable := (omode AND O_WRONLY \<noteq> 0 \<or> omode AND O_RDWR \<noteq> 0)\<rparr>) s in
               bnd (if omode AND O_TRUNC \<noteq> 0 \<and> i_type x = T_FILE then fs_do p (\<lambda>c. itrunc c ip) s else Ret () s) (\<lambda>_ s.
               bnd (fs_do p (\<lambda>c. iunlock c (Some ip)) s) (\<lambda>_ s. end_tx p (of_nat fd) s))))"

definition sys_open :: "nat \<Rightarrow> kern \<Rightarrow> (u64, kern) res" where
  "sys_open p s =
     bnd (argint 1 p s) (\<lambda>omode s.
     bnd (argstr 0 MAXPATH p s) (\<lambda>path s.
     case path of None \<Rightarrow> Ret (-1) s | Some path \<Rightarrow>
     bnd (begin_tx s) (\<lambda>_ s.
     if omode AND O_CREATE \<noteq> 0 then
       bnd (fs_do p (\<lambda>c. create c (cwd_of p s) path T_FILE 0 0) s) (\<lambda>ipo s.
       case ipo of None \<Rightarrow> end_tx p (-1) s | Some ip \<Rightarrow> open_inode p ip omode s)
     else
       bnd (fs_do p (\<lambda>c. namei c (cwd_of p s) path) s) (\<lambda>ipo s.
       case ipo of None \<Rightarrow> end_tx p (-1) s | Some ip \<Rightarrow>
         bnd (fs_do p (\<lambda>c. ilock c (Some ip)) s) (\<lambda>_ s.
         if i_type (itable (kfs s) ip) = T_DIR \<and> omode \<noteq> 0 then
           bnd (fs_do p (\<lambda>c. iunlockput c ip) s) (\<lambda>_ s. end_tx p (-1) s)
         else open_inode p ip omode s)))))"

text \<open>The common part of \<^verbatim>\<open>sys_mkdir\<close> and \<^verbatim>\<open>sys_mknod\<close>.\<close>

definition make_node :: "nat \<Rightarrow> u16 \<Rightarrow> u16 \<Rightarrow> u16 \<Rightarrow> kern \<Rightarrow> (u64, kern) res" where
  "make_node p type major minor s =
     bnd (argstr 0 MAXPATH p s) (\<lambda>path s.
     case path of None \<Rightarrow> end_tx p (-1) s | Some path \<Rightarrow>
     bnd (fs_do p (\<lambda>c. create c (cwd_of p s) path type major minor) s) (\<lambda>ipo s.
     case ipo of None \<Rightarrow> end_tx p (-1) s | Some ip \<Rightarrow>
     bnd (fs_do p (\<lambda>c. iunlockput c ip) s) (\<lambda>_ s. end_tx p 0 s)))"

definition sys_mkdir :: "nat \<Rightarrow> kern \<Rightarrow> (u64, kern) res" where
  "sys_mkdir p s = bnd (begin_tx s) (\<lambda>_ s. make_node p T_DIR 0 0 s)"

definition sys_mknod :: "nat \<Rightarrow> kern \<Rightarrow> (u64, kern) res" where
  "sys_mknod p s =
     bnd (begin_tx s) (\<lambda>_ s. bnd (argint 1 p s) (\<lambda>major s. bnd (argint 2 p s) (\<lambda>minor s.
       make_node p T_DEVICE (ucast major) (ucast minor) s)))"

definition sys_chdir :: "nat \<Rightarrow> kern \<Rightarrow> (u64, kern) res" where
  "sys_chdir p s =
     bnd (begin_tx s) (\<lambda>_ s.
     bnd (argstr 0 MAXPATH p s) (\<lambda>path s.
     case path of None \<Rightarrow> end_tx p (-1) s | Some path \<Rightarrow>
     bnd (fs_do p (\<lambda>c. namei c (cwd_of p s) path) s) (\<lambda>ipo s.
     case ipo of None \<Rightarrow> end_tx p (-1) s | Some ip \<Rightarrow>
     bnd (fs_do p (\<lambda>c. ilock c (Some ip)) s) (\<lambda>_ s.
     if i_type (itable (kfs s) ip) \<noteq> T_DIR then
       bnd (fs_do p (\<lambda>c. iunlockput c ip) s) (\<lambda>_ s. end_tx p (-1) s)
     else
       bnd (fs_do p (\<lambda>c. iunlock c (Some ip)) s) (\<lambda>_ s.
       bnd (fs_do p (\<lambda>c. iput c (cwd_of p s)) s) (\<lambda>_ s.
       bnd (end_tx p () s) (\<lambda>_ s.
       Ret 0 (upd_proc p (p_cwd_update (\<lambda>_. Some ip)) s))))))))"

section \<open>Exec and pipe\<close>

text \<open>The argument vector: the pages allocated so far, and whether the null pointer that ends it was found.\<close>

primrec exec_fetch :: "nat list \<Rightarrow> u64 \<Rightarrow> u64 list \<Rightarrow> nat \<Rightarrow> kern \<Rightarrow> (bool \<times> u64 list, kern) res" where
  "exec_fetch [] uargv argv p s = Ret (False, argv) s"
| "exec_fetch (i # is) uargv argv p s =
     bnd (fetchaddr (uargv + 8 * of_nat i) p s) (\<lambda>a s.
       case a of None \<Rightarrow> Ret (False, argv) s | Some uarg \<Rightarrow>
       if uarg = 0 then Ret (True, argv) s
       else bnd (on_km kalloc s) (\<lambda>pg s.
         if pg = 0 then Ret (False, argv) s
         else bnd (fetchstr uarg (\<lambda>i. phys (fmem (kfs s)) (pg + of_nat i)) PGSIZE p s) (\<lambda>(r, d) s.
           let s = s\<lparr>kfs := (kfs s)\<lparr>fmem := (fmem (kfs s))\<lparr>phys := put_bytes PGSIZE (phys (fmem (kfs s))) pg d\<rparr>\<rparr>\<rparr> in
           case r of None \<Rightarrow> Ret (False, argv @ [pg]) s
           | Some _ \<Rightarrow> exec_fetch is uargv (argv @ [pg]) p s)))"

primrec free_argv :: "u64 list \<Rightarrow> kern \<Rightarrow> (unit, kern) res" where
  "free_argv [] s = Ret () s"
| "free_argv (a # as) s = bnd (on_km (kfree a) s) (\<lambda>_ s. free_argv as s)"

definition sys_exec :: "nat \<Rightarrow> kern \<Rightarrow> (u64, kern) res" where
  "sys_exec p s =
     bnd (argaddr 1 p s) (\<lambda>uargv s.
     bnd (argstr 0 MAXPATH p s) (\<lambda>path s.
     case path of None \<Rightarrow> Ret (-1) s | Some path \<Rightarrow>
     bnd (exec_fetch [0..<MAXARG] uargv [] p s) (\<lambda>(ok, argv) s.
     if ok then bnd (exec path argv p s) (\<lambda>ret s. bnd (free_argv argv s) (\<lambda>_ s. Ret (of_int ret) s))
     else bnd (free_argv argv s) (\<lambda>_ s. Ret (-1) s))))"

definition sys_pipe :: "nat \<Rightarrow> kern \<Rightarrow> (u64, kern) res" where
  "sys_pipe p s =
     bnd (argaddr 0 p s) (\<lambda>fdarray s.
     bnd (pipealloc (me p s) s) (\<lambda>fs s.
     case fs of None \<Rightarrow> Ret (-1) s | Some (rfile, wfile) \<Rightarrow>
       let close2 = (\<lambda>s. bnd (fileclose (me p s) rfile s) (\<lambda>_ s. bnd (fileclose (me p s) wfile s) (\<lambda>_ s. Ret (-1) s)));
           drop = (\<lambda>fd s. upd_proc p (p_ofile_update (\<lambda>o'. o'(fd := None))) s) in
       case fdalloc rfile p s of
         (None, s) \<Rightarrow> close2 s
       | (Some fd0, s) \<Rightarrow>
           (case fdalloc wfile p s of
              (None, s) \<Rightarrow> close2 (drop fd0 s)
            | (Some fd1, s) \<Rightarrow>
                bnd (on_km (copyout (p_pagetable (procs s p)) fdarray (\<lambda>i. byte i (of_nat fd0 :: u32)) 4) s) (\<lambda>r s.
                bnd (if r < 0 then Ret r s
                     else on_km (copyout (p_pagetable (procs s p)) (fdarray + 4) (\<lambda>i. byte i (of_nat fd1 :: u32)) 4) s) (\<lambda>r s.
                if r < 0 then close2 (drop fd1 (drop fd0 s)) else Ret 0 s)))))"

section \<open>Memory mapping\<close>

definition upd_area :: "nat \<Rightarrow> nat \<Rightarrow> (vm_area \<Rightarrow> vm_area) \<Rightarrow> kern \<Rightarrow> kern" where
  "upd_area p i f s = upd_proc p (p_areas_update (\<lambda>a. a(i := f (a i)))) s"

definition sys_mmap :: "nat \<Rightarrow> kern \<Rightarrow> (u64, kern) res" where
  "sys_mmap p s =
     bnd (argaddr 1 p s) (\<lambda>len s. bnd (argint 2 p s) (\<lambda>prot s. bnd (argint 3 p s) (\<lambda>flags s. bnd (argint 4 p s) (\<lambda>fdw s.
     let fd = sint fdw in
     if len \<le> 0 \<or> len mod 4096 \<noteq> 0 then Ret (-1) (say ''sys_mmap: len = %ld is not a valid number'' s)
     else if fd < 0 \<or> fd \<ge> int NOFILE then Ret (-1) (say ''sys_mmap: fd = %d is not a valid number'' s)
     else case p_ofile (procs s p) (nat fd) of
       None \<Rightarrow> Ret (-1) (say ''sys_mmap: fd = %d is bind to null'' s)
     | Some fptr \<Rightarrow>
         if f_type (ftable s fptr) \<noteq> FD_INODE then Ret (-1) (say ''sys_mmap: fd = %d is not bind to a file'' s)
         else if prot AND PROT_WRITE \<noteq> 0 \<and> flags AND MAP_SHARED \<noteq> 0 \<and> \<not> f_writable (ftable s fptr) then
           Ret (-1) (say ''sys_mmap: fd = %d is not writable'' s)
         else case find (\<lambda>i. va_length (p_areas (procs s p) i) = 0) [0..<NVMA] of
           None \<Rightarrow> Ret (-1) (say ''sys_mmap: vm_areas are full'' s)
         | Some slot \<Rightarrow>
             bnd (filedup fptr s) (\<lambda>_ s.
             let s = upd_area p slot (va_fptr_update (\<lambda>_. Some fptr)) s;
                 s = (if p_next_start (procs s p) = 0 then
                        upd_proc p (\<lambda>x. x\<lparr>p_next_start := PGROUNDUP (p_sz x)\<rparr>) s else s) in
             if p_next_start (procs s p) < p_sz (procs s p) then Panic ''sys_mmap: memory crash''
             else
               let start = p_next_start (procs s p); e = start + len in
               if e \<le> start then
                 bnd (fileclose (me p s) fptr (upd_area p slot (va_fptr_update (\<lambda>_. None))
                   (say ''sys_mmap: address overflow'' s))) (\<lambda>_ s. Ret (-1) s)
               else Ret start (say ''sys_mmap size of proc: %lx, start_addr: %lx, end_addr: %lx''
                 (upd_area p slot (\<lambda>a. a\<lparr>va_start := start, va_length := len, va_flags := flags, va_prot := prot,
                   va_vstart := start, va_vend := start + len\<rparr>)
                   (upd_proc p (p_next_start_update (\<lambda>_. e)) s))))))))"

definition sys_munmap :: "nat \<Rightarrow> kern \<Rightarrow> (u64, kern) res" where
  "sys_munmap p s =
     bnd (argaddr 0 p s) (\<lambda>addr s. bnd (argaddr 1 p s) (\<lambda>len s.
     if addr mod 4096 \<noteq> 0 \<or> len mod 4096 \<noteq> 0 then Ret (-1) (say ''sys_munmap: addr or len not page aligned'' s)
     else case find (\<lambda>i. let a = p_areas (procs s p) i in
         va_length a \<noteq> 0 \<and> va_vstart a \<le> addr \<and> addr + len \<le> va_vend a) [0..<NVMA] of
       None \<Rightarrow> Ret (-1) (say ''sys_munmap: range not in vm area'' s)
     | Some slot \<Rightarrow>
         let a = p_areas (procs s p) slot; pt = p_pagetable (procs s p) in
         if va_vstart a \<noteq> addr \<and> addr + len \<noteq> va_vend a then
           Ret (-1) (say ''sys_munmap: cannot make a whole in vm area'' s)
         else
           let s = (if va_vstart a = addr then upd_area p slot (va_vstart_update (\<lambda>_. addr + len)) s
                    else upd_area p slot (va_vend_update (\<lambda>e. e - len)) s) in
           bnd (if va_flags a AND MAP_SHARED \<noteq> 0 then
                  (case va_fptr a of None \<Rightarrow> Panic ''kerneltrap''
                   | Some f \<Rightarrow> write_back (me p s) pt f addr len (addr - va_start a) s)
                else on_km (put_back pt addr len) s) (\<lambda>_ s.
           let a = p_areas (procs s p) slot in
           bnd (if va_vstart a \<ge> va_vend a then clear_vm_area (me p s) p slot pt s else Ret () s) (\<lambda>_ s.
           Ret 0 s))))"

text \<open>The page fault handler; \<open>scause\<close> and \<open>stval\<close> are the trap's registers.\<close>

definition mmap_load_instr :: "u64 \<Rightarrow> u64 \<Rightarrow> nat \<Rightarrow> kern \<Rightarrow> (int, kern) res" where
  "mmap_load_instr scause va p s =
     (if scause \<noteq> 0xd \<and> scause \<noteq> 0xf then Ret (-1) s
      else
        let pt = p_pagetable (procs s p); pgaddr = PGROUNDDOWN va in
        case find (\<lambda>i. let a = p_areas (procs s p) i in
          va_length a \<noteq> 0 \<and> va_start a \<le> pgaddr \<and> pgaddr < va_start a + va_length a) [0..<NVMA] of
          None \<Rightarrow> Ret (-1) (say ''mmap_load_instr: va %lx not in any vm area'' s)
        | Some slot \<Rightarrow>
            let a = p_areas (procs s p) slot in
            if va < va_vstart a \<or> va \<ge> va_vend a then exit (-1) p (say ''mmap_load_instr: visit invalid memory'' s)
            else if va_prot a AND PROT_WRITE = 0 \<and> scause = 0xf then exit (-1) p (say ''try to write a readable page'' s)
            else
              let perm = PTE_U OR (if va_prot a AND PROT_READ \<noteq> 0 then PTE_R else 0)
                    OR (if va_prot a AND PROT_WRITE \<noteq> 0 then PTE_W else 0) in
              bnd (on_km kalloc s) (\<lambda>newpage s.
              if newpage = 0 then Ret (-1) (say ''mmap_load_instr: memory full'' s)
              else
                let s = s\<lparr>kfs := (kfs s)\<lparr>fmem := (fmem (kfs s))\<lparr>phys := memset (phys (fmem (kfs s))) newpage 0 PGSIZE\<rparr>\<rparr>\<rparr> in
                bnd (on_km (mappages pt pgaddr 4096 newpage perm) (say ''map page addr: %lx'' s)) (\<lambda>r s.
                if r = -1 then
                  bnd (on_km (kfree newpage) s) (\<lambda>_ s. Ret (-1) (say ''mmap_load_instr: map page not success'' s))
                else case va_fptr a of None \<Rightarrow> Panic ''kerneltrap'' | Some f \<Rightarrow>
                  let offset = pgaddr - va_start a; ip = f_ip (ftable s f) in
                  bnd (fs_do p (\<lambda>c. ilock c (Some ip)) (say ''mappages done'' s)) (\<lambda>_ s.
                  bnd (if offset < ucast (i_size (itable (kfs s) ip)) then
                         bnd (fs_do p (\<lambda>c. readi c ip (ToPhys newpage) (ucast offset) 4096) s) (\<lambda>(r, _) s. Ret r s)
                       else Ret 1 s) (\<lambda>r s.
                  bnd (fs_do p (\<lambda>c. iunlock c (Some ip)) s) (\<lambda>_ s.
                  if r = 0 then bnd (on_km (uvmunmap pt pgaddr 1 True) (say ''mmap_load_instr: read fail from the inode'' s))
                    (\<lambda>_ s. Ret (-1) s)
                  else Ret 0 s))))))"

end
