(* ===== verification/Trap.thy ===== *)
theory Trap
  imports Sysfile
begin

text \<open>
  The remaining system calls (\<^verbatim>\<open>kernel/sysproc.c\<close>), their dispatch (\<^verbatim>\<open>kernel/syscall.c\<close>) and the trap handlers (\<^verbatim>\<open>kernel/trap.c\<close>).
  The control registers a handler reads are given in a record; \<open>irq\<close> is what the interrupt controller answers to
  \<^verbatim>\<open>plic_claim\<close>.
\<close>

section \<open>Process system calls\<close>

definition sys_exit :: "nat \<Rightarrow> kern \<Rightarrow> (u64, kern) res" where
  "sys_exit p s = bnd (argint 0 p s) (\<lambda>n s. exit n p s)"

definition sys_getpid :: "nat \<Rightarrow> kern \<Rightarrow> (u64, kern) res" where
  "sys_getpid p s = Ret (of_int (p_pid (procs s p))) s"

definition sys_fork :: "nat \<Rightarrow> kern \<Rightarrow> (u64, kern) res" where
  "sys_fork p s = bnd (fork p s) (\<lambda>r s. Ret (of_int r) s)"

definition sys_wait :: "nat \<Rightarrow> kern \<Rightarrow> (u64, kern) res" where
  "sys_wait p s = bnd (argaddr 0 p s) (\<lambda>a s. bnd (wait a p s) (\<lambda>r s. Ret (of_int r) s))"

definition sys_sbrk :: "nat \<Rightarrow> kern \<Rightarrow> (u64, kern) res" where
  "sys_sbrk p s =
     bnd (argint 0 p s) (\<lambda>n s.
       let addr = p_sz (procs s p) in
       bnd (growproc (sint n) p s) (\<lambda>r s. if r < 0 then Ret (-1) s else Ret addr s))"

text \<open>One turn of the loop of \<^verbatim>\<open>sys_sleep\<close>, which began at tick \<open>ticks0\<close>.\<close>

definition sys_sleep_turn :: "u32 \<Rightarrow> u32 \<Rightarrow> nat \<Rightarrow> kern \<Rightarrow> (u64, kern) res" where
  "sys_sleep_turn ticks0 n p s =
     (if ticks s - ticks0 < n then (if killed p s then Ret (-1) s else Sleep ChTicks s) else Ret 0 s)"

definition sys_sleep :: "nat \<Rightarrow> kern \<Rightarrow> (u64, kern) res" where
  "sys_sleep p s =
     bnd (argint 0 p s) (\<lambda>n s. sys_sleep_turn (ticks s) (if sint n < 0 then 0 else n) p s)"

definition sys_kill :: "nat \<Rightarrow> kern \<Rightarrow> (u64, kern) res" where
  "sys_kill p s = bnd (argint 0 p s) (\<lambda>pid s. let (r, s) = kill (sint pid) s in Ret (of_int r) s)"

definition sys_uptime :: "nat \<Rightarrow> kern \<Rightarrow> (u64, kern) res" where
  "sys_uptime p s = Ret (ucast (ticks s)) s"

section \<open>Dispatch\<close>

text \<open>The table \<^verbatim>\<open>syscalls\<close>; \<open>junk\<close> is the stack memory of \<^verbatim>\<open>filestat\<close>.\<close>

definition syscalls :: "(nat \<Rightarrow> u8) \<Rightarrow> (nat \<Rightarrow> kern \<Rightarrow> (u64, kern) res) list" where
  "syscalls junk = [sys_fork, sys_exit, sys_wait, sys_pipe, sys_read, sys_kill, sys_exec, sys_fstat junk, sys_chdir, sys_dup,
     sys_getpid, sys_sbrk, sys_sleep, sys_uptime, sys_open, sys_write, sys_mknod, sys_unlink, sys_link, sys_mkdir,
     sys_close, sys_mmap, sys_munmap]"

definition syscall :: "(nat \<Rightarrow> u8) \<Rightarrow> nat \<Rightarrow> kern \<Rightarrow> (unit, kern) res" where
  "syscall junk p s =
     (let num = sint (ucast (tf_get p 168 s) :: u32) in
      if num > 0 \<and> num < int (length (syscalls junk)) + 1 then
        bnd ((syscalls junk ! nat (num - 1)) p s) (\<lambda>r s. Ret () (tf_set p 112 r s))
      else Ret () (tf_set p 112 (-1) (say ''%d %s: unknown sys call %d'' s)))"

section \<open>Traps\<close>

record regs =
  sstatus :: u64
  scause :: u64
  sepc :: u64
  stval :: u64
  satp :: u64
  hartid :: nat
  irq :: nat

abbreviation (input) SSTATUS_SPP :: u64 where "SSTATUS_SPP \<equiv> 0x100"
abbreviation (input) SSTATUS_SPIE :: u64 where "SSTATUS_SPIE \<equiv> 0x20"
abbreviation (input) UART0_IRQ :: nat where "UART0_IRQ \<equiv> 10"
abbreviation (input) VIRTIO0_IRQ :: nat where "VIRTIO0_IRQ \<equiv> 1"

definition clockintr :: "nat \<Rightarrow> nat option \<Rightarrow> kern \<Rightarrow> kern" where
  "clockintr hart cur s =
     (if hart = 0 then wakeup cur ChTicks (s\<lparr>ticks := ticks s + 1\<rparr>) else s)"

text \<open>
  \<open>pd\<close> is the text that \<^verbatim>\<open>procdump\<close> would print. A disk interrupt finishes transfers that the cache's disk operation
  already includes.
\<close>

definition devintr :: "u8 list \<Rightarrow> regs \<Rightarrow> nat option \<Rightarrow> kern \<Rightarrow> (int, kern) res" where
  "devintr pd r cur s =
     (if scause r = 0x8000000000000009 then
        bnd (if irq r = UART0_IRQ then on_cons (on_con (uartintr pd)) s
             else if irq r = VIRTIO0_IRQ then Ret () s
             else if irq r \<noteq> 0 then Ret () (say ''unexpected interrupt irq=%d'' s)
             else Ret () s) (\<lambda>_ s. Ret 1 s)
      else if scause r = 0x8000000000000005 then Ret 2 (clockintr (hartid r) cur s)
      else Ret 0 s)"

definition MAKE_SATP :: "u64 \<Rightarrow> u64" where
  "MAKE_SATP pagetable = push_bit 60 8 OR drop_bit 12 pagetable"

text \<open>
  \<^verbatim>\<open>usertrapret\<close> stores into the trapframe what the next trap needs, and passes to \<^verbatim>\<open>userret\<close> the status, the program counter
  and the page table. \<open>upc\<close> is the address of \<^verbatim>\<open>usertrap\<close>.
\<close>

definition usertrapret :: "u64 \<Rightarrow> regs \<Rightarrow> nat \<Rightarrow> kern \<Rightarrow> (u64 \<times> u64 \<times> u64, kern) res" where
  "usertrapret upc r p s =
     (let s = tf_set p 0 (satp r) s;
          s = tf_set p 8 (p_kstack (procs s p) + 4096) s;
          s = tf_set p 16 upc s;
          s = tf_set p 32 (of_nat (hartid r)) s
      in Ret ((sstatus r AND NOT SSTATUS_SPP) OR SSTATUS_SPIE, tf_get p 24 s, MAKE_SATP (p_pagetable (procs s p))) s)"

definition usertrap :: "u64 \<Rightarrow> u8 list \<Rightarrow> (nat \<Rightarrow> u8) \<Rightarrow> regs \<Rightarrow> nat \<Rightarrow> kern \<Rightarrow> (u64 \<times> u64 \<times> u64, kern) res" where
  "usertrap upc pd junk r p s =
     (if sstatus r AND SSTATUS_SPP \<noteq> 0 then Panic ''usertrap: not from user mode''
      else
        let s = tf_set p 24 (sepc r) s in
        bnd (if scause r = 8 then
               if killed p s then exit (-1) p s
               else bnd (syscall junk p (tf_set p 24 (tf_get p 24 s + 4) s)) (\<lambda>_ s. Ret 0 s)
             else bnd (devintr pd r (Some p) s) (\<lambda>which s.
               if which \<noteq> 0 then Ret which s
               else bnd (mmap_load_instr (scause r) (stval r) p s) (\<lambda>x s.
                 if x = 0 then Ret 0 s
                 else Ret 0 (setkilled p (say ''sepc=0x%lx stval=0x%lx''
                   (say ''usertrap(): unexpected scause 0x%lx pid=%d'' s)))))) (\<lambda>which s.
        bnd (if killed p s then exit (-1) p s else Ret () s) (\<lambda>_ s.
        bnd (if which = 2 then yield p s else Ret () s) (\<lambda>_ s.
        usertrapret upc r p s))))"

text \<open>\<^verbatim>\<open>kerneltrap\<close>; \<open>cur\<close> is the process running on the processor, \<open>ion\<close> whether interrupts are on. It restores \<^verbatim>\<open>sepc\<close> and \<^verbatim>\<open>sstatus\<close>.\<close>

definition kerneltrap :: "u8 list \<Rightarrow> regs \<Rightarrow> bool \<Rightarrow> nat option \<Rightarrow> kern \<Rightarrow> (u64 \<times> u64, kern) res" where
  "kerneltrap pd r ion cur s =
     (if sstatus r AND SSTATUS_SPP = 0 then Panic ''kerneltrap: not from supervisor mode''
      else if ion then Panic ''kerneltrap: interrupts enabled''
      else bnd (devintr pd r cur s) (\<lambda>which s.
        if which = 0 then Panic ''kerneltrap''
        else bnd (case cur of Some p \<Rightarrow> if which = 2 then yield p s else Ret () s | None \<Rightarrow> Ret () s) (\<lambda>_ s.
          Ret (sepc r, sstatus r) s)))"

end
