(* ===== verification/Log_Crash.thy ===== *)
theory Log_Crash
  imports Log "HOL-Library.Multiset"
begin

text \<open>
  Correctness of the log of \<^verbatim>\<open>kernel/log.c\<close>, over the contract of the buffer cache: what \<^verbatim>\<open>commit\<close> writes, in which
  order, and what \<^verbatim>\<open>initlog\<close> recovers after a crash between any two of these writes; the reservation
  of \<^verbatim>\<open>begin_op\<close> under concurrent operations; absorption in \<^verbatim>\<open>log_write\<close>.
\<close>

section \<open>Sequences of block writes\<close>

definition apply_writes :: "(u32 \<Rightarrow> block) \<Rightarrow> (u32 \<times> block) list \<Rightarrow> (u32 \<Rightarrow> block)" where
  "apply_writes d ws = foldl (\<lambda>d (b, x). d(b := x)) d ws"

lemma apply_writes_simps [simp]:
  "apply_writes d [] = d" "apply_writes d ((b, x) # ws) = apply_writes (d(b := x)) ws"
  "apply_writes d (ws @ ws') = apply_writes (apply_writes d ws) ws'"
  by (simp_all add: apply_writes_def)

lemma apply_writes_other: "b \<notin> fst ` set ws \<Longrightarrow> apply_writes d ws b = d b"
  by (induction ws arbitrary: d) auto

lemma notin_writes: "(\<And>i. i \<in> set is \<Longrightarrow> f i \<noteq> b) \<Longrightarrow> b \<notin> fst ` set (map (\<lambda>i. (f i, g i)) is)"
  by (fastforce simp: image_iff)

lemma apply_writes_map:
  assumes "distinct is" "inj_on f (set is)" "i \<in> set is"
  shows "apply_writes d (map (\<lambda>i. (f i, g i)) is) (f i) = g i"
  using assms
proof (induction "is" arbitrary: d)
  case (Cons j js)
  show ?case
  proof (cases "i = j")
    case True
    have "f j \<notin> fst ` set (map (\<lambda>i. (f i, g i)) js)"
      using Cons.prems(1,2) by (auto simp: inj_on_def)
    then show ?thesis using True by (simp add: apply_writes_other)
  next
    case False
    then show ?thesis using Cons by (simp add: inj_on_def)
  qed
qed simp

definition v_updates :: "(u32 \<times> block) list \<Rightarrow> bview \<Rightarrow> bview" where
  "v_updates ws a = a\<lparr>v_data := apply_writes (v_data a) ws, v_disk := apply_writes (v_disk a) ws,
     v_trace := v_trace a @ ws\<rparr>"

lemma v_updates_simps [simp]:
  "v_data (v_updates ws a) = apply_writes (v_data a) ws" "v_disk (v_updates ws a) = apply_writes (v_disk a) ws"
  "v_trace (v_updates ws a) = v_trace a @ ws" "v_refs (v_updates ws a) = v_refs a"
  "v_lock (v_updates ws a) = v_lock a" "v_busy (v_updates ws a) = v_busy a"
  "v_updates [] a = a" "v_updates ws' (v_updates ws a) = v_updates (ws @ ws') a"
  "v_update b x a = v_updates [(b, x)] a"
  by (simp_all add: v_updates_def v_update_def)

text \<open>No buffer is locked, a buffer is free, no reference count is near its limit.\<close>

definition quiet :: "bview \<Rightarrow> bool" where
  "quiet a \<longleftrightarrow> (\<forall>b. v_lock a b = None \<and> v_refs a b + 1 < 2 ^ 32) \<and> v_busy a < NBUF"

lemma quiet_updates [simp]: "quiet (v_updates ws a) = quiet a"
  by (simp add: quiet_def)

lemma quiet_free: "quiet a \<Longrightarrow> v_free b a"
  by (simp add: quiet_def v_free_def)

lemma quiet_free2:
  "quiet a \<Longrightarrow> l \<noteq> d \<Longrightarrow> v_refs a d > 0 \<or> v_busy a + 1 < NBUF \<Longrightarrow> v_free d (v_read pid l a)"
  by (auto simp: quiet_def v_free_def v_read_def)

section \<open>The loops of the log\<close>

abbreviation labs :: "log \<Rightarrow> bview" where "labs s \<equiv> abs_bc (lbc s)"

text \<open>The parts of the log's state that the disk routines leave alone.\<close>

definition same_log :: "log \<Rightarrow> log \<Rightarrow> bool" where
  "same_log s s' \<longleftrightarrow> (\<exists>b. s' = s\<lparr>lbc := b\<rparr>)"

lemma same_logD:
  assumes "same_log s s'"
  shows "lstart s' = lstart s" "lsize s' = lsize s" "ldev s' = ldev s" "lh_n s' = lh_n s"
    "lh_block s' = lh_block s" "outstanding s' = outstanding s" "committing s' = committing s"
    "lwakes s' = lwakes s" "log_blk s' = log_blk s"
  using assms by (auto simp: same_log_def log_blk_def fun_eq_iff)

lemma same_log_refl: "same_log s s"
  unfolding same_log_def by (rule exI[of _ "lbc s"]) simp

lemma same_log_trans: "same_log s s1 \<Longrightarrow> same_log s1 s2 \<Longrightarrow> same_log s s2"
  by (auto simp: same_log_def)

lemma on_bc_ok:
  assumes "runs (f (lbc s)) (\<lambda>_ b. bc_inv b \<and> abs_bc b = a)"
  shows "runs (on_bc f s) (\<lambda>_ s'. same_log s s' \<and> bc_inv (lbc s') \<and> labs s' = a)"
  using assms by (auto simp: on_bc_def runs_in_part same_log_def elim!: runs_mono)

lemma write_log_loop_ok:
  assumes "bc_inv (lbc s)" "ldev s = ROOTDEV" "quiet (labs s)"
    and "\<And>i. i \<in> set ts \<Longrightarrow> v_refs (labs s) (lh_block s i) > 0"
    and "\<And>i j. i \<in> set ts \<Longrightarrow> j \<in> set ts \<Longrightarrow> log_blk s i \<noteq> lh_block s j"
  shows "runs (write_log_loop ts pid s) (\<lambda>_ s'. same_log s s' \<and> bc_inv (lbc s') \<and>
    labs s' = v_updates (map (\<lambda>i. (log_blk s i, v_data (labs s) (lh_block s i))) ts) (labs s))"
  using assms
proof (induction ts arbitrary: s)
  case Nil
  then show ?case by (simp add: same_log_refl)
next
  case (Cons t ts)
  let ?l = "log_blk s t" and ?d = "lh_block s t" and ?a = "labs s"
  have ne: "?l \<noteq> ?d" and rf: "v_refs ?a ?d > 0" using Cons.prems by auto
  have "runs (log_one pid (ldev s) ?l ?d (lbc s)) (\<lambda>_ b. bc_inv b \<and> abs_bc b = v_update ?l (v_data ?a ?d) ?a)"
    using bc.copy_block[OF Cons.prems(1) quiet_free[OF Cons.prems(3)] quiet_free2[OF Cons.prems(3) ne] ne] rf
    by (simp add: log_one_def Cons.prems(2))
  from on_bc_ok[of "log_one pid (ldev s) ?l ?d", OF this]
  obtain s1 where s1: "on_bc (log_one pid (ldev s) ?l ?d) s = Ret () s1" "same_log s s1" "bc_inv (lbc s1)"
      "labs s1 = v_updates [(?l, v_data ?a ?d)] ?a"
    by (auto elim!: runsE)
  note e = same_logD[OF s1(2)]
  have dd: "v_data (labs s1) (lh_block s i) = v_data ?a (lh_block s i)" if "i \<in> set ts" for i
    using Cons.prems(5)[of t i] that by (auto simp: s1(4))
  have "runs (write_log_loop ts pid s1) (\<lambda>_ s'. same_log s1 s' \<and> bc_inv (lbc s') \<and>
    labs s' = v_updates (map (\<lambda>i. (log_blk s1 i, v_data (labs s1) (lh_block s1 i))) ts) (labs s1))"
    using Cons.prems s1(3,4) by (intro Cons.IH) (simp_all add: e)
  moreover have "map (\<lambda>i. (log_blk s1 i, v_data (labs s1) (lh_block s1 i))) ts =
      map (\<lambda>i. (log_blk s i, v_data ?a (lh_block s i))) ts"
    using dd by (simp add: e)
  ultimately have "runs (write_log_loop ts pid s1) (\<lambda>_ s'. same_log s1 s' \<and> bc_inv (lbc s') \<and>
    labs s' = v_updates (map (\<lambda>i. (log_blk s i, v_data ?a (lh_block s i))) ts) (labs s1))"
    by (simp only:)
  then show ?case
    unfolding write_log_loop.simps s1(1) bnd.simps
    by (rule runs_mono) (simp add: s1(4) same_log_trans[OF s1(2)])
qed

definition v_drops :: "u32 list \<Rightarrow> bview \<Rightarrow> bview" where
  "v_drops bs a = foldl (\<lambda>a b. v_drop b a) a bs"

lemma v_drops_simps [simp]:
  "v_drops [] a = a" "v_drops (b # bs) a = v_drops bs (v_drop b a)"
  by (simp_all add: v_drops_def)

lemma v_drop_same [simp]:
  "v_data (v_drop b a) = v_data a" "v_disk (v_drop b a) = v_disk a" "v_trace (v_drop b a) = v_trace a"
  "v_lock (v_drop b a) = v_lock a" "c \<noteq> b \<Longrightarrow> v_refs (v_drop b a) c = v_refs a c"
  by (simp_all add: v_drop_def)

lemma v_drops_same [simp]:
  "v_data (v_drops bs a) = v_data a" "v_disk (v_drops bs a) = v_disk a" "v_trace (v_drops bs a) = v_trace a"
  "v_lock (v_drops bs a) = v_lock a"
  by (induction bs arbitrary: a) simp_all

lemma v_drop_updates: "v_drop b (v_updates ws a) = v_updates ws (v_drop b a)"
  by (simp add: v_drop_def v_updates_def)

lemma v_drops_updates: "v_drops bs (v_updates ws a) = v_updates ws (v_drops bs a)"
  by (induction bs arbitrary: a) (simp_all add: v_drop_updates)

lemma quiet_drop: "quiet a \<Longrightarrow> quiet (v_drop b a)"
  unfolding quiet_def v_drop_def by (auto simp: less_imp_diff_less)

lemma quiet_drops: "quiet a \<Longrightarrow> quiet (v_drops bs a)"
  by (induction bs arbitrary: a) (simp_all add: quiet_drop)

lemma install_loop_ok:
  assumes "bc_inv (lbc s)" "ldev s = ROOTDEV" "quiet (labs s)" "distinct ts"
    and "\<And>i. i \<in> set ts \<Longrightarrow> if recovering then v_busy (labs s) + 1 < NBUF else v_refs (labs s) (lh_block s i) > 0"
    and "\<And>i j. i \<in> set ts \<Longrightarrow> j \<in> set ts \<Longrightarrow> log_blk s i \<noteq> lh_block s j"
    and "\<not> recovering \<Longrightarrow> inj_on (lh_block s) (set ts)"
  shows "runs (install_trans_loop ts pid recovering s) (\<lambda>_ s'. same_log s s' \<and> bc_inv (lbc s') \<and>
    labs s' = v_updates (map (\<lambda>i. (lh_block s i, v_data (labs s) (log_blk s i))) ts)
      (if recovering then labs s else v_drops (map (lh_block s) ts) (labs s)))"
  using assms
proof (induction ts arbitrary: s)
  case Nil
  then show ?case by (simp add: same_log_refl)
next
  case (Cons t ts)
  let ?l = "log_blk s t" and ?d = "lh_block s t" and ?a = "labs s"
  let ?a1 = "if recovering then ?a else v_drop ?d ?a"
  have ne: "?l \<noteq> ?d" and rf: "if recovering then v_busy ?a + 1 < NBUF else v_refs ?a ?d > 0"
    using Cons.prems(5)[of t] Cons.prems(6)[of t t] by auto
  have f2: "v_free ?d (v_read pid ?l ?a)"
    using rf by (intro quiet_free2[OF Cons.prems(3) ne]) (auto split: if_splits)
  have "runs (install_one pid (ldev s) recovering ?l ?d (lbc s))
      (\<lambda>_ b. bc_inv b \<and> abs_bc b = v_updates [(?d, v_data ?a ?l)] ?a1)"
    using bc.install_block[OF Cons.prems(1) quiet_free[OF Cons.prems(3)] f2 ne, of recovering] rf
    by (cases recovering) (simp_all add: install_one_def Cons.prems(2) v_drop_updates)
  from on_bc_ok[of "install_one pid (ldev s) recovering ?l ?d", OF this]
  obtain s1 where s1: "on_bc (install_one pid (ldev s) recovering ?l ?d) s = Ret () s1" "same_log s s1"
      "bc_inv (lbc s1)" "labs s1 = v_updates [(?d, v_data ?a ?l)] ?a1"
    by (auto elim!: runsE)
  note e = same_logD[OF s1(2)]
  have q1: "quiet (labs s1)" using Cons.prems(3) quiet_drop by (simp add: s1(4))
  have ld: "v_data (labs s1) (log_blk s i) = v_data ?a (log_blk s i)" if "i \<in> set ts" for i
    using Cons.prems(6)[of i t] that by (auto simp: s1(4))
  have rf1: "if recovering then v_busy (labs s1) + 1 < NBUF else v_refs (labs s1) (lh_block s1 i) > 0"
    if "i \<in> set ts" for i
  proof -
    have "\<not> recovering \<Longrightarrow> lh_block s i \<noteq> ?d"
      using Cons.prems(4,7) that by (auto simp: inj_on_def)
    then show ?thesis using Cons.prems(5)[of i] that by (auto simp: s1(4) e split: if_splits)
  qed
  have "runs (install_trans_loop ts pid recovering s1) (\<lambda>_ s'. same_log s1 s' \<and> bc_inv (lbc s') \<and>
    labs s' = v_updates (map (\<lambda>i. (lh_block s1 i, v_data (labs s1) (log_blk s1 i))) ts)
      (if recovering then labs s1 else v_drops (map (lh_block s1) ts) (labs s1)))"
    using Cons.prems(2,4,6,7) s1(3) q1 by (intro Cons.IH rf1) (simp_all add: e)
  moreover have "map (\<lambda>i. (lh_block s1 i, v_data (labs s1) (log_blk s1 i))) ts =
      map (\<lambda>i. (lh_block s i, v_data ?a (log_blk s i))) ts"
    using ld by (simp add: e)
  ultimately have "runs (install_trans_loop ts pid recovering s1) (\<lambda>_ s'. same_log s1 s' \<and> bc_inv (lbc s') \<and>
    labs s' = v_updates (map (\<lambda>i. (lh_block s i, v_data ?a (log_blk s i))) ts)
      (if recovering then labs s1 else v_drops (map (lh_block s) ts) (labs s1)))"
    by (simp only: e)
  then show ?case
    unfolding install_trans_loop.simps s1(1) bnd.simps
    by (rule runs_mono) (simp add: s1(4) same_log_trans[OF s1(2)] v_drops_updates)
qed


lemma write_head_ok:
  assumes "bc_inv (lbc s)" "ldev s = ROOTDEV" "quiet (labs s)"
  shows "runs (write_head pid s) (\<lambda>_ s'. same_log s s' \<and> bc_inv (lbc s') \<and>
    labs s' = v_updates [(of_int (lstart s),
      head_of (lh_n s) (lh_block s) (v_data (labs s) (of_int (lstart s))))] (labs s))"
  unfolding write_head_def
  using bc.update_block[OF assms(1) quiet_free[OF assms(3)], of pid "of_int (lstart s)"
      "head_of (lh_n s) (lh_block s)"]
  by (intro on_bc_ok) (simp add: assms(2))

lemma read_head_ok:
  assumes "bc_inv (lbc s)" "ldev s = ROOTDEV" "quiet (labs s)"
  shows "runs (read_head pid s) (\<lambda>_ s'. \<exists>b. bc_inv b \<and> abs_bc b = labs s \<and>
    (let d = v_data (labs s) (of_int (lstart s)) in
     s' = s\<lparr>lh_n := hd_n d, lh_block := hd_get (nat (hd_n d)) d (lh_block s), lbc := b\<rparr>))"
proof -
  let ?b = "of_int (lstart s) :: u32"
  obtain h c where c: "bread pid ROOTDEV ?b (lbc s) = Ret h c" "bc_inv c" "slot_of c ?b = Some h"
      "abs_bc c = v_read pid ?b (labs s)"
    using bc.rd_ok[OF assms(1) quiet_free[OF assms(3)], of pid ?b] by (auto elim!: runsE)
  have l: "v_lock (abs_bc c) ?b = Some pid" by (simp add: c(4) v_defs)
  have d: "bdata (bufs c h) = v_data (labs s) ?b" using bc.get_ok[OF c(2,3) l] by (simp add: c(4) v_defs)
  have "v_data (abs_bc c) ?b = v_disk (abs_bc c) ?b" if "v_refs (abs_bc c) ?b = 1"
    using that bc.clean[OF assms(1), of ?b] by (simp add: c(4) v_defs)
  then obtain e where e: "brelse pid h c = Ret () e" "bc_inv e" "abs_bc e = v_release ?b (abs_bc c)"
    using bc.rel_ok[OF c(2,3) l] by (auto elim!: runsE)
  have "abs_bc e = labs s"
    using assms(3) by (auto simp: e(3) c(4) v_defs quiet_def fun_eq_iff intro!: bview.equality)
  then show ?thesis
    using c(1) e(1,2) assms(2) d
    by (simp add: read_head_def on_bc_def Let_def) (auto simp: Let_def intro!: exI[of _ e])
qed


section \<open>Header round trip\<close>

lemma ld32_hd_put_0: "ld32 (hd_put n f d) 0 = ld32 d 0"
  by (induction n) (simp_all add: bytes_simps)

lemma hd_block_put: "i < n \<Longrightarrow> hd_block (hd_put n f d) i = f i"
proof (induction n)
  case (Suc n)
  then show ?case by (cases "i = n") (auto simp: hd_block_def bytes_simps)
qed simp

lemma hd_get_apply: "hd_get n d f i = (if i < n then hd_block d i else f i)"
  by (induction n) auto

lemma head_roundtrip:
  assumes "0 \<le> n" "n < 2 ^ 31"
  shows "hd_n (head_of n f d) = n" "i < nat n \<Longrightarrow> hd_block (head_of n f d) i = f i"
  using assms sint_of_int_u32[of n]
  by (simp_all add: hd_n_def head_of_def ld32_hd_put_0 bytes_simps hd_block_put)

section \<open>Commit\<close>

text \<open>
  A transaction ready to commit: at least one and at most \<^verbatim>\<open>LOGSIZE\<close> blocks, all different, all pinned
  and outside the log; no buffer locked; the header on disk says that the log is empty.
\<close>

definition log_area :: "log \<Rightarrow> u32 set" where
  "log_area s = (\<lambda>i. of_int (lstart s + int i)) ` {..LOGSIZE}"

definition tx_ready :: "log \<Rightarrow> bool" where
  "tx_ready s \<longleftrightarrow> bc_inv (lbc s) \<and> ldev s = ROOTDEV \<and> quiet (labs s) \<and>
     0 < lh_n s \<and> lh_n s \<le> int LOGSIZE \<and> 0 \<le> lstart s \<and> lstart s + int LOGSIZE < 2 ^ 31 \<and>
     inj_on (lh_block s) {..<nat (lh_n s)} \<and>
     (\<forall>i < nat (lh_n s). lh_block s i \<notin> log_area s \<and> v_refs (labs s) (lh_block s i) > 0) \<and>
     hd_n (v_disk (labs s) (of_int (lstart s))) = 0"

definition log_writes :: "log \<Rightarrow> (u32 \<times> block) list" where
  "log_writes s = map (\<lambda>i. (log_blk s i, v_data (labs s) (lh_block s i))) [0..<nat (lh_n s)]"

definition home_writes :: "log \<Rightarrow> (u32 \<times> block) list" where
  "home_writes s = map (\<lambda>i. (lh_block s i, v_data (labs s) (lh_block s i))) [0..<nat (lh_n s)]"

definition tx_head :: "log \<Rightarrow> block" where
  "tx_head s = head_of (lh_n s) (lh_block s) (v_data (labs s) (of_int (lstart s)))"

definition commit_writes :: "log \<Rightarrow> (u32 \<times> block) list" where
  "commit_writes s = log_writes s @ [(of_int (lstart s), tx_head s)] @ home_writes s @
     [(of_int (lstart s), head_of 0 (lh_block s) (tx_head s))]"

lemma of_int_log_eq:
  assumes "0 \<le> a" "a < 2 ^ 31" "0 \<le> b" "b < 2 ^ 31"
  shows "(of_int a :: u32) = of_int b \<longleftrightarrow> a = b"
  using sint_of_int_u32[of a] sint_of_int_u32[of b] assms by (metis neg_le_0_iff_le order.trans zero_le_numeral zero_le_power)

lemma tx_blocks:
  assumes "tx_ready s" "i < nat (lh_n s)"
  shows "log_blk s i \<in> log_area s" "log_blk s i \<noteq> of_int (lstart s)" "of_int (lstart s) \<in> log_area s"
    "j < nat (lh_n s) \<Longrightarrow> log_blk s i = log_blk s j \<longleftrightarrow> i = j"
    "j < nat (lh_n s) \<Longrightarrow> log_blk s i \<noteq> lh_block s j" "lh_block s i \<noteq> of_int (lstart s)"
proof -
  have home: "lh_block s j \<notin> log_area s" if "j < nat (lh_n s)" for j
    using assms(1) that by (simp add: tx_ready_def)
  have b: "0 \<le> lstart s" "lstart s + int LOGSIZE < 2 ^ 31" "lh_n s \<le> int LOGSIZE" using assms(1) by (auto simp: tx_ready_def)
  show a: "log_blk s i \<in> log_area s"
    using assms(2) b unfolding log_area_def log_blk_def by (intro image_eqI[of _ _ "Suc i"]) auto
  show st: "of_int (lstart s) \<in> log_area s"
    unfolding log_area_def by (intro image_eqI[of _ _ 0]) auto
  show "log_blk s i \<noteq> of_int (lstart s)"
    unfolding log_blk_def using assms(2) b by (subst of_int_log_eq) auto
  show "log_blk s i = log_blk s j \<longleftrightarrow> i = j" if "j < nat (lh_n s)"
    unfolding log_blk_def using assms(2) b that by (subst of_int_log_eq) auto
  show "log_blk s i \<noteq> lh_block s j" if "j < nat (lh_n s)"
    using a home[OF that] by auto
  show "lh_block s i \<noteq> of_int (lstart s)" using st home[OF assms(2)] by auto
qed

lemma commit_ok:
  assumes "tx_ready s"
  shows "runs (commit pid s) (\<lambda>_ s'. \<exists>b. s' = s\<lparr>lh_n := 0, lbc := b\<rparr> \<and> bc_inv b \<and>
    abs_bc b = v_updates (commit_writes s) (v_drops (map (lh_block s) [0..<nat (lh_n s)]) (labs s)))"
proof -
  let ?a = "labs s" and ?n = "nat (lh_n s)" and ?st = "of_int (lstart s) :: u32"
  let ?ts = "[0..<nat (lh_n s)]"
  have r: "bc_inv (lbc s)" "ldev s = ROOTDEV" "quiet ?a" "lh_n s > 0"
    "\<And>i. i < ?n \<Longrightarrow> v_refs ?a (lh_block s i) > 0" "inj_on (lh_block s) {..<?n}"
    using assms by (auto simp: tx_ready_def)
  note t = tx_blocks[OF assms]
  have "runs (write_log pid s) (\<lambda>_ s'. same_log s s' \<and> bc_inv (lbc s') \<and> labs s' = v_updates (log_writes s) ?a)"
    unfolding write_log_def log_writes_def by (rule write_log_loop_ok[OF r(1-3)]) (use r(5) t(5) in auto)
  then obtain s1 where s1: "write_log pid s = Ret () s1" "same_log s s1" "bc_inv (lbc s1)"
      "labs s1 = v_updates (log_writes s) ?a"
    by (auto elim!: runsE)
  note e1 = same_logD[OF s1(2)]
  have st: "?st \<notin> fst ` set (log_writes s)"
    unfolding log_writes_def by (rule notin_writes) (simp add: t(2))
  have "runs (write_head pid s1) (\<lambda>_ s'. same_log s1 s' \<and> bc_inv (lbc s') \<and>
      labs s' = v_updates [(?st, tx_head s)] (labs s1))"
    using write_head_ok[OF s1(3), of pid] r(2,3) st by (simp add: e1 s1(4) tx_head_def apply_writes_other)
  then obtain s2 where s2: "write_head pid s1 = Ret () s2" "same_log s1 s2" "bc_inv (lbc s2)"
      "labs s2 = v_updates (log_writes s @ [(?st, tx_head s)]) ?a"
    by (auto simp: s1(4) elim!: runsE)
  note e2 = same_logD[OF same_log_trans[OF s1(2) s2(2)]]
  have ld: "v_data (labs s2) (log_blk s i) = v_data ?a (lh_block s i)" if "i < ?n" for i
  proof -
    have "apply_writes (v_data ?a) (log_writes s) (log_blk s i) = v_data ?a (lh_block s i)"
      unfolding log_writes_def using t(4) that by (intro apply_writes_map) (auto simp: inj_on_def)
    then show ?thesis using t(2)[OF that] by (simp add: s2(4))
  qed
  have hw: "map (\<lambda>i. (lh_block s2 i, v_data (labs s2) (log_blk s2 i))) ?ts = home_writes s"
    using ld by (simp add: home_writes_def e2)
  have "runs (install_trans pid False s2) (\<lambda>_ s'. same_log s2 s' \<and> bc_inv (lbc s') \<and>
      labs s' = v_updates (home_writes s) (v_drops (map (lh_block s) ?ts) (labs s2)))"
    using install_loop_ok[OF s2(3), of ?ts False pid] r t(5) hw
    by (simp add: install_trans_def e2 s2(4) atLeast0LessThan)
  then obtain s3 where s3: "install_trans pid False s2 = Ret () s3" "same_log s2 s3" "bc_inv (lbc s3)"
      "labs s3 = v_updates (log_writes s @ [(?st, tx_head s)] @ home_writes s) (v_drops (map (lh_block s) ?ts) ?a)"
    by (auto simp: s2(4) v_drops_updates elim!: runsE)
  have e3: "same_log s s3" by (rule same_log_trans[OF same_log_trans[OF s1(2) s2(2)] s3(2)])
  have q3: "quiet (labs s3)" using quiet_drops[OF r(3)] by (simp add: s3(4))
  have "v_data (labs s3) ?st = tx_head s"
  proof -
    have "?st \<notin> fst ` set (home_writes s)"
      unfolding home_writes_def by (rule notin_writes) (simp add: t(6))
    then show ?thesis by (simp add: s3(4) apply_writes_other)
  qed
  then have "runs (write_head pid (s3\<lparr>lh_n := 0\<rparr>)) (\<lambda>_ s'. same_log (s3\<lparr>lh_n := 0\<rparr>) s' \<and> bc_inv (lbc s') \<and>
      labs s' = v_updates (commit_writes s) (v_drops (map (lh_block s) ?ts) ?a))"
    using write_head_ok[of "s3\<lparr>lh_n := 0\<rparr>" pid] s3(3,4) q3 r(2)
    by (simp add: same_logD[OF e3] commit_writes_def)
  then show ?thesis
    using r(4) s1(1) s2(1) s3(1) e3 by (auto simp: commit_def same_log_def elim!: runs_mono)
qed


section \<open>Recovery at boot\<close>

text \<open>The state before \<^verbatim>\<open>initlog\<close>: zeroed static data, \<^verbatim>\<open>binit\<close> has run, the disk is what the last run left.\<close>

definition boot_log :: "(u32 \<Rightarrow> block) \<Rightarrow> log" where
  "boot_log d = \<lparr>lstart = 0, lsize = 0, outstanding = 0, committing = False, ldev = 0, lh_n = 0,
     lh_block = (\<lambda>_. 0), lwakes = [], lbc = boot_bcache d\<rparr>"

text \<open>The log blocks and the writes that recovery makes on a disk \<open>d\<close> whose log starts at \<open>st\<close>.\<close>

definition area :: "int \<Rightarrow> u32 set" where
  "area st = (\<lambda>i. of_int (st + int i)) ` {..LOGSIZE}"

definition recovery_writes :: "int \<Rightarrow> (u32 \<Rightarrow> block) \<Rightarrow> (u32 \<times> block) list" where
  "recovery_writes st d = (let h = d (of_int st) in
     map (\<lambda>i. (hd_block h i, d (of_int (st + int i + 1)))) [0..<nat (hd_n h)] @ [(of_int st, st32 h 0 0)])"

definition head_ok :: "int \<Rightarrow> block \<Rightarrow> bool" where
  "head_ok st h \<longleftrightarrow> hd_n h \<le> int LOGSIZE \<and> (\<forall>i < nat (hd_n h). hd_block h i \<notin> area st)"

lemma area_blocks:
  "of_int st \<in> area st" "i < LOGSIZE \<Longrightarrow> of_int (st + int i + 1) \<in> area st"
proof -
  show "of_int st \<in> area st" unfolding area_def by (rule image_eqI[of _ _ 0]) simp_all
  show "of_int (st + int i + 1) \<in> area st" if "i < LOGSIZE"
    unfolding area_def using that by (intro image_eqI[of _ _ "Suc i"]) (simp_all add: algebra_simps)
qed

lemma area_bound:
  assumes "0 \<le> st" "st + int LOGSIZE < 2 ^ 31" "x \<in> area st"
  shows "st \<le> sint x \<and> sint x \<le> st + int LOGSIZE"
proof -
  obtain i where i: "i \<le> LOGSIZE" "x = of_int (st + int i)" using assms(3) by (auto simp: area_def)
  show ?thesis unfolding i(2) using sint_of_int_u32[of "st + int i"] i(1) assms(1,2) by simp
qed

lemma initlog_ok:
  assumes "sint (logstart sb) = st" "head_ok st (d (of_int st))"
  shows "runs (initlog pid ROOTDEV sb (boot_log d)) (\<lambda>_ s'. lh_n s' = 0 \<and> bc_inv (lbc s') \<and>
    disk (lbc s') = apply_writes d (recovery_writes st d) \<and> writes (lbc s') = recovery_writes st d)"
proof -
  let ?s0 = "(boot_log d)\<lparr>lstart := st, lsize := sint (nlog sb), ldev := ROOTDEV\<rparr>"
  let ?st = "of_int st :: u32" and ?h = "d (of_int st)" and ?n = "nat (hd_n (d (of_int st)))"
  have a0: "labs (boot_log d) = \<lparr>v_data = d, v_disk = d, v_refs = (\<lambda>_. 0), v_lock = (\<lambda>_. None), v_busy = 0, v_trace = []\<rparr>"
    "bc_inv (lbc ?s0)"
    by (simp_all add: boot_log_def boot_abs boot_inv)
  then have q: "quiet (labs ?s0)" by (simp add: quiet_def)
  obtain b1 where b1: "read_head pid ?s0 = Ret () (?s0\<lparr>lh_n := hd_n ?h, lh_block := hd_get ?n ?h (lh_block ?s0), lbc := b1\<rparr>)"
      "bc_inv b1" "abs_bc b1 = labs ?s0"
    using read_head_ok[OF a0(2) _ q, of pid] a0(1) by (auto simp: Let_def elim!: runsE)
  define s1 where "s1 = ?s0\<lparr>lh_n := hd_n ?h, lh_block := hd_get ?n ?h (lh_block ?s0), lbc := b1\<rparr>"
  let ?w = "map (\<lambda>i. (hd_block ?h i, d (of_int (st + int i + 1)))) [0..<?n]"
  have f1: "ldev s1 = ROOTDEV" "lstart s1 = st" "lh_n s1 = hd_n ?h" "\<And>i. i < ?n \<Longrightarrow> lh_block s1 i = hd_block ?h i"
      "\<And>i. log_blk s1 i = of_int (st + int i + 1)" "bc_inv (lbc s1)" "labs s1 = labs (boot_log d)"
    using b1(2,3) by (simp_all add: s1_def hd_get_apply log_blk_def)
  have q1: "quiet (labs s1)" using q by (simp add: f1(7))
  have n: "?n \<le> LOGSIZE" "\<And>i. i < ?n \<Longrightarrow> hd_block ?h i \<notin> area st"
    using assms(2) by (auto simp: head_ok_def)
  have ne: "log_blk s1 i \<noteq> lh_block s1 j" if "i < ?n" "j < ?n" for i j
    using area_blocks(2)[of i st] n that f1(4)[OF that(2)] unfolding f1(5) by auto
  have w: "map (\<lambda>i. (lh_block s1 i, v_data (labs s1) (log_blk s1 i))) [0..<?n] = ?w"
    by (simp add: f1(4,5,7) a0(1))
  have "runs (install_trans_loop [0..<?n] pid True s1) (\<lambda>_ s'. same_log s1 s' \<and> bc_inv (lbc s') \<and>
      labs s' = v_updates ?w (labs s1))"
    using install_loop_ok[OF f1(6,1) q1, of "[0..<?n]" True pid] ne unfolding w by (simp add: f1(7) a0(1))
  then obtain s2 where s2: "install_trans pid True s1 = Ret () s2" "same_log s1 s2" "bc_inv (lbc s2)"
      "labs s2 = v_updates ?w (labs s1)"
    by (auto simp: install_trans_def f1(3) elim!: runsE)
  have e: "ldev s2 = ROOTDEV" "lstart s2 = st" using same_logD[OF s2(2)] f1(1,2) by simp_all
  have "?st \<notin> fst ` set ?w"
  proof (rule notin_writes)
    show "hd_block ?h i \<noteq> ?st" if "i \<in> set [0..<?n]" for i
      using n(2)[of i] area_blocks(1)[of st] that by force
  qed
  then have hd: "v_data (labs s2) ?st = ?h" by (simp add: s2(4) f1(7) a0(1) apply_writes_other)
  have q2: "quiet (labs s2)" using q1 by (simp add: s2(4))
  have "head_of 0 f x = st32 x 0 0" for f x by (simp add: head_of_def)
  then have "runs (write_head pid (s2\<lparr>lh_n := 0\<rparr>)) (\<lambda>_ s'. same_log (s2\<lparr>lh_n := 0\<rparr>) s' \<and> bc_inv (lbc s') \<and>
      labs s' = v_updates (?w @ [(?st, st32 ?h 0 0)]) (labs s1))"
    using write_head_ok[of "s2\<lparr>lh_n := 0\<rparr>" pid] s2(3,4) q2 e hd by simp
  then have "runs (write_head pid (s2\<lparr>lh_n := 0\<rparr>)) (\<lambda>_ s'. lh_n s' = 0 \<and> bc_inv (lbc s') \<and>
      disk (lbc s') = apply_writes d (recovery_writes st d) \<and> writes (lbc s') = recovery_writes st d)"
    by (rule runs_mono)
       (auto simp: recovery_writes_def Let_def abs_bc_def v_updates_def f1(7)[unfolded abs_bc_def] a0(1)[unfolded abs_bc_def]
         dest: same_logD(4))
  then show ?thesis
    using assms(1) b1(1)[folded s1_def] s2(1) by (simp add: initlog_def recover_from_log_def)
qed


section \<open>Crashes\<close>

text \<open>The content a block must have when the transaction of \<open>s\<close> has happened.\<close>

definition new_disk :: "log \<Rightarrow> u32 \<Rightarrow> block" where
  "new_disk s b = (if b \<in> lh_block s ` {..<nat (lh_n s)} then v_data (labs s) b else v_disk (labs s) b)"

lemma home_writes_new: "tx_ready s \<Longrightarrow> apply_writes (v_disk (labs s)) (home_writes s) = new_disk s"
proof
  fix b
  assume t: "tx_ready s"
  let ?n = "nat (lh_n s)"
  show "apply_writes (v_disk (labs s)) (home_writes s) b = new_disk s b"
  proof (cases "b \<in> lh_block s ` {..<?n}")
    case True
    then obtain i where i: "i < ?n" "b = lh_block s i" by auto
    have "inj_on (lh_block s) (set [0..<?n])" using t by (simp add: tx_ready_def atLeast0LessThan)
    then have "apply_writes (v_disk (labs s)) (home_writes s) (lh_block s i) = v_data (labs s) (lh_block s i)"
      unfolding home_writes_def using i(1) by (intro apply_writes_map) auto
    then show ?thesis using True i by (simp add: new_disk_def)
  next
    case False
    have "b \<notin> fst ` set (home_writes s)"
      unfolding home_writes_def using False by (intro notin_writes) auto
    then show ?thesis using False by (simp add: apply_writes_other new_disk_def)
  qed
qed

lemma apply_writes_same: "b \<in> fst ` set ws \<Longrightarrow> apply_writes d ws b = apply_writes d' ws b"
proof (induction ws arbitrary: d d')
  case (Cons w ws)
  then show ?case
    by (cases w; cases "b \<in> fst ` set ws") (auto simp: apply_writes_other)
qed simp

lemma apply_writes_take: "apply_writes (apply_writes d (take k ws)) ws = apply_writes d ws"
proof
  fix b
  show "apply_writes (apply_writes d (take k ws)) ws b = apply_writes d ws b"
  proof (cases "b \<in> fst ` set ws")
    case True
    then show ?thesis by (rule apply_writes_same)
  next
    case False
    then have "b \<notin> fst ` set (take k ws)" using set_take_subset[of k ws] by blast
    then show ?thesis using False by (simp add: apply_writes_other)
  qed
qed

lemma log_area_eq: "log_area s = area (lstart s)"
  by (simp add: log_area_def area_def)

text \<open>Recovery of a disk whose header is empty leaves the blocks outside the log alone.\<close>

lemma recovery_empty:
  assumes "hd_n (d (of_int st)) \<le> 0" "b \<notin> area st"
  shows "apply_writes d (recovery_writes st d) b = d b" "head_ok st (d (of_int st))"
  using assms area_blocks(1)[of st] by (auto simp: recovery_writes_def Let_def head_ok_def)

text \<open>Recovery of a disk that holds the committed header and all log blocks installs the transaction.\<close>

lemma recovery_committed:
  assumes t: "tx_ready s" and h: "d (of_int (lstart s)) = tx_head s"
    and l: "\<And>i. i < nat (lh_n s) \<Longrightarrow> d (log_blk s i) = v_data (labs s) (lh_block s i)"
    and b: "b \<notin> log_area s"
  shows "apply_writes d (recovery_writes (lstart s) d) b = apply_writes d (home_writes s) b"
    "head_ok (lstart s) (d (of_int (lstart s)))"
proof -
  have n: "0 \<le> lh_n s" "lh_n s < 2 ^ 31" "lh_n s \<le> int LOGSIZE" using t by (auto simp: tx_ready_def)
  note hr = head_roundtrip[OF n(1,2), where f = "lh_block s" and d = "v_data (labs s) (of_int (lstart s))", folded tx_head_def]
  have "map (\<lambda>i. (hd_block (tx_head s) i, d (of_int (lstart s + int i + 1)))) [0..<nat (lh_n s)] = home_writes s"
    using hr(2) l by (simp add: home_writes_def log_blk_def)
  then have "recovery_writes (lstart s) d = home_writes s @ [(of_int (lstart s), st32 (tx_head s) 0 0)]"
    by (simp add: recovery_writes_def Let_def h hr(1))
  moreover have "b \<noteq> of_int (lstart s)" using b area_blocks(1)[of "lstart s"] by (auto simp: log_area_eq)
  ultimately show "apply_writes d (recovery_writes (lstart s) d) b = apply_writes d (home_writes s) b"
    by simp
  show "head_ok (lstart s) (d (of_int (lstart s)))"
    using hr n(3) t by (auto simp: head_ok_def h tx_ready_def log_area_eq)
qed

text \<open>The disk after the first \<open>k\<close> writes of the commit.\<close>

definition crash_disk :: "log \<Rightarrow> nat \<Rightarrow> u32 \<Rightarrow> block" where
  "crash_disk s k = apply_writes (v_disk (labs s)) (take k (commit_writes s))"

lemma logged_other:
  assumes "tx_ready s" "b \<notin> log_area s"
  shows "b \<notin> fst ` set (log_writes s)" "b \<noteq> of_int (lstart s)"
proof -
  show "b \<notin> fst ` set (log_writes s)"
    unfolding log_writes_def using assms tx_blocks(1)[OF assms(1)] by (intro notin_writes) auto
  show "b \<noteq> of_int (lstart s)" using assms(2) area_blocks(1)[of "lstart s"] by (auto simp: log_area_eq)
qed

lemma installed_new:
  assumes "tx_ready s" "b \<notin> log_area s"
  shows "apply_writes (apply_writes (v_disk (labs s)) (log_writes s @ [(of_int (lstart s), h)])) (home_writes s) b = new_disk s b"
proof (cases "b \<in> fst ` set (home_writes s)")
  case True
  then show ?thesis unfolding home_writes_new[OF assms(1), symmetric] by (rule apply_writes_same)
next
  case False
  then show ?thesis
    unfolding home_writes_new[OF assms(1), symmetric] using logged_other[OF assms] by (simp add: apply_writes_other)
qed

lemma crash_early:
  assumes t: "tx_ready s" and k: "k \<le> nat (lh_n s)" and b: "b \<notin> log_area s"
  shows "head_ok (lstart s) (crash_disk s k (of_int (lstart s)))"
    "apply_writes (crash_disk s k) (recovery_writes (lstart s) (crash_disk s k)) b = v_disk (labs s) b"
proof -
  have d: "crash_disk s k = apply_writes (v_disk (labs s)) (take k (log_writes s))"
    using k by (simp add: crash_disk_def commit_writes_def log_writes_def)
  have "of_int (lstart s) \<notin> fst ` set (log_writes s)"
    unfolding log_writes_def using tx_blocks(2)[OF t] by (intro notin_writes) auto
  then have "of_int (lstart s) \<notin> fst ` set (take k (log_writes s))"
    using set_take_subset[of k "log_writes s"] by blast
  then have h: "hd_n (crash_disk s k (of_int (lstart s))) \<le> 0"
    using t by (simp add: d apply_writes_other tx_ready_def)
  have "b \<notin> fst ` set (take k (log_writes s))"
    using logged_other(1)[OF t b] set_take_subset[of k "log_writes s"] by blast
  then have "crash_disk s k b = v_disk (labs s) b" by (simp add: d apply_writes_other)
  then show "apply_writes (crash_disk s k) (recovery_writes (lstart s) (crash_disk s k)) b = v_disk (labs s) b"
    using recovery_empty(1)[of "crash_disk s k", OF h] b by (simp add: log_area_eq)
  show "head_ok (lstart s) (crash_disk s k (of_int (lstart s)))"
    using recovery_empty(2)[of "crash_disk s k", OF h] b by (simp add: log_area_eq)
qed

lemma crash_committed:
  assumes t: "tx_ready s" and j: "j \<le> nat (lh_n s)" and b: "b \<notin> log_area s" and k: "k = nat (lh_n s) + 1 + j"
  shows "head_ok (lstart s) (crash_disk s k (of_int (lstart s)))"
    "apply_writes (crash_disk s k) (recovery_writes (lstart s) (crash_disk s k)) b = new_disk s b"
proof -
  let ?e = "apply_writes (v_disk (labs s)) (log_writes s @ [(of_int (lstart s), tx_head s)])"
  have d: "crash_disk s k = apply_writes ?e (take j (home_writes s))"
    using j by (simp add: crash_disk_def commit_writes_def log_writes_def home_writes_def k)
  have home: "x \<notin> fst ` set (take j (home_writes s))" if "x \<in> log_area s" for x
  proof -
    have "x \<notin> fst ` set (home_writes s)"
      unfolding home_writes_def using that t by (intro notin_writes) (auto simp: tx_ready_def)
    then show ?thesis using set_take_subset[of j "home_writes s"] by blast
  qed
  have st: "of_int (lstart s) \<in> log_area s" using area_blocks(1) by (simp add: log_area_eq)
  have h: "crash_disk s k (of_int (lstart s)) = tx_head s" using home[OF st] by (simp add: d apply_writes_other)
  have l: "crash_disk s k (log_blk s i) = v_data (labs s) (lh_block s i)" if i: "i < nat (lh_n s)" for i
  proof -
    have "apply_writes (v_disk (labs s)) (log_writes s) (log_blk s i) = v_data (labs s) (lh_block s i)"
      unfolding log_writes_def using i tx_blocks(4)[OF t] by (intro apply_writes_map) (auto simp: inj_on_def)
    then show ?thesis using home[OF tx_blocks(1)[OF t i]] tx_blocks(2)[OF t i] by (simp add: d apply_writes_other)
  qed
  note r = recovery_committed[of s "crash_disk s k", OF t h l b]
  show "head_ok (lstart s) (crash_disk s k (of_int (lstart s)))" by (rule r(2))
  show "apply_writes (crash_disk s k) (recovery_writes (lstart s) (crash_disk s k)) b = new_disk s b"
    using r(1) installed_new[OF t b] by (simp add: d apply_writes_take)
qed

lemma crash_late:
  assumes t: "tx_ready s" and b: "b \<notin> log_area s" and k: "k > 2 * nat (lh_n s) + 1"
  shows "head_ok (lstart s) (crash_disk s k (of_int (lstart s)))"
    "apply_writes (crash_disk s k) (recovery_writes (lstart s) (crash_disk s k)) b = new_disk s b"
proof -
  let ?e = "apply_writes (v_disk (labs s)) (log_writes s @ [(of_int (lstart s), tx_head s)])"
  let ?h = "head_of 0 (lh_block s) (tx_head s)"
  have d: "crash_disk s k = (apply_writes ?e (home_writes s))(of_int (lstart s) := ?h)"
    using k by (simp add: crash_disk_def commit_writes_def log_writes_def home_writes_def)
  have h: "hd_n (crash_disk s k (of_int (lstart s))) \<le> 0" using head_roundtrip(1)[of 0] by (simp add: d)
  have "crash_disk s k b = new_disk s b"
    using installed_new[OF t b] logged_other(2)[OF t b] by (simp add: d)
  then show "apply_writes (crash_disk s k) (recovery_writes (lstart s) (crash_disk s k)) b = new_disk s b"
    using recovery_empty(1)[of "crash_disk s k", OF h] b by (simp add: log_area_eq)
  show "head_ok (lstart s) (crash_disk s k (of_int (lstart s)))"
    using recovery_empty(2)[of "crash_disk s k", OF h] b by (simp add: log_area_eq)
qed

lemma crash_cases:
  assumes "tx_ready s" "b \<notin> log_area s"
  shows "head_ok (lstart s) (crash_disk s k (of_int (lstart s))) \<and>
    apply_writes (crash_disk s k) (recovery_writes (lstart s) (crash_disk s k)) b =
      (if k \<le> nat (lh_n s) then v_disk (labs s) b else new_disk s b)"
proof -
  consider "k \<le> nat (lh_n s)" | j where "\<not> k \<le> nat (lh_n s)" "j \<le> nat (lh_n s)" "k = nat (lh_n s) + 1 + j"
    | "\<not> k \<le> nat (lh_n s)" "k > 2 * nat (lh_n s) + 1"
  proof -
    assume a: "k \<le> nat (lh_n s) \<Longrightarrow> thesis"
      "\<And>j. \<not> k \<le> nat (lh_n s) \<Longrightarrow> j \<le> nat (lh_n s) \<Longrightarrow> k = nat (lh_n s) + 1 + j \<Longrightarrow> thesis"
      "\<not> k \<le> nat (lh_n s) \<Longrightarrow> 2 * nat (lh_n s) + 1 < k \<Longrightarrow> thesis"
    show thesis using a(1) a(2)[of "k - nat (lh_n s) - 1"] a(3) by linarith
  qed
  then show ?thesis
  proof cases
    case 1
    then show ?thesis using crash_early[OF assms(1) 1 assms(2)] by simp
  next
    case 2
    then show ?thesis using crash_committed[OF assms(1) 2(2) assms(2) 2(3)] by simp
  next
    case 3
    then show ?thesis using crash_late[OF assms(1,2) 3(2)] by simp
  qed
qed


text \<open>A crash in the middle of recovery: recovering once more gives the same disk.\<close>

lemma recovery_again:
  assumes h: "head_ok st (d (of_int st))" and d'_def: "d' = apply_writes d (take k (recovery_writes st d))"
  shows "head_ok st (d' (of_int st))"
    "b \<notin> area st \<Longrightarrow> apply_writes d' (recovery_writes st d') b = apply_writes d (recovery_writes st d) b"
proof -
  let ?h = "d (of_int st)"
  define H where "H = map (\<lambda>i. (hd_block ?h i, d (of_int (st + int i + 1)))) [0..<nat (hd_n ?h)]"
  have w: "recovery_writes st d = H @ [(of_int st, st32 ?h 0 0)]"
    by (simp add: recovery_writes_def H_def Let_def)
  have "head_ok st (d' (of_int st)) \<and>
    (b \<notin> area st \<longrightarrow> apply_writes d' (recovery_writes st d') b = apply_writes d (recovery_writes st d) b)"
  proof (cases "k \<le> length H")
    case True
    then have d': "d' = apply_writes d (take k H)" by (simp add: d'_def w)
    have out: "d' x = d x" if "x \<in> area st" for x
    proof -
      have "x \<notin> fst ` set H" unfolding H_def using that h by (intro notin_writes) (auto simp: head_ok_def)
      then have "x \<notin> fst ` set (take k H)" using set_take_subset[of k H] by blast
      then show ?thesis by (simp add: d' apply_writes_other)
    qed
    have "d' (of_int (st + int i + 1)) = d (of_int (st + int i + 1))" if "i < nat (hd_n ?h)" for i
      by (rule out[OF area_blocks(2)]) (use that h in \<open>auto simp: head_ok_def\<close>)
    then have "recovery_writes st d' = recovery_writes st d"
      by (simp add: recovery_writes_def Let_def out[OF area_blocks(1)])
    then show ?thesis using h by (simp add: out[OF area_blocks(1)]) (simp add: d'_def apply_writes_take)
  next
    case False
    then have d': "d' = apply_writes d (recovery_writes st d)" by (simp add: d'_def w)
    have "hd_n (d' (of_int st)) \<le> 0" by (simp add: d' w hd_n_def bytes_simps)
    then show ?thesis using recovery_empty[of d'] by (auto simp: d' head_ok_def)
  qed
  then show "head_ok st (d' (of_int st))"
    "b \<notin> area st \<Longrightarrow> apply_writes d' (recovery_writes st d') b = apply_writes d (recovery_writes st d) b"
    by blast+
qed

section \<open>Concurrent operations\<close>

text \<open>What a routine that returns may have changed: the cache and, in \<^verbatim>\<open>commit\<close>, the header.\<close>

lemma on_bc_same: "on_bc f s = Ret x s' \<Longrightarrow> same_log s s'"
  by (auto simp: on_bc_def in_part_eq_Ret same_log_def)

lemma write_log_same: "write_log_loop ts pid s = Ret x s' \<Longrightarrow> same_log s s'"
  by (induction ts arbitrary: s) (auto simp: bnd_eq_Ret dest!: on_bc_same intro: same_log_trans same_log_refl)

lemma install_same: "install_trans_loop ts pid r s = Ret x s' \<Longrightarrow> same_log s s'"
  by (induction ts arbitrary: s) (auto simp: bnd_eq_Ret dest!: on_bc_same intro: same_log_trans same_log_refl)

lemma write_head_same: "write_head pid s = Ret x s' \<Longrightarrow> same_log s s'"
  unfolding write_head_def by (rule on_bc_same)

lemma commit_result:
  assumes "commit pid s = Ret x s'" "0 \<le> lh_n s"
  shows "lh_n s' = 0 \<and> outstanding s' = outstanding s \<and> lsize s' = lsize s \<and> committing s' = committing s"
proof (cases "lh_n s > 0")
  case True
  then obtain s1 s2 s3 where r: "write_log_loop [0..<nat (lh_n s)] pid s = Ret () s1" "write_head pid s1 = Ret () s2"
      "install_trans_loop [0..<nat (lh_n s2)] pid False s2 = Ret () s3" "write_head pid (s3\<lparr>lh_n := 0\<rparr>) = Ret x s'"
    using assms(1) by (auto simp: commit_def write_log_def install_trans_def bnd_eq_Ret)
  have "same_log s s3" using write_log_same[OF r(1)] write_head_same[OF r(2)] install_same[OF r(3)]
    by (blast intro: same_log_trans same_log_refl)
  then show ?thesis using write_head_same[OF r(4)] by (auto simp: same_log_def)
next
  case False
  then show ?thesis using assms by (simp add: commit_def)
qed

text \<open>
  Operations of several processes on one log. \<open>ops\<close> holds, for every operation between its \<^verbatim>\<open>begin_op\<close> and its
  \<^verbatim>\<open>end_op\<close>, the number of blocks it may still add to the log; \<open>works\<close> is whatever the operations do
  with the cache in between.
\<close>

record ops =
  olog :: log
  budgets :: "nat multiset"

inductive ops_step :: "ops \<Rightarrow> ops \<Rightarrow> bool" where
  opens: "begin_op (olog s) = Ret () l \<Longrightarrow>
     ops_step s (s\<lparr>olog := l, budgets := add_mset MAXOPBLOCKS (budgets s)\<rparr>)"
| writes: "log_write b (olog s) = Ret () l \<Longrightarrow> r \<in># budgets s \<Longrightarrow> r > 0 \<Longrightarrow>
     ops_step s (s\<lparr>olog := l, budgets := add_mset (r - 1) (budgets s - {#r#})\<rparr>)"
| closes: "end_op pid (olog s) = Ret () l \<Longrightarrow> r \<in># budgets s \<Longrightarrow>
     ops_step s (s\<lparr>olog := l, budgets := budgets s - {#r#}\<rparr>)"
| works: "ops_step s (s\<lparr>olog := (olog s)\<lparr>lbc := c\<rparr>\<rparr>)"

inductive ops_reach :: "log \<Rightarrow> ops \<Rightarrow> bool" for l where
  start: "lh_n l = 0 \<Longrightarrow> outstanding l = 0 \<Longrightarrow> \<not> committing l \<Longrightarrow> ops_reach l \<lparr>olog = l, budgets = {#}\<rparr>"
| more: "ops_reach l s \<Longrightarrow> ops_step s t \<Longrightarrow> ops_reach l t"

definition ops_inv :: "int \<Rightarrow> ops \<Rightarrow> bool" where
  "ops_inv n s \<longleftrightarrow> outstanding (olog s) = int (size (budgets s)) \<and> \<not> committing (olog s) \<and> lsize (olog s) = n \<and>
     (\<forall>r \<in># budgets s. r \<le> MAXOPBLOCKS) \<and> 0 \<le> lh_n (olog s) \<and>
     nat (lh_n (olog s)) + sum_mset (budgets s) \<le> LOGSIZE"

lemma budgets_le: "(\<forall>r \<in># M. r \<le> (k :: nat)) \<Longrightarrow> sum_mset M \<le> k * size M"
  by (induction M) auto

lemma ops_inv_step:
  assumes "ops_step s t" "ops_inv n s"
  shows "ops_inv n t"
  using assms
proof (induction rule: ops_step.induct)
  case (opens s l)
  then show ?case
    using budgets_le[of "budgets s" MAXOPBLOCKS] by (auto simp: ops_inv_def begin_op_def split: if_splits)
next
  case (writes b s l r)
  obtain M where M: "budgets s = add_mset r M" using writes(2) by (metis mset_add)
  show ?case using writes(1,3,4) by (auto simp: ops_inv_def log_write_def Let_def M split: if_splits)
next
  case (closes pid s l r)
  obtain M where M: "budgets s = add_mset r M" using closes(2) by (metis mset_add)
  show ?case
    using closes(1,3) by (auto simp: ops_inv_def end_op_def Let_def M bnd_eq_Ret split: if_splits dest!: commit_result)
next
  case (works s c)
  then show ?case by (simp add: ops_inv_def)
qed

lemma ops_reach_inv: "ops_reach l s \<Longrightarrow> ops_inv (lsize l) s"
  by (induction rule: ops_reach.induct) (auto simp: ops_inv_def[of _ "\<lparr>olog = l, budgets = {#}\<rparr>"] intro: ops_inv_step)

lemma absorb_index_le: "absorb_index b s \<le> nat (lh_n s)"
  by (auto simp: absorb_index_def split: option.splits dest!: find_SomeD)

section \<open>The log's properties\<close>

text \<open>A transaction of one block, 60, whose buffer holds sevens while the disk holds zeros.\<close>

definition demo_log :: log where
  "demo_log = \<lparr>lstart = 2, lsize = 30, outstanding = 0, committing = True, ldev = ROOTDEV, lh_n = 1,
     lh_block = (\<lambda>_. 60), lwakes = [],
     lbc = (boot_bcache (\<lambda>_ _. 0))\<lparr>bufs := (\<lambda>_. fresh_buf)(0 := fresh_buf\<lparr>bvalid := True, bdev := ROOTDEV,
       blockno := 60, refcnt := 1, bdata := (\<lambda>_. 7)\<rparr>)\<rparr>\<rparr>"

definition demo_sb :: superblock where
  "demo_sb = \<lparr>magic = 0x10203040, sb_size = 2000, nblocks = 1954, ninodes = 200, nlog = 30, logstart = 2,
     inodestart = 32, bmapstart = 45\<rparr>"

lemma demo_log_inv: "bc_inv (lbc demo_log)"
  by (auto simp: bc_inv_def demo_log_def boot_bcache_eq fresh_buf_def initsleeplock_def simp del: upt_Suc)

lemma demo_log_slot: "slot_of (lbc demo_log) b = (if b = 60 then Some 0 else None)"
proof (cases "b = 60")
  case True
  then show ?thesis by (simp add: slot_some[OF demo_log_inv]) (simp add: demo_log_def)
next
  case False
  then have "slot_of (lbc demo_log) b = None"
    by (auto simp: slot_none[OF demo_log_inv]) (simp add: demo_log_def fresh_buf_def split: if_splits)
  then show ?thesis using False by simp
qed

lemma demo_log_busy: "busy (lbc demo_log) = {0}"
  by (auto simp: busy_def demo_log_def fresh_buf_def split: if_splits)

lemma demo_log_ready: "tx_ready demo_log"
proof -
  have "labs demo_log = \<lparr>v_data = (\<lambda>b. if b = 60 then (\<lambda>_. 7) else (\<lambda>_. 0)), v_disk = (\<lambda>_ _. 0),
      v_refs = (\<lambda>b. if b = 60 then 1 else 0), v_lock = (\<lambda>_. None), v_busy = 1, v_trace = []\<rparr>"
    by (auto simp: abs_bc_def demo_log_slot demo_log_busy view_def refs_def locked_def fun_eq_iff)
       (simp_all add: demo_log_def boot_bcache_eq fresh_buf_def initsleeplock_def)
  moreover have "(60 :: u32) \<notin> log_area demo_log"
    using area_bound[of 2 60] by (auto simp: log_area_eq demo_log_def)
  ultimately show ?thesis
    using demo_log_inv by (auto simp: tx_ready_def quiet_def) 
       (auto simp: demo_log_def inj_on_def hd_n_def ld32_def le32_def Let_def)
qed




text \<open>A disk with one committed block in the log, not yet installed.\<close>

definition demo_disk :: "u32 \<Rightarrow> block" where
  "demo_disk = (\<lambda>_ _. 0)(2 := head_of 1 (\<lambda>_. 60) (\<lambda>_. 0), 3 := (\<lambda>_. 7))"

lemma demo_disk_head: "head_ok (sint (logstart demo_sb)) (demo_disk (of_int (sint (logstart demo_sb))))"
proof -
  have "(60 :: u32) \<notin> area 2" using area_bound[of 2 60] by auto
  then show ?thesis
    using head_roundtrip[where n = 1 and f = "\<lambda>_. 60" and d = "\<lambda>_. 0"] by (simp add: head_ok_def demo_sb_def demo_disk_def)
qed




text \<open>A log of 31 blocks in which one operation has begun.\<close>

definition demo_ops :: ops where
  "demo_ops = \<lparr>olog = (boot_log (\<lambda>_ _. 0))\<lparr>lsize := 31, outstanding := 1\<rparr>, budgets = {#10#}\<rparr>"

lemma demo_ops_reach: "ops_reach ((boot_log (\<lambda>_ _. 0))\<lparr>lsize := 31\<rparr>) demo_ops"
proof -
  let ?l = "(boot_log (\<lambda>_ _. 0))\<lparr>lsize := 31\<rparr>"
  have "begin_op ?l = Ret () (olog demo_ops)" by (simp add: begin_op_def boot_log_def demo_ops_def)
  then have "ops_step \<lparr>olog = ?l, budgets = {#}\<rparr> demo_ops"
    using opens[of "\<lparr>olog = ?l, budgets = {#}\<rparr>" "olog demo_ops"] by (simp add: demo_ops_def)
  then show ?thesis by (intro ops_reach.more[OF ops_reach.start]) (simp_all add: boot_log_def)
qed


lemma log_write_cases:
  assumes "0 \<le> lh_n s" "lh_n s < int LOGSIZE" "lh_n s < lsize s - 1" "1 \<le> outstanding s"
    "inj_on (lh_block s) {..<nat (lh_n s)}"
  shows "if blockno (bufs (lbc s) b) \<in> lh_block s ` {..<nat (lh_n s)} then log_write b s = Ret () s
    else \<exists>s'. log_write b s = Ret () s' \<and> lh_n s' = lh_n s + 1 \<and> lbc s' = bpin b (lbc s) \<and>
      inj_on (lh_block s') {..<nat (lh_n s')} \<and>
      lh_block s' ` {..<nat (lh_n s')} = insert (blockno (bufs (lbc s) b)) (lh_block s ` {..<nat (lh_n s)})"
proof (cases "find (\<lambda>i. lh_block s i = blockno (bufs (lbc s) b)) [0..<nat (lh_n s)]")
  case None
  have n: "nat (lh_n s + 1) = Suc (nat (lh_n s))" using assms(1) by simp
  have new: "blockno (bufs (lbc s) b) \<notin> lh_block s ` {..<nat (lh_n s)}"
    using find_NoneD[OF None] by force
  have eq: "(lh_block s)(nat (lh_n s) := x) ` {..<nat (lh_n s)} = lh_block s ` {..<nat (lh_n s)}" for x
    by (rule image_cong) auto
  have dom: "{..<nat (lh_n s)} \<inter> {x. x \<noteq> nat (lh_n s)} = {..<nat (lh_n s)}" by auto
  have inj: "inj_on ((lh_block s)(nat (lh_n s) := blockno (bufs (lbc s) b))) (insert (nat (lh_n s)) {..<nat (lh_n s)})"
    unfolding inj_on_insert using assms(5) new by (auto simp: eq inj_on_def)
  show ?thesis
    using assms new inj by (simp add: log_write_def Let_def absorb_index_def None n lessThan_Suc dom)
next
  case (Some i)
  then have i: "i < nat (lh_n s)" "lh_block s i = blockno (bufs (lbc s) b)" by (auto dest: find_SomeD)
  then have "blockno (bufs (lbc s) b) \<in> lh_block s ` {..<nat (lh_n s)}" by (auto intro: image_eqI[of _ _ i])
  moreover have "int i \<noteq> lh_n s" using i(1) by linarith
  ultimately show ?thesis using assms i by (simp add: log_write_def Let_def absorb_index_def Some fun_upd_idem)
qed

text \<open>
  (C15) Absorption: \<^verbatim>\<open>log_write\<close> of a block that the transaction already holds changes nothing in the log and
  takes no second pin; a new block is appended once, and its buffer is pinned.
\<close>

theorem log_write_absorbs:
  assumes "0 \<le> lh_n s" "lh_n s < int LOGSIZE" "lh_n s < lsize s - 1" "1 \<le> outstanding s"
    "inj_on (lh_block s) {..<nat (lh_n s)}"
  shows "if blockno (bufs (lbc s) b) \<in> lh_block s ` {..<nat (lh_n s)} then log_write b s = Ret () s
    else \<exists>s'. log_write b s = Ret () s' \<and> lh_n s' = lh_n s + 1 \<and> lbc s' = bpin b (lbc s) \<and>
      inj_on (lh_block s') {..<nat (lh_n s')} \<and>
      lh_block s' ` {..<nat (lh_n s')} = insert (blockno (bufs (lbc s) b)) (lh_block s ` {..<nat (lh_n s)})"
  using assms by (rule log_write_cases)

lemma demo_log_facts:
  "lh_n (demo_log\<lparr>outstanding := 1\<rparr>) = 1" "lsize (demo_log\<lparr>outstanding := 1\<rparr>) = 30"
  "lh_block (demo_log\<lparr>outstanding := 1\<rparr>) = (\<lambda>_. 60)" "lbc (demo_log\<lparr>outstanding := 1\<rparr>) = lbc demo_log"
  "blockno (bufs (lbc demo_log) 0) = 60" "blockno (bufs (lbc demo_log) 5) = 0"
  by (simp_all add: demo_log_def fresh_buf_def)

theorem log_write_absorbs_witness:
  "log_write 0 (demo_log\<lparr>outstanding := 1\<rparr>) = Ret () (demo_log\<lparr>outstanding := 1\<rparr>) \<and>
   (\<exists>s'. log_write 5 (demo_log\<lparr>outstanding := 1\<rparr>) = Ret () s' \<and> lh_n s' = 2 \<and> lbc s' = bpin 5 (lbc demo_log))"
  using log_write_absorbs[of "demo_log\<lparr>outstanding := 1\<rparr>" 0, unfolded demo_log_facts]
    log_write_absorbs[of "demo_log\<lparr>outstanding := 1\<rparr>" 5, unfolded demo_log_facts]
  by (auto simp: lessThan_Suc)

end
