(* ===== verification/Fs_Store.thy ===== *)
theory Fs_Store
  imports Fs_Content Log_Crash
begin

text \<open>
  The block store that the file system works on: the buffer cache under the log, inside a transaction. The routines of \<^verbatim>\<open>fs.c\<close> read a block,
  may change it and hand it to \<^verbatim>\<open>log_write\<close>, and release it. The store's contract is stated as a locale and
  discharged for \<^verbatim>\<open>bread\<close>, \<^verbatim>\<open>log_write\<close> and \<^verbatim>\<open>brelse\<close>.
\<close>

section \<open>Transactions\<close>

text \<open>The current content of a block, and the blocks in the transaction.\<close>

definition bcontent :: "fs \<Rightarrow> u32 \<Rightarrow> block" where
  "bcontent s b = view (lbc (flog s)) b"

definition lset :: "fs \<Rightarrow> u32 set" where
  "lset s = lh_block (flog s) ` {..<nat (lh_n (flog s))}"

definition fview :: "fs \<Rightarrow> bview" where
  "fview s = abs_bc (lbc (flog s))"

text \<open>
  Inside a transaction, with process \<open>pid\<close> holding the buffers \<open>H\<close> and nobody else holding any: logged blocks are pinned once, every
  other reference is a held buffer, and a block that is not logged is as on disk.
\<close>

definition fsq :: "int \<Rightarrow> (u32 \<rightharpoonup> nat) \<Rightarrow> fs \<Rightarrow> bool" where
  "fsq pid H s \<longleftrightarrow>
     bc_inv (lbc (flog s)) \<and> finite (dom H) \<and>
     (\<forall>b. v_lock (fview s) b = (if b \<in> dom H then Some pid else None)) \<and>
     (\<forall>b bp. H b = Some bp \<longrightarrow> slot_of (lbc (flog s)) b = Some bp) \<and>
     (\<forall>b. v_refs (fview s) b = of_bool (b \<in> lset s) + of_bool (b \<in> dom H)) \<and>
     v_busy (fview s) = card (lset s \<union> dom H) \<and>
     (\<forall>b. b \<notin> lset s \<longrightarrow> v_data (fview s) b = v_disk (fview s) b) \<and>
     0 \<le> lh_n (flog s) \<and> inj_on (lh_block (flog s)) {..<nat (lh_n (flog s))} \<and> 1 \<le> outstanding (flog s)"

text \<open>How much the transaction can still grow, and what a step leaves alone.\<close>

definition used :: "fs \<Rightarrow> int" where
  "used s = lh_n (flog s)"

definition log_room :: "fs \<Rightarrow> int" where
  "log_room s = min 30 (lsize (flog s) - 1) - lh_n (flog s)"

definition same_rest :: "fs \<Rightarrow> fs \<Rightarrow> bool" where
  "same_rest s s' \<longleftrightarrow> sb s' = sb s \<and> itable s' = itable s \<and> fmem s' = fmem s \<and> msgs s' = msgs s \<and> iwakes s' = iwakes s \<and>
     lsize (flog s') = lsize (flog s) \<and> outstanding (flog s') = outstanding (flog s)"

lemma same_rest_refl [simp]: "same_rest s s"
  by (simp add: same_rest_def)

lemma same_rest_trans: "same_rest s s1 \<Longrightarrow> same_rest s1 s2 \<Longrightarrow> same_rest s s2"
  by (simp add: same_rest_def)

text \<open>A step that changes no content, and one that changes the content of a block.\<close>

definition same_store :: "fs \<Rightarrow> fs \<Rightarrow> bool" where
  "same_store s s' \<longleftrightarrow> same_rest s s' \<and> bcontent s' = bcontent s \<and> lset s' = lset s \<and> used s' = used s"

definition put_store :: "u32 \<Rightarrow> block \<Rightarrow> fs \<Rightarrow> fs \<Rightarrow> bool" where
  "put_store b d s s' \<longleftrightarrow> same_rest s s' \<and> bcontent s' = (bcontent s)(b := d) \<and> lset s' = insert b (lset s) \<and>
     used s' = used s + of_bool (b \<notin> lset s)"

lemma same_store_refl [simp]: "same_store s s"
  by (simp add: same_store_def)

lemma same_store_trans: "same_store s s1 \<Longrightarrow> same_store s1 s2 \<Longrightarrow> same_store s s2"
  by (auto simp: same_store_def intro: same_rest_trans)

lemma put_store_same: "put_store b d s s1 \<Longrightarrow> same_store s1 s2 \<Longrightarrow> put_store b d s s2"
  by (auto simp: same_store_def put_store_def intro: same_rest_trans)

lemma same_store_put: "same_store s s1 \<Longrightarrow> put_store b d s1 s2 \<Longrightarrow> put_store b d s s2"
  by (auto simp: same_store_def put_store_def intro: same_rest_trans)

lemma log_room_same: "same_store s s' \<Longrightarrow> log_room s' = log_room s"
  by (simp add: same_store_def same_rest_def log_room_def used_def)

lemma log_room_put: "put_store b d s s' \<Longrightarrow> log_room s' = log_room s - of_bool (b \<notin> lset s)"
  by (simp add: put_store_def same_rest_def log_room_def used_def)

section \<open>The contract\<close>

locale block_store =
  fixes rd :: "u32 \<Rightarrow> 's \<Rightarrow> (nat, 's) res"
    and logput :: "nat \<Rightarrow> block \<Rightarrow> 's \<Rightarrow> (unit, 's) res"
    and rel :: "nat \<Rightarrow> 's \<Rightarrow> (unit, 's) res"
    and get :: "'s \<Rightarrow> nat \<Rightarrow> block"
    and inv :: "(u32 \<rightharpoonup> nat) \<Rightarrow> 's \<Rightarrow> bool"
    and content :: "'s \<Rightarrow> u32 \<Rightarrow> block"
    and bound :: "'s \<Rightarrow> int"
    and room :: "'s \<Rightarrow> int"
    and same :: "'s \<Rightarrow> 's \<Rightarrow> bool"
    and upd :: "u32 \<Rightarrow> block \<Rightarrow> 's \<Rightarrow> 's \<Rightarrow> bool"
  assumes rd_ok: "inv H s \<Longrightarrow> H b = None \<Longrightarrow> bound s + int (card (dom H)) < 30 \<Longrightarrow>
      runs (rd b s) (\<lambda>bp s'. inv (H(b \<mapsto> bp)) s' \<and> same s s')"
    and get_ok: "inv H s \<Longrightarrow> H b = Some bp \<Longrightarrow> get s bp = content s b"
    and logput_ok: "inv H s \<Longrightarrow> H b = Some bp \<Longrightarrow> 0 < room s \<Longrightarrow> runs (logput bp d s) (\<lambda>_ s'. inv H s' \<and> upd b d s s')"
    and rel_ok: "inv H s \<Longrightarrow> H b = Some bp \<Longrightarrow> runs (rel bp s) (\<lambda>_ s'. inv (H(b := None)) s' \<and> same s s')"
    and same_content: "same s s' \<Longrightarrow> content s' = content s \<and> bound s' = bound s \<and> room s' = room s"
    and same_same: "same s s1 \<Longrightarrow> same s1 s2 \<Longrightarrow> same s s2"
    and upd_same: "upd b d s s1 \<Longrightarrow> same s1 s2 \<Longrightarrow> upd b d s s2"
    and same_upd: "same s s1 \<Longrightarrow> upd b d s1 s2 \<Longrightarrow> upd b d s s2"
begin

text \<open>Look at a block: what is done with it depends on its content only, and its buffer is released.\<close>

lemma rd_rel:
  assumes "inv H s" "H b = None" "bound s + int (card (dom H)) < 30"
  obtains bp s1 s2 where "rd b s = Ret bp s1" "inv (H(b \<mapsto> bp)) s1" "same s s1" "get s1 bp = content s b"
    "rel bp s1 = Ret () s2" "inv H s2" "same s s2"
proof -
  obtain bp s1 where 1: "rd b s = Ret bp s1" "inv (H(b \<mapsto> bp)) s1" "same s s1"
    using rd_ok[OF assms] by (auto elim!: runsE)
  have g: "get s1 bp = content s b" using get_ok[OF 1(2), of b bp] same_content[OF 1(3)] by simp
  obtain s2 where 2: "rel bp s1 = Ret () s2" "inv ((H(b \<mapsto> bp))(b := None)) s2" "same s1 s2"
    using rel_ok[OF 1(2), of b bp] by (auto elim!: runsE)
  have "(H(b \<mapsto> bp))(b := None) = H" using assms(2) by (auto simp: fun_eq_iff)
  then show thesis using that[OF 1 g 2(1)] 2 same_same[OF 1(3) 2(3)] by simp
qed

text \<open>Read, change, log and release a block.\<close>

lemma update:
  assumes "inv H s" "H b = None" "bound s + int (card (dom H)) < 30" "0 < room s"
  shows "runs (bnd (rd b s) (\<lambda>bp s. bnd (logput bp (f (get s bp)) s) (\<lambda>_ s. rel bp s)))
    (\<lambda>_ s'. inv H s' \<and> upd b (f (content s b)) s s')"
proof -
  obtain bp s1 where 1: "rd b s = Ret bp s1" "inv (H(b \<mapsto> bp)) s1" "same s s1"
    using rd_ok[OF assms(1-3)] by (auto elim!: runsE)
  note c = same_content[OF 1(3)]
  have g: "get s1 bp = content s b" using get_ok[OF 1(2), of b bp] c by simp
  obtain s2 where 2: "logput bp (f (content s b)) s1 = Ret () s2" "inv (H(b \<mapsto> bp)) s2" "upd b (f (content s b)) s1 s2"
    using logput_ok[OF 1(2), of b bp "f (content s b)"] assms(4) c by (auto elim!: runsE)
  obtain s3 where 3: "rel bp s2 = Ret () s3" "inv ((H(b \<mapsto> bp))(b := None)) s3" "same s2 s3"
    using rel_ok[OF 2(2), of b bp] by (auto elim!: runsE)
  have "(H(b \<mapsto> bp))(b := None) = H" using assms(2) by (auto simp: fun_eq_iff)
  then show ?thesis
    using 1(1) g 2(1) 3 upd_same[OF same_upd[OF 1(3) 2(3)] 3(3)] by simp
qed

end

section \<open>The cache under the log keeps the contract\<close>

lemma lset_card:
  assumes "fsq pid H s"
  shows "finite (lset s)" "card (lset s) = nat (lh_n (flog s))"
  using assms by (auto simp: lset_def fsq_def card_image)

lemma bcontent_fview: "bcontent s b = v_data (fview s) b"
  by (simp add: bcontent_def fview_def abs_bc_def)

lemma fsqD:
  assumes "fsq pid H s" "H b = Some bp"
  shows "bc_inv (lbc (flog s))" "slot_of (lbc (flog s)) b = Some bp" "v_lock (abs_bc (lbc (flog s))) b = Some pid"
    "blockno (bufs (lbc (flog s)) bp) = b"
proof -
  show i: "bc_inv (lbc (flog s))" "slot_of (lbc (flog s)) b = Some bp" "v_lock (abs_bc (lbc (flog s))) b = Some pid"
    using assms by (auto simp: fsq_def fview_def)
  show "blockno (bufs (lbc (flog s)) bp) = b" using i(2) by (simp add: slot_some[OF i(1)])
qed

lemma fbread_ok:
  assumes q: "fsq (wpid c) H s" and b: "H b = None" and r: "used s + int (card (dom H)) < 30"
  shows "runs (fbread c ROOTDEV b s) (\<lambda>bp s'. fsq (wpid c) (H(b \<mapsto> bp)) s' \<and> same_store s s')"
proof -
  let ?B = "lbc (flog s)"
  have d: "b \<notin> dom H" using b by auto
  have f: "finite (lset s)" "finite (dom H)" "0 \<le> lh_n (flog s)" using lset_card(1)[OF q] q by (auto simp: fsq_def)
  have "card (lset s \<union> dom H) \<le> nat (lh_n (flog s)) + card (dom H)"
    using card_Un_le[of "lset s" "dom H"] lset_card(2)[OF q] by simp
  also have "\<dots> < 30" using r f(3) by (simp add: used_def)
  finally have "v_free b (abs_bc ?B)"
    using q d by (auto simp: v_free_def fsq_def fview_def)
  from bc.rd_ok[OF _ this, of "wpid c"] q
  obtain bp B' where B': "bread (wpid c) ROOTDEV b ?B = Ret bp B'" "bc_inv B'" "slot_of B' b = Some bp"
      "abs_bc B' = v_read (wpid c) b (abs_bc ?B)" "\<forall>x. v_refs (abs_bc ?B) x > 0 \<longrightarrow> slot_of B' x = slot_of ?B x"
    by (auto simp: fsq_def elim!: runsE)
  let ?s = "s\<lparr>flog := (flog s)\<lparr>lbc := B'\<rparr>\<rparr>"
  have l: "lset ?s = lset s" by (simp add: lset_def)
  have v: "fview ?s = v_read (wpid c) b (fview s)" using B'(4) by (simp add: fview_def)
  have "slot_of B' x = Some y" if "H x = Some y" "x \<noteq> b" for x y
    using B'(5) q that by (auto simp: fsq_def fview_def)
  moreover have "card (lset s \<union> insert b (dom H)) = card (lset s \<union> dom H) + (if v_refs (fview s) b = 0 then 1 else 0)"
    using q d f by (cases "b \<in> lset s") (auto simp: fsq_def insert_absorb)
  ultimately have "fsq (wpid c) (H(b \<mapsto> bp)) ?s"
    using q d B'(2,3) unfolding fsq_def l v by (auto simp: v_read_def)
  moreover have "same_store s ?s"
    using v by (auto simp: same_store_def same_rest_def l used_def bcontent_fview fun_eq_iff v_read_def)
  ultimately show ?thesis using B'(1) by (simp add: fbread_def on_log_def on_bc_def)
qed

lemma fbrelse_ok:
  assumes q: "fsq (wpid c) H s" and b: "H b = Some bp"
  shows "runs (fbrelse c bp s) (\<lambda>_ s'. fsq (wpid c) (H(b := None)) s' \<and> same_store s s')"
proof -
  let ?B = "lbc (flog s)"
  note h = fsqD[OF q b]
  have f: "finite (lset s)" "finite (dom H)" using lset_card(1)[OF q] q by (auto simp: fsq_def)
  have d: "b \<in> dom H" using b by auto
  have "v_data (abs_bc ?B) b = v_disk (abs_bc ?B) b" if "v_refs (abs_bc ?B) b = 1"
    using q that d by (auto simp: fsq_def fview_def)
  from bc.rel_ok[OF h(1-3) this]
  obtain B' where B': "brelse (wpid c) bp ?B = Ret () B'" "bc_inv B'" "slot_of B' = slot_of ?B" "abs_bc B' = v_release b (abs_bc ?B)"
    by (auto elim!: runsE)
  let ?s = "s\<lparr>flog := (flog s)\<lparr>lbc := B'\<rparr>\<rparr>"
  have l: "lset ?s = lset s" by (simp add: lset_def)
  have v: "fview ?s = v_release b (fview s)" using B'(4) by (simp add: fview_def)
  have "card (lset s \<union> dom (H(b := None))) = card (lset s \<union> dom H) - (if v_refs (fview s) b = 1 then 1 else 0)"
  proof (cases "b \<in> lset s")
    case True
    then have "lset s \<union> dom (H(b := None)) = lset s \<union> dom H" by auto
    then show ?thesis using True q d by (auto simp: fsq_def)
  next
    case False
    then have "lset s \<union> dom (H(b := None)) = (lset s \<union> dom H) - {b}" by auto
    then show ?thesis using False q d f by (auto simp: fsq_def)
  qed
  then have "fsq (wpid c) (H(b := None)) ?s"
    using q d B'(2,3) unfolding fsq_def l v by (auto simp: v_release_def v_drop_def)
  moreover have "same_store s ?s"
    using v by (auto simp: same_store_def same_rest_def l used_def bcontent_fview fun_eq_iff v_release_def v_drop_def)
  ultimately show ?thesis using B'(1) by (simp add: fbrelse_def on_log_def on_bc_def)
qed

definition logput :: "nat \<Rightarrow> block \<Rightarrow> fs \<Rightarrow> (unit, fs) res" where
  "logput bp d s = flog_write bp (bp_put bp d s)"

lemma bp_put_ok:
  assumes q: "fsq pid H s" and b: "H b = Some bp"
  shows "bc_inv (lbc (flog (bp_put bp d s)))" "slot_of (lbc (flog (bp_put bp d s))) = slot_of (lbc (flog s))"
    "fview (bp_put bp d s) = v_put b d (fview s)" "blockno (bufs (lbc (flog (bp_put bp d s))) bp) = b"
proof -
  note h = fsqD[OF q b]
  note p = bc.put_ok[OF h(1-3), of d]
  then show i: "bc_inv (lbc (flog (bp_put bp d s)))" "slot_of (lbc (flog (bp_put bp d s))) = slot_of (lbc (flog s))"
      "fview (bp_put bp d s) = v_put b d (fview s)"
    by (simp_all add: bp_put_def fview_def)
  show "blockno (bufs (lbc (flog (bp_put bp d s))) bp) = b" using i(2) h(2) slot_some[OF i(1), of b bp] by simp
qed

lemma logput_known:
  assumes q: "fsq pid H s" and b: "H b = Some bp" "b \<in> lset s" and r: "0 < log_room s"
  shows "runs (logput bp d s) (\<lambda>_ s'. fsq pid H s' \<and> put_store b d s s')"
proof -
  let ?s = "bp_put bp d s"
  note p = bp_put_ok[OF q b(1), of d]
  have l: "lset ?s = lset s" "lh_n (flog ?s) = lh_n (flog s)" "lh_block (flog ?s) = lh_block (flog s)"
      "outstanding (flog ?s) = outstanding (flog s)" "lsize (flog ?s) = lsize (flog s)"
    by (simp_all add: bp_put_def lset_def)
  have "log_write bp (flog ?s) = Ret () (flog ?s)"
    using log_write_cases[of "flog ?s" bp] q r b(2) p(4) l by (auto simp: fsq_def log_room_def lset_def)
  moreover have "fsq pid H ?s"
    using q b(2) p(1-3) l unfolding fsq_def by (auto simp: v_put_def)
  moreover have "put_store b d s ?s"
    using b(2) p(3) l by (auto simp: put_store_def same_rest_def used_def bcontent_fview fun_eq_iff v_put_def insert_absorb)
      (auto simp: bp_put_def)
  ultimately show ?thesis by (simp add: logput_def flog_write_def on_log_def bp_put_def)
qed

lemma logput_new:
  assumes q: "fsq pid H s" and b: "H b = Some bp" "b \<notin> lset s" and r: "0 < log_room s"
  shows "runs (logput bp d s) (\<lambda>_ s'. fsq pid H s' \<and> put_store b d s s')"
proof -
  let ?s = "bp_put bp d s"
  note p = bp_put_ok[OF q b(1), of d]
  have d: "b \<in> dom H" using b by auto
  have l: "lset ?s = lset s" "lh_n (flog ?s) = lh_n (flog s)" "lh_block (flog ?s) = lh_block (flog s)"
      "outstanding (flog ?s) = outstanding (flog s)" "lsize (flog ?s) = lsize (flog s)"
    by (simp_all add: bp_put_def lset_def)
  obtain L' where L: "log_write bp (flog ?s) = Ret () L'" "lh_n L' = lh_n (flog s) + 1" "lbc L' = bpin bp (lbc (flog ?s))"
      "inj_on (lh_block L') {..<nat (lh_n L')}" "lh_block L' ` {..<nat (lh_n L')} = insert b (lset s)"
    using log_write_cases[of "flog ?s" bp] q r b(2) p(4) l by (auto simp: fsq_def log_room_def lset_def)
  have o: "outstanding L' = outstanding (flog s)" "lsize L' = lsize (flog s)"
    using L(1) l by (auto simp: log_write_def Let_def split: if_splits)
  let ?t = "?s\<lparr>flog := L'\<rparr>"
  have k: "v_lock (abs_bc (lbc (flog ?s))) b = Some pid" "slot_of (lbc (flog ?s)) b = Some bp"
    "v_refs (abs_bc (lbc (flog ?s))) b + 1 < 2 ^ 32"
    using p(3) fsqD[OF q b(1)] p(2) q b(2) d by (auto simp: fview_def[symmetric] v_put_def fsq_def)
  have t: "bc_inv (lbc (flog ?t))" "slot_of (lbc (flog ?t)) = slot_of (lbc (flog s))" "fview ?t = v_pin b (v_put b d (fview s))"
    using bc.pin_ok[OF p(1) k(2,1,3)] p(2,3) L(3) by (auto simp: fview_def)
  have lt: "lset ?t = insert b (lset s)" using L(5) by (simp add: lset_def)
  have "fsq pid H ?t"
    using q b d t lt L(2,4) o unfolding fsq_def by (auto simp: v_pin_def v_put_def insert_absorb)
  moreover have "put_store b d s ?t"
    using t(3) lt L(2) o b(2) l by (auto simp: put_store_def same_rest_def used_def bcontent_fview fun_eq_iff v_pin_def v_put_def)
      (auto simp: bp_put_def)
  ultimately show ?thesis using L(1) by (simp add: logput_def flog_write_def on_log_def)
qed

interpretation bs: block_store "fbread c ROOTDEV" logput "fbrelse c" bp_data "fsq (wpid c)" bcontent used log_room same_store put_store for c
proof (unfold_locales, goal_cases)
  case (1 H s b)
  then show ?case by (rule fbread_ok)
next
  case (2 H s b bp)
  then show ?case using bc.get_ok[OF fsqD(1-3)[OF 2]] by (simp add: bp_data_def bcontent_fview fview_def)
next
  case (3 H s b bp d)
  then show ?case using logput_known logput_new by (cases "b \<in> lset s") blast+
next
  case (4 H s b bp)
  then show ?case by (rule fbrelse_ok)
next
  case (5 s s')
  then show ?case using log_room_same by (simp add: same_store_def)
qed (fact same_store_trans put_store_same same_store_put)+

section \<open>A mounted file system\<close>

text \<open>A file system on the disk \<open>d\<close> whose first transaction has begun: nothing cached, nothing logged.\<close>

definition boot_inode :: inode where
  "boot_inode = \<lparr>i_dev = 0, i_inum = 0, i_ref = 0, i_lock = initsleeplock, i_valid = False, i_type = 0, i_major = 0, i_minor = 0,
     i_nlink = 0, i_size = 0, i_addrs = (\<lambda>_. 0)\<rparr>"

definition boot_fs :: "(u32 \<Rightarrow> block) \<Rightarrow> fs" where
  "boot_fs d = \<lparr>sb = demo_sb, itable = (\<lambda>_. boot_inode),
     flog = \<lparr>lstart = 2, lsize = 30, outstanding = 1, committing = False, ldev = ROOTDEV, lh_n = 0, lh_block = (\<lambda>_. 0), lwakes = [],
       lbc = boot_bcache d\<rparr>,
     fmem = \<lparr>phys = (\<lambda>_. 0), freelist = 0, kend = KERNBASE\<rparr>, msgs = [], iwakes = []\<rparr>"

lemma boot_fs_store:
  "fsq pid Map.empty (boot_fs d)" "bcontent (boot_fs d) = d" "used (boot_fs d) = 0" "log_room (boot_fs d) = 29" "sb (boot_fs d) = demo_sb"
  "lset (boot_fs d) = {}"
proof -
  have l: "flog (boot_fs d) = \<lparr>lstart = 2, lsize = 30, outstanding = 1, committing = False, ldev = ROOTDEV, lh_n = 0,
      lh_block = (\<lambda>_. 0), lwakes = [], lbc = boot_bcache d\<rparr>" by (simp add: boot_fs_def)
  show e: "lset (boot_fs d) = {}" by (simp add: lset_def l)
  show "fsq pid Map.empty (boot_fs d)" using boot_inv[of d] by (simp add: fsq_def fview_def l e boot_abs)
  show "bcontent (boot_fs d) = d" by (simp add: fun_eq_iff bcontent_def l boot_parts(4))
  show "used (boot_fs d) = 0" "log_room (boot_fs d) = 29" by (simp_all add: used_def log_room_def l)
  show "sb (boot_fs d) = demo_sb" by (simp add: boot_fs_def)
qed

end
