(* ===== verification/Proc_Table.thy ===== *)
theory Proc_Table
  imports Trap Fs_Store
begin

text \<open>
  The process table under every system call and trap. What the table says of a process - its state, its identifier and
  its parent - is abstracted to a small machine (\<open>tstep\<close>) whose steps are the ones \<^verbatim>\<open>kernel/proc.c\<close> documents, and every outcome
  of \<open>usertrap\<close>, \<open>kerneltrap\<close>, \<open>userinit\<close> and the scheduler is shown to be a sequence of such steps. A routine that only works on
  files, memory or the disk keeps the abstract table.
\<close>

section \<open>The abstract table\<close>

record pslot =
  st :: procstate
  spid :: int
  spar :: "nat option"

record ptable =
  slots :: "nat \<Rightarrow> pslot"
  npid :: int
  iproc :: "nat option"

definition pslot_of :: "proc \<Rightarrow> pslot" where
  "pslot_of x = \<lparr>st = p_state x, spid = p_pid x, spar = p_parent x\<rparr>"

definition table_of :: "kern \<Rightarrow> ptable" where
  "table_of s = \<lparr>slots = (\<lambda>p. pslot_of (procs s p)), npid = nextpid s, iproc = initproc s\<rparr>"

definition put_slot :: "nat \<Rightarrow> pslot \<Rightarrow> ptable \<Rightarrow> ptable" where
  "put_slot p x T = T\<lparr>slots := (slots T)(p := x)\<rparr>"

inductive tstep :: "ptable \<Rightarrow> ptable \<Rightarrow> bool" where
  t_alloc: "p < NPROC \<Longrightarrow> st (slots T p) = UNUSED \<Longrightarrow>
     tstep T ((put_slot p ((slots T p)\<lparr>st := USED, spid := npid T\<rparr>) T)\<lparr>npid := npid T + 1\<rparr>)"
| t_free: "p < NPROC \<Longrightarrow> st (slots T p) = USED \<or> st (slots T p) = ZOMBIE \<Longrightarrow> iproc T \<noteq> Some p \<Longrightarrow>
     tstep T (put_slot p \<lparr>st = UNUSED, spid = 0, spar = None\<rparr> T)"
| t_boot: "p < NPROC \<Longrightarrow> st (slots T p) = USED \<Longrightarrow> iproc T = None \<Longrightarrow> tstep T (T\<lparr>iproc := Some p\<rparr>)"
| t_init: "p < NPROC \<Longrightarrow> st (slots T p) = USED \<Longrightarrow> tstep T (put_slot p ((slots T p)\<lparr>st := RUNNABLE\<rparr>) T)"
| t_child: "p < NPROC \<Longrightarrow> st (slots T p) = USED \<Longrightarrow> q < NPROC \<Longrightarrow> st (slots T q) = RUNNING \<Longrightarrow>
     tstep T (put_slot p ((slots T p)\<lparr>st := RUNNABLE, spar := Some q\<rparr>) T)"
| t_run: "p < NPROC \<Longrightarrow> st (slots T p) = RUNNABLE \<Longrightarrow> tstep T (put_slot p ((slots T p)\<lparr>st := RUNNING\<rparr>) T)"
| t_yield: "p < NPROC \<Longrightarrow> st (slots T p) = RUNNING \<Longrightarrow> tstep T (put_slot p ((slots T p)\<lparr>st := RUNNABLE\<rparr>) T)"
| t_sleep: "p < NPROC \<Longrightarrow> st (slots T p) = RUNNING \<Longrightarrow> tstep T (put_slot p ((slots T p)\<lparr>st := SLEEPING\<rparr>) T)"
| t_wake: "p < NPROC \<Longrightarrow> st (slots T p) = SLEEPING \<Longrightarrow> tstep T (put_slot p ((slots T p)\<lparr>st := RUNNABLE\<rparr>) T)"
| t_adopt: "q < NPROC \<Longrightarrow> st (slots T q) \<noteq> UNUSED \<Longrightarrow> tstep T (put_slot q ((slots T q)\<lparr>spar := iproc T\<rparr>) T)"
| t_exit: "p < NPROC \<Longrightarrow> st (slots T p) = RUNNING \<Longrightarrow> iproc T \<noteq> Some p \<Longrightarrow> \<forall>q < NPROC. spar (slots T q) \<noteq> Some p \<Longrightarrow>
     tstep T (put_slot p ((slots T p)\<lparr>st := ZOMBIE\<rparr>) T)"

abbreviation tsteps :: "ptable \<Rightarrow> ptable \<Rightarrow> bool" where
  "tsteps \<equiv> tstep\<^sup>*\<^sup>*"

section \<open>Well-formedness\<close>

definition alive :: "ptable \<Rightarrow> nat \<Rightarrow> bool" where
  "alive T p \<longleftrightarrow> p < NPROC \<and> (st (slots T p) \<in> {SLEEPING, RUNNABLE, RUNNING} \<or> st (slots T p) = USED \<and> iproc T = Some p)"

definition slot_ok :: "ptable \<Rightarrow> pslot \<Rightarrow> bool" where
  "slot_ok T x \<longleftrightarrow>
     (if st x = UNUSED then spid x = 0 \<and> spar x = None else 0 < spid x \<and> spid x < npid T) \<and>
     (case spar x of None \<Rightarrow> True | Some q \<Rightarrow> alive T q)"

definition pids_differ :: "ptable \<Rightarrow> bool" where
  "pids_differ T \<longleftrightarrow> (\<forall>p < NPROC. \<forall>q < NPROC. st (slots T p) \<noteq> UNUSED \<and> st (slots T q) \<noteq> UNUSED \<and>
     spid (slots T p) = spid (slots T q) \<longrightarrow> p = q)"

definition table_ok :: "ptable \<Rightarrow> bool" where
  "table_ok T \<longleftrightarrow> 0 < npid T \<and> (\<forall>p < NPROC. slot_ok T (slots T p)) \<and> pids_differ T \<and>
     (case iproc T of None \<Rightarrow> True | Some i \<Rightarrow> alive T i)"

lemma table_okI:
  assumes "0 < npid T" "\<And>p. p < NPROC \<Longrightarrow> slot_ok T (slots T p)" "pids_differ T" "\<And>i. iproc T = Some i \<Longrightarrow> alive T i"
  shows "table_ok T"
  using assms by (simp add: table_ok_def split: option.split)

lemma table_okD:
  assumes "table_ok T"
  shows "0 < npid T" "pids_differ T" "iproc T = Some i \<Longrightarrow> alive T i"
    and "p < NPROC \<Longrightarrow> slot_ok T (slots T p)"
  using assms by (simp_all add: table_ok_def)

lemma no_child_of_dead:
  assumes "table_ok T" "\<not> alive T p" "q < NPROC"
  shows "spar (slots T q) \<noteq> Some p"
  using table_okD(4)[OF assms(1,3)] assms(2) by (auto simp: slot_ok_def)

lemma pids_differ_put:
  assumes "pids_differ T"
    and "\<And>q. q < NPROC \<Longrightarrow> q \<noteq> p \<Longrightarrow> st (slots T q) \<noteq> UNUSED \<Longrightarrow> st x \<noteq> UNUSED \<Longrightarrow> spid (slots T q) \<noteq> spid x"
  shows "pids_differ (put_slot p x T)"
  unfolding pids_differ_def
proof (intro allI impI)
  fix a b
  assume a: "a < NPROC" and b: "b < NPROC"
    and h: "st (slots (put_slot p x T) a) \<noteq> UNUSED \<and> st (slots (put_slot p x T) b) \<noteq> UNUSED \<and>
      spid (slots (put_slot p x T) a) = spid (slots (put_slot p x T) b)"
  have old: "a = b" if "st (slots T a) \<noteq> UNUSED" "st (slots T b) \<noteq> UNUSED" "spid (slots T a) = spid (slots T b)"
    using assms(1) a b that unfolding pids_differ_def by blast
  show "a = b"
    using h old assms(2)[OF a] assms(2)[OF b] by (auto simp: put_slot_def split: if_splits)
qed

text \<open>A step that rewrites one slot keeps the table well-formed when the new slot is, and nobody loses a living parent.\<close>

lemma table_ok_put:
  assumes ok: "table_ok T" and p: "p < NPROC"
    and x: "slot_ok (put_slot p x T) x"
    and live: "\<And>q. alive T q \<Longrightarrow> alive (put_slot p x T) q"
    and pid: "spid x = spid (slots T p) \<and> st (slots T p) \<noteq> UNUSED \<or> st x = UNUSED"
  shows "table_ok (put_slot p x T)"
proof (rule table_okI)
  show "0 < npid (put_slot p x T)" using table_okD(1)[OF ok] by (simp add: put_slot_def)
  show "slot_ok (put_slot p x T) (slots (put_slot p x T) q)" if "q < NPROC" for q
  proof (cases "q = p")
    case True then show ?thesis using x by (simp add: put_slot_def)
  next
    case False
    have "slot_ok T (slots T q)" by (rule table_okD(4)[OF ok that])
    then have "slot_ok (put_slot p x T) (slots T q)"
      using live by (auto simp: slot_ok_def put_slot_def split: option.splits if_splits)
    then show ?thesis using False by (simp add: put_slot_def)
  qed
  show "pids_differ (put_slot p x T)"
  proof (rule pids_differ_put[OF table_okD(2)[OF ok]])
    fix q assume q: "q < NPROC" "q \<noteq> p" "st (slots T q) \<noteq> UNUSED" "st x \<noteq> UNUSED"
    then have "spid x = spid (slots T p)" "st (slots T p) \<noteq> UNUSED" using pid by auto
    then show "spid (slots T q) \<noteq> spid x"
      using table_okD(2)[OF ok] p q(1,2,3) unfolding pids_differ_def by metis
  qed
  show "alive (put_slot p x T) i" if "iproc (put_slot p x T) = Some i" for i
    using that live table_okD(3)[OF ok, of i] by (simp add: put_slot_def)
qed

lemma alive_put:
  assumes "alive T q" "q = p \<Longrightarrow> st x \<in> {SLEEPING, RUNNABLE, RUNNING}"
  shows "alive (put_slot p x T) q"
  using assms by (auto simp: alive_def put_slot_def)

lemma alive_put_dead:
  assumes "alive T q" "\<not> alive T p"
  shows "alive (put_slot p x T) q"
  using assms by (auto simp: alive_def put_slot_def)

lemma slot_ok_keep:
  assumes "slot_ok T x" "st x \<noteq> UNUSED" "st y \<noteq> UNUSED" "spid y = spid x" "npid T' = npid T"
    "\<And>q. spar y = Some q \<Longrightarrow> alive T' q"
  shows "slot_ok T' y"
  using assms by (auto simp: slot_ok_def split: option.splits)

lemma slot_parent: "table_ok T \<Longrightarrow> p < NPROC \<Longrightarrow> spar (slots T p) = Some q \<Longrightarrow> alive T q"
  using table_okD(4)[of T p] by (auto simp: slot_ok_def)

lemma put_slot_simps [simp]:
  "slots (put_slot p x T) q = (if q = p then x else slots T q)" "npid (put_slot p x T) = npid T" "iproc (put_slot p x T) = iproc T"
  by (simp_all add: put_slot_def)

text \<open>A change of state among the living states.\<close>

lemma table_ok_move:
  assumes ok: "table_ok T" and p: "p < NPROC" and u: "st (slots T p) \<noteq> UNUSED" "st x \<in> {SLEEPING, RUNNABLE, RUNNING}"
    and x: "spid x = spid (slots T p)" "\<And>q. spar x = Some q \<Longrightarrow> alive T q"
  shows "table_ok (put_slot p x T)"
proof (rule table_ok_put[OF ok p])
  show live: "alive (put_slot p x T) q" if "alive T q" for q by (rule alive_put[OF that]) (rule u(2))
  have "st x \<noteq> UNUSED" using u(2) by auto
  then show "slot_ok (put_slot p x T) x"
    using slot_ok_keep[OF table_okD(4)[OF ok p] u(1), of x "put_slot p x T"] x live by simp
  show "spid x = spid (slots T p) \<and> st (slots T p) \<noteq> UNUSED \<or> st x = UNUSED" using x(1) u(1) by simp
qed

lemma table_ok_alloc:
  assumes ok: "table_ok T" and p: "p < NPROC" and u: "st (slots T p) = UNUSED"
  shows "table_ok ((put_slot p ((slots T p)\<lparr>st := USED, spid := npid T\<rparr>) T)\<lparr>npid := npid T + 1\<rparr>)" (is "table_ok ?T")
proof (rule table_okI)
  have dead: "\<not> alive T p"
  proof
    assume "alive T p"
    then show False using u by (auto simp: alive_def)
  qed
  have old: "spar (slots T p) = None" using table_okD(4)[OF ok p] u by (simp add: slot_ok_def)
  have live: "alive ?T q" if "alive T q" for q
  proof -
    have "q \<noteq> p" using that dead by auto
    then show ?thesis using that by (simp add: alive_def)
  qed
  show "0 < npid ?T" using table_okD(1)[OF ok] by simp
  show "slot_ok ?T (slots ?T q)" if q: "q < NPROC" for q
  proof (cases "q = p")
    case True then show ?thesis using old table_okD(1)[OF ok] by (simp add: slot_ok_def)
  next
    case False
    then show ?thesis using table_okD(4)[OF ok q] live by (auto simp: slot_ok_def split: option.splits if_splits)
  qed
  have "pids_differ (put_slot p ((slots T p)\<lparr>st := USED, spid := npid T\<rparr>) T)"
  proof (rule pids_differ_put[OF table_okD(2)[OF ok]])
    fix q assume q: "q < NPROC" "st (slots T q) \<noteq> UNUSED"
    then show "spid (slots T q) \<noteq> spid ((slots T p)\<lparr>st := USED, spid := npid T\<rparr>)"
      using table_okD(4)[OF ok q(1)] by (simp add: slot_ok_def)
  qed
  then show "pids_differ ?T" by (simp add: pids_differ_def)
  show "alive ?T i" if "iproc ?T = Some i" for i using that live table_okD(3)[OF ok, of i] by simp
qed

lemma table_ok_free:
  assumes ok: "table_ok T" and p: "p < NPROC" and u: "st (slots T p) = USED \<or> st (slots T p) = ZOMBIE" "iproc T \<noteq> Some p"
  shows "table_ok (put_slot p \<lparr>st = UNUSED, spid = 0, spar = None\<rparr> T)"
proof (rule table_ok_put[OF ok p])
  show "alive (put_slot p \<lparr>st = UNUSED, spid = 0, spar = None\<rparr> T) q" if "alive T q" for q
  proof (rule alive_put_dead[OF that])
    show "\<not> alive T p" using u by (auto simp: alive_def)
  qed
qed (simp_all add: slot_ok_def)

lemma table_ok_boot:
  assumes ok: "table_ok T" and p: "p < NPROC" and u: "st (slots T p) = USED" "iproc T = None"
  shows "table_ok (T\<lparr>iproc := Some p\<rparr>)"
proof (rule table_okI)
  have live: "alive (T\<lparr>iproc := Some p\<rparr>) q" if "alive T q" for q using that u by (simp add: alive_def)
  show "slot_ok (T\<lparr>iproc := Some p\<rparr>) (slots (T\<lparr>iproc := Some p\<rparr>) q)" if "q < NPROC" for q
    using table_okD(4)[OF ok that] live by (auto simp: slot_ok_def split: option.splits if_splits)
  show "pids_differ (T\<lparr>iproc := Some p\<rparr>)" using table_okD(2)[OF ok] by (simp add: pids_differ_def)
qed (use table_okD(1)[OF ok] p u in \<open>auto simp: alive_def\<close>)

lemma table_ok_adopt:
  assumes ok: "table_ok T" and p: "p < NPROC" and u: "st (slots T p) \<noteq> UNUSED"
  shows "table_ok (put_slot p ((slots T p)\<lparr>spar := iproc T\<rparr>) T)"
proof (rule table_ok_put[OF ok p])
  show live: "alive (put_slot p ((slots T p)\<lparr>spar := iproc T\<rparr>) T) q" if "alive T q" for q
    using that by (auto simp: alive_def)
  show "slot_ok (put_slot p ((slots T p)\<lparr>spar := iproc T\<rparr>) T) ((slots T p)\<lparr>spar := iproc T\<rparr>)"
    by (rule slot_ok_keep[OF table_okD(4)[OF ok p] u]) (use u live table_okD(3)[OF ok] in simp_all)
qed (use u in simp)

lemma table_ok_exit:
  assumes ok: "table_ok T" and p: "p < NPROC" and u: "st (slots T p) = RUNNING" "iproc T \<noteq> Some p"
    and nc: "\<forall>q < NPROC. spar (slots T q) \<noteq> Some p"
  shows "table_ok (put_slot p ((slots T p)\<lparr>st := ZOMBIE\<rparr>) T)" (is "table_ok ?T")
proof (rule table_okI)
  have live: "alive ?T q" if "alive T q" "q \<noteq> p" for q using that by (simp add: alive_def)
  show "slot_ok ?T (slots ?T q)" if q: "q < NPROC" for q
    using table_okD(4)[OF ok q] live u nc[rule_format, OF q] by (auto simp: slot_ok_def split: option.splits if_splits)
  show "pids_differ ?T"
  proof (rule pids_differ_put[OF table_okD(2)[OF ok]])
    fix q assume "q < NPROC" "q \<noteq> p" "st (slots T q) \<noteq> UNUSED"
    then show "spid (slots T q) \<noteq> spid ((slots T p)\<lparr>st := ZOMBIE\<rparr>)"
      using table_okD(2)[OF ok] p u(1) unfolding pids_differ_def by fastforce
  qed
  show "alive ?T i" if "iproc ?T = Some i" for i using that live table_okD(3)[OF ok, of i] u(2) by auto
qed (use table_okD(1)[OF ok] in simp)

lemma tstep_ok: "tstep T T' \<Longrightarrow> table_ok T \<Longrightarrow> table_ok T'"
proof (induction rule: tstep.induct)
  case (t_child p T q)
  have "alive T q" using t_child by (simp add: alive_def)
  then show ?case using t_child by (intro table_ok_move) simp_all
next
  case (t_init p T)
  then show ?case by (intro table_ok_move) (simp_all add: slot_parent)
next
  case (t_run p T)
  then show ?case by (intro table_ok_move) (simp_all add: slot_parent)
next
  case (t_yield p T)
  then show ?case by (intro table_ok_move) (simp_all add: slot_parent)
next
  case (t_sleep p T)
  then show ?case by (intro table_ok_move) (simp_all add: slot_parent)
next
  case (t_wake p T)
  then show ?case by (intro table_ok_move) (simp_all add: slot_parent)
qed (simp_all add: table_ok_alloc table_ok_free table_ok_boot table_ok_adopt table_ok_exit)

lemma tsteps_ok: "tsteps T T' \<Longrightarrow> table_ok T \<Longrightarrow> table_ok T'"
  by (induction rule: rtranclp_induct) (auto intro: tstep_ok)

section \<open>Routines that keep the table\<close>

text \<open>\<open>ends m R S\<close>: a return satisfies \<open>R\<close>, and every other state \<open>m\<close> can be left in satisfies \<open>S\<close>.\<close>

primrec ends :: "('a, 's) res \<Rightarrow> ('a \<Rightarrow> 's \<Rightarrow> bool) \<Rightarrow> ('s \<Rightarrow> bool) \<Rightarrow> bool" where
  "ends (Ret a s) R S = R a s"
| "ends (Panic e) R S = True"
| "ends (Sleep c s) R S = S s"
| "ends (Exit s) R S = S s"
| "ends Diverge R S = True"

lemma ends_bnd: "ends m R' S \<Longrightarrow> (\<And>a t. R' a t \<Longrightarrow> ends (f a t) R S) \<Longrightarrow> ends (bnd m f) R S"
  by (cases m) auto

lemma ends_mono:
  assumes "ends m R S" "\<And>a t. R a t \<Longrightarrow> R' a t" "\<And>t. S t \<Longrightarrow> S' t"
  shows "ends m R' S'"
  using assms by (cases m) auto

definition keeps :: "ptable \<Rightarrow> ('a, kern) res \<Rightarrow> bool" where
  "keeps T m \<longleftrightarrow> ends m (\<lambda>_ t. table_of t = T) (\<lambda>t. table_of t = T)"

named_theorems keeps_intro
named_theorems table_simps

lemma keeps_bnd [keeps_intro]: "keeps T m \<Longrightarrow> (\<And>a t. table_of t = T \<Longrightarrow> keeps T (f a t)) \<Longrightarrow> keeps T (bnd m f)"
  unfolding keeps_def by (rule ends_bnd)

lemma keeps_if [keeps_intro]: "(c \<Longrightarrow> keeps T a) \<Longrightarrow> (\<not> c \<Longrightarrow> keeps T b) \<Longrightarrow> keeps T (if c then a else b)"
  by simp

lemma keeps_option [keeps_intro]:
  "(x = None \<Longrightarrow> keeps T a) \<Longrightarrow> (\<And>y. x = Some y \<Longrightarrow> keeps T (f y)) \<Longrightarrow> keeps T (case x of None \<Rightarrow> a | Some y \<Rightarrow> f y)"
  by (cases x) simp_all

lemma keeps_prod [keeps_intro]: "(\<And>x y. keeps T (f x y t)) \<Longrightarrow> keeps T ((case a of (x, y) \<Rightarrow> f x y) t)"
  by (cases a) simp

lemma keeps_pair [keeps_intro]: "(\<And>x y. a = Some (x, y) \<Longrightarrow> keeps T (f x y)) \<Longrightarrow> (a = None \<Longrightarrow> keeps T b) \<Longrightarrow>
    keeps T (case a of None \<Rightarrow> b | Some z \<Rightarrow> (case z of (x, y) \<Rightarrow> f x y))"
  by (cases a) auto

lemma keeps_leaf [simp]:
  "keeps T (Ret a s) \<longleftrightarrow> table_of s = T" "keeps T (Panic e)" "keeps T (Sleep ch s) \<longleftrightarrow> table_of s = T"
  "keeps T (Exit s) \<longleftrightarrow> table_of s = T" "keeps T Diverge"
  by (simp_all add: keeps_def)

lemma table_slot: "slots (table_of s) p = pslot_of (procs s p)" "iproc (table_of s) = initproc s"
  by (simp_all add: table_of_def)

lemma table_of_files [table_simps]:
  "table_of (s\<lparr>kfs := a\<rparr>) = table_of s" "table_of (s\<lparr>ftable := b\<rparr>) = table_of s" "table_of (s\<lparr>pipes := d\<rparr>) = table_of s"
  "table_of (s\<lparr>kcon := e\<rparr>) = table_of s" "table_of (s\<lparr>fwakes := g\<rparr>) = table_of s" "table_of (s\<lparr>ticks := h\<rparr>) = table_of s"
  by (simp_all add: table_of_def)

lemma table_of_upd_file [table_simps]: "table_of (upd_file f g s) = table_of s"
  by (simp add: upd_file_def table_simps)

lemma table_of_say [table_simps]: "table_of (say m s) = table_of s"
  by (simp add: say_def table_simps)

lemma table_of_tf_set [table_simps]: "table_of (tf_set p r v s) = table_of s"
  by (simp add: tf_set_def table_simps)

lemma table_of_upd_proc: "table_of (upd_proc p f s) = put_slot p (pslot_of (f (procs s p))) (table_of s)"
  by (simp add: table_of_def upd_proc_def put_slot_def fun_eq_iff)

lemma put_slot_same: "slots T p = x \<Longrightarrow> put_slot p x T = T"
  by (cases T) (auto simp: put_slot_def)

lemma table_of_upd_same [table_simps]: "(\<And>x. pslot_of (f x) = pslot_of x) \<Longrightarrow> table_of (upd_proc p f s) = table_of s"
  unfolding table_of_upd_proc by (rule put_slot_same) (simp add: table_of_def)

lemma pslot_of_upd [simp]:
  "pslot_of (x\<lparr>p_chan := a\<rparr>) = pslot_of x" "pslot_of (x\<lparr>p_killed := b\<rparr>) = pslot_of x" "pslot_of (x\<lparr>p_xstate := xs\<rparr>) = pslot_of x"
  "pslot_of (x\<lparr>p_sz := d\<rparr>) = pslot_of x" "pslot_of (x\<lparr>p_pagetable := d\<rparr>) = pslot_of x" "pslot_of (x\<lparr>p_next_start := d\<rparr>) = pslot_of x"
  "pslot_of (x\<lparr>p_areas := e\<rparr>) = pslot_of x" "pslot_of (x\<lparr>p_trapframe := d\<rparr>) = pslot_of x" "pslot_of (x\<lparr>p_ra := d\<rparr>) = pslot_of x"
  "pslot_of (x\<lparr>p_sp := d\<rparr>) = pslot_of x" "pslot_of (x\<lparr>p_ofile := g\<rparr>) = pslot_of x" "pslot_of (x\<lparr>p_cwd := h\<rparr>) = pslot_of x"
  "pslot_of (x\<lparr>p_name := k\<rparr>) = pslot_of x"
  by (simp_all add: pslot_of_def)

lemma pslot_of_fun_upd [simp]:
  "pslot_of (p_areas_update fe x) = pslot_of x" "pslot_of (p_ofile_update fg x) = pslot_of x" "pslot_of (p_name_update fk x) = pslot_of x"
  by (simp_all add: pslot_of_def)

lemma table_of_upd_area [table_simps]: "table_of (upd_area p i f s) = table_of s"
  by (simp add: upd_area_def table_simps)

lemma keeps_in_part: "(\<And>x. table_of (put x) = T) \<Longrightarrow> keeps T (in_part put m)"
  by (cases m) simp_all

lemma keeps_on_fs [keeps_intro]: "table_of s = T \<Longrightarrow> keeps T (on_fs f s)"
  unfolding on_fs_def by (rule keeps_in_part) (simp add: table_simps)

lemma keeps_on_km [keeps_intro]: "table_of s = T \<Longrightarrow> keeps T (on_km f s)"
  unfolding on_km_def by (rule keeps_on_fs)

lemma keeps_on_pipe [keeps_intro]: "table_of s = T \<Longrightarrow> keeps T (on_pipe pi f s)"
  unfolding on_pipe_def by (rule keeps_in_part) (simp add: table_simps)

lemma keeps_on_cons [keeps_intro]: "table_of s = T \<Longrightarrow> keeps T (on_cons f s)"
  unfolding on_cons_def by (rule keeps_in_part) (simp add: table_simps)

lemma keeps_kbegin_op [keeps_intro]: "table_of s = T \<Longrightarrow> keeps T (kbegin_op s)"
  unfolding kbegin_op_def by (rule keeps_on_fs)

lemma keeps_kend_op [keeps_intro]: "table_of s = T \<Longrightarrow> keeps T (kend_op c s)"
  unfolding kend_op_def by (rule keeps_on_fs)

lemma keeps_filedup [keeps_intro]: "table_of s = T \<Longrightarrow> keeps T (filedup f s)"
  by (simp add: filedup_def table_simps)

lemma keeps_ftype [keeps_intro]:
  "keeps T a \<Longrightarrow> keeps T b \<Longrightarrow> keeps T d \<Longrightarrow> keeps T e \<Longrightarrow>
    keeps T (case x of FD_NONE \<Rightarrow> a | FD_PIPE \<Rightarrow> b | FD_INODE \<Rightarrow> d | FD_DEVICE \<Rightarrow> e)"
  by (cases x) simp_all

lemma keeps_xfer_res [keeps_intro]: "table_of s = T \<Longrightarrow> keeps T (xfer_res ch x s)"
  by (cases x) simp_all

lemma table_of_if [table_simps]: "table_of a = T \<Longrightarrow> table_of b = T \<Longrightarrow> table_of (if c then a else b) = T"
  by simp

lemma keeps_fileclose [keeps_intro]: "table_of s = T \<Longrightarrow> keeps T (fileclose c f s)"
  unfolding fileclose_def Let_def by (intro keeps_intro | simp add: table_simps)+

lemma keeps_filestat [keeps_intro]: "table_of s = T \<Longrightarrow> keeps T (filestat junk c f a s)"
  unfolding filestat_def Let_def by (intro keeps_intro | simp add: table_simps)+

lemma keeps_fileread [keeps_intro]: "table_of s = T \<Longrightarrow> keeps T (fileread c f a n s)"
  unfolding fileread_def Let_def by (intro keeps_intro | simp add: table_simps)+

lemma keeps_filewrite_loop [keeps_intro]: "table_of s = T \<Longrightarrow> keeps T (filewrite_loop c f a i n s)"
proof (induction "nat (n - i)" arbitrary: i s rule: less_induct)
  case less
  have shorter: "nat (n - (i + min (n - i) filewrite_max)) < nat (n - i)" if "i < n"
    using that by (simp add: filewrite_max_def)
  show ?case
    by (subst filewrite_loop.simps, unfold Let_def)
      (intro keeps_intro | rule less(1)[OF shorter] | simp add: table_simps less)+
qed

lemma keeps_filewrite [keeps_intro]: "table_of s = T \<Longrightarrow> keeps T (filewrite c f a n s)"
  unfolding filewrite_def Let_def by (intro keeps_intro | simp add: table_simps)+

lemma keeps_filealloc [keeps_intro]:
  "table_of s = T \<Longrightarrow> (\<And>x t. table_of t = T \<Longrightarrow> keeps T (g x t)) \<Longrightarrow> keeps T (case filealloc s of (x, t) \<Rightarrow> g x t)"
  by (simp add: filealloc_def table_simps split: option.split)

lemma keeps_pipe_bad [keeps_intro]: "table_of s = T \<Longrightarrow> keeps T (pipe_bad c f g s)"
  unfolding pipe_bad_def by (intro keeps_intro | simp add: table_simps)+

lemma keeps_pipealloc [keeps_intro]: "table_of s = T \<Longrightarrow> keeps T (pipealloc c s)"
  unfolding pipealloc_def Let_def by (intro keeps_intro | simp add: table_simps)+

lemma keeps_write_back_page [keeps_intro]: "table_of s = T \<Longrightarrow> keeps T (write_back_page c pt ip pg off s)"
  unfolding write_back_page_def Let_def by (intro keeps_intro | simp add: table_simps)+

lemma keeps_write_back_loop [keeps_intro]: "table_of s = T \<Longrightarrow> keeps T (write_back_loop c pt ip pg e off s)"
proof (induction "2 ^ 64 - unat pg" arbitrary: pg off s rule: less_induct)
  case less
  show ?case
    by (subst write_back_loop.simps)
      (intro keeps_intro | rule less(1)[OF page_up_less] | simp add: table_simps less)+
qed

lemma keeps_write_back [keeps_intro]: "table_of s = T \<Longrightarrow> keeps T (write_back c pt f a len off s)"
  unfolding write_back_def Let_def by (intro keeps_intro | simp add: table_simps)+

lemma keeps_release_area [keeps_intro]: "table_of s = T \<Longrightarrow> keeps T (release_area c a pt s)"
  unfolding release_area_def Let_def by (intro keeps_intro | simp add: table_simps)+

lemma keeps_clear_vm_area [keeps_intro]: "table_of s = T \<Longrightarrow> keeps T (clear_vm_area c p i pt s)"
  unfolding clear_vm_area_def by (intro keeps_intro | simp add: table_simps)+

lemma keeps_vmareas_loop: "table_of s = T \<Longrightarrow> keeps T (proc_free_vmareas_loop is c p pt s)"
  by (induction "is" arbitrary: s) (simp, simp only: proc_free_vmareas_loop.simps, (intro keeps_intro | simp add: table_simps)+)

lemma keeps_proc_free_vmareas [keeps_intro]: "table_of s = T \<Longrightarrow> keeps T (proc_free_vmareas c p pt s)"
  unfolding proc_free_vmareas_def by (rule keeps_vmareas_loop)

subsection \<open>Arguments and program execution\<close>

lemma keeps_argraw [keeps_intro]: "table_of s = T \<Longrightarrow> keeps T (argraw n p s)"
  by (simp add: argraw_def)

lemma keeps_argint [keeps_intro]: "table_of s = T \<Longrightarrow> keeps T (argint n p s)"
  unfolding argint_def by (intro keeps_intro | simp)+

lemma keeps_argaddr [keeps_intro]: "table_of s = T \<Longrightarrow> keeps T (argaddr n p s)"
  unfolding argaddr_def by (rule keeps_argraw)

lemma keeps_fetchaddr [keeps_intro]: "table_of s = T \<Longrightarrow> keeps T (fetchaddr a p s)"
  unfolding fetchaddr_def Let_def by (intro keeps_intro | simp)+

lemma keeps_fetchstr [keeps_intro]: "table_of s = T \<Longrightarrow> keeps T (fetchstr a buf mx p s)"
  unfolding fetchstr_def by (intro keeps_intro | simp)+

lemma keeps_argstr [keeps_intro]: "table_of s = T \<Longrightarrow> keeps T (argstr n mx p s)"
  unfolding argstr_def by (intro keeps_intro | simp)+

lemma keeps_loadseg_loop [keeps_intro]: "table_of s = T \<Longrightarrow> keeps T (loadseg_loop c pt va ip off i sz s)"
proof (induction "2 ^ 32 - unat i" arbitrary: i s rule: less_induct)
  case less
  show ?case
    by (subst loadseg_loop.simps, unfold Let_def)
      (intro keeps_intro | rule less(1)[OF page_up_less32] | simp add: less)+
qed

lemma keeps_loadseg [keeps_intro]: "table_of s = T \<Longrightarrow> keeps T (loadseg c pt va ip off sz s)"
  unfolding loadseg_def by (rule keeps_loadseg_loop)

lemma keeps_exec_load [keeps_intro]: "table_of s = T \<Longrightarrow> keeps T (exec_load is c ip off pt sz s)"
proof (induction "is" arbitrary: sz s)
  case (Cons i "is")
  show ?case unfolding exec_load.simps Let_def by (intro keeps_intro | rule Cons(1) | simp add: Cons)+
qed simp

lemma keeps_exec_bad [keeps_intro]: "table_of s = T \<Longrightarrow> keeps T (exec_bad c pt sz ipo s)"
  unfolding exec_bad_def by (intro keeps_intro | simp)+

lemma keeps_exec_args [keeps_intro]: "table_of s = T \<Longrightarrow> keeps T (exec_args as pt base sp us s)"
proof (induction as arbitrary: sp us s)
  case (Cons a as)
  show ?case unfolding exec_args.simps Let_def by (intro keeps_intro | rule Cons(1) | simp add: Cons)+
qed simp

lemma keeps_exec_commit [keeps_intro]: "table_of s = T \<Longrightarrow> keeps T (exec_commit path argv en pt sz p s)"
  unfolding exec_commit_def Let_def by (intro keeps_intro | simp add: table_simps)+

lemma keeps_exec [keeps_intro]: "table_of s = T \<Longrightarrow> keeps T (exec path argv p s)"
  unfolding exec_def Let_def by (intro keeps_intro | simp add: table_simps)+

subsection \<open>System calls on files and memory\<close>

lemma keeps_fs_do [keeps_intro]: "table_of s = T \<Longrightarrow> keeps T (fs_do p f s)"
  unfolding fs_do_def by (rule keeps_on_fs)

lemma keeps_begin_tx [keeps_intro]: "table_of s = T \<Longrightarrow> keeps T (begin_tx s)"
  unfolding begin_tx_def by (rule keeps_kbegin_op)

lemma keeps_end_tx [keeps_intro]: "table_of s = T \<Longrightarrow> keeps T (end_tx p r s)"
  unfolding end_tx_def by (intro keeps_intro | simp)+

lemma keeps_argfd [keeps_intro]: "table_of s = T \<Longrightarrow> keeps T (argfd n p s)"
  unfolding argfd_def Let_def by (intro keeps_intro | simp)+

lemma keeps_fdalloc [keeps_intro]:
  "table_of s = T \<Longrightarrow> (\<And>x t. table_of t = T \<Longrightarrow> keeps T (g x t)) \<Longrightarrow> keeps T (case fdalloc f p s of (x, t) \<Rightarrow> g x t)"
  by (simp add: fdalloc_def table_simps split: option.split)

lemma keeps_sys_dup [keeps_intro]: "table_of s = T \<Longrightarrow> keeps T (sys_dup p s)"
  unfolding sys_dup_def by (intro keeps_intro | simp)+

lemma keeps_sys_read [keeps_intro]: "table_of s = T \<Longrightarrow> keeps T (sys_read p s)"
  unfolding sys_read_def by (intro keeps_intro | simp)+

lemma keeps_sys_write [keeps_intro]: "table_of s = T \<Longrightarrow> keeps T (sys_write p s)"
  unfolding sys_write_def by (intro keeps_intro | simp)+

lemma keeps_sys_close [keeps_intro]: "table_of s = T \<Longrightarrow> keeps T (sys_close p s)"
  unfolding sys_close_def Let_def by (intro keeps_intro | simp add: table_simps)+

lemma keeps_sys_fstat [keeps_intro]: "table_of s = T \<Longrightarrow> keeps T (sys_fstat junk p s)"
  unfolding sys_fstat_def by (intro keeps_intro | simp)+

lemma keeps_link_bad [keeps_intro]: "table_of s = T \<Longrightarrow> keeps T (link_bad p ip s)"
  unfolding link_bad_def Let_def by (intro keeps_intro | simp add: table_simps)+

lemma keeps_sys_link [keeps_intro]: "table_of s = T \<Longrightarrow> keeps T (sys_link p s)"
  unfolding sys_link_def Let_def by (intro keeps_intro | simp add: table_simps)+

lemma keeps_sys_unlink [keeps_intro]: "table_of s = T \<Longrightarrow> keeps T (sys_unlink p s)"
  unfolding sys_unlink_def Let_def by (intro keeps_intro | simp add: table_simps)+

lemma keeps_open_inode [keeps_intro]: "table_of s = T \<Longrightarrow> keeps T (open_inode p ip omode s)"
  unfolding open_inode_def Let_def by (intro keeps_intro | simp add: table_simps)+

lemma keeps_sys_open [keeps_intro]: "table_of s = T \<Longrightarrow> keeps T (sys_open p s)"
  unfolding sys_open_def by (intro keeps_intro | simp)+

lemma keeps_make_node [keeps_intro]: "table_of s = T \<Longrightarrow> keeps T (make_node p ty ma mi s)"
  unfolding make_node_def by (intro keeps_intro | simp)+

lemma keeps_sys_mkdir [keeps_intro]: "table_of s = T \<Longrightarrow> keeps T (sys_mkdir p s)"
  unfolding sys_mkdir_def by (intro keeps_intro | simp)+

lemma keeps_sys_mknod [keeps_intro]: "table_of s = T \<Longrightarrow> keeps T (sys_mknod p s)"
  unfolding sys_mknod_def by (intro keeps_intro | simp)+

lemma keeps_sys_chdir [keeps_intro]: "table_of s = T \<Longrightarrow> keeps T (sys_chdir p s)"
  unfolding sys_chdir_def by (intro keeps_intro | simp add: table_simps)+

lemma keeps_exec_fetch [keeps_intro]: "table_of s = T \<Longrightarrow> keeps T (exec_fetch is ua argv p s)"
proof (induction "is" arbitrary: argv s)
  case (Cons i "is")
  show ?case unfolding exec_fetch.simps Let_def by (intro keeps_intro | rule Cons(1) | simp add: table_simps Cons)+
qed simp

lemma keeps_free_argv [keeps_intro]: "table_of s = T \<Longrightarrow> keeps T (free_argv as s)"
proof (induction as arbitrary: s)
  case (Cons a as)
  show ?case unfolding free_argv.simps by (intro keeps_intro | rule Cons(1) | simp add: Cons)+
qed simp

lemma keeps_sys_exec [keeps_intro]: "table_of s = T \<Longrightarrow> keeps T (sys_exec p s)"
  unfolding sys_exec_def by (intro keeps_intro | simp)+

lemma keeps_sys_pipe [keeps_intro]: "table_of s = T \<Longrightarrow> keeps T (sys_pipe p s)"
  unfolding sys_pipe_def Let_def by (intro keeps_intro | simp add: table_simps)+

lemma keeps_sys_mmap [keeps_intro]: "table_of s = T \<Longrightarrow> keeps T (sys_mmap p s)"
  unfolding sys_mmap_def Let_def by (intro keeps_intro | simp add: table_simps)+

lemma keeps_sys_munmap [keeps_intro]: "table_of s = T \<Longrightarrow> keeps T (sys_munmap p s)"
  unfolding sys_munmap_def Let_def by (intro keeps_intro | simp add: table_simps)+

lemma keeps_growproc [keeps_intro]: "table_of s = T \<Longrightarrow> keeps T (growproc n p s)"
  unfolding growproc_def Let_def by (intro keeps_intro | simp add: table_simps)+

lemma keeps_sys_sbrk [keeps_intro]: "table_of s = T \<Longrightarrow> keeps T (sys_sbrk p s)"
  unfolding sys_sbrk_def Let_def by (intro keeps_intro | simp)+

lemma keeps_sys_sleep [keeps_intro]: "table_of s = T \<Longrightarrow> keeps T (sys_sleep p s)"
  unfolding sys_sleep_def sys_sleep_turn_def by (intro keeps_intro | simp)+

section \<open>Routines that move the table\<close>

definition vacant :: pslot where
  "vacant = \<lparr>st = UNUSED, spid = 0, spar = None\<rparr>"

definition taken :: "nat \<Rightarrow> ptable \<Rightarrow> ptable" where
  "taken p T = (put_slot p ((slots T p)\<lparr>st := USED, spid := npid T\<rparr>) T)\<lparr>npid := npid T + 1\<rparr>"

lemma ends_if: "(c \<Longrightarrow> ends a R S) \<Longrightarrow> (\<not> c \<Longrightarrow> ends b R S) \<Longrightarrow> ends (if c then a else b) R S"
  by simp

lemma keepsD: "keeps T m \<Longrightarrow> ends m (\<lambda>_ t. table_of t = T) (\<lambda>t. table_of t = T)"
  by (simp add: keeps_def)

lemma table_of_check [table_simps]: "table_of (freeproc_check is s) = table_of s"
  by (induction "is" arbitrary: s) (simp_all add: table_simps)

lemma freeproc_table:
  assumes "table_of s = T"
  shows "ends (freeproc c p s) (\<lambda>_ t. table_of t = put_slot p vacant T) (\<lambda>t. table_of t = T)"
  unfolding freeproc_def Let_def
proof (rule ends_bnd[OF keepsD], goal_cases)
  case 1
  show ?case using assms by (intro keeps_intro) simp_all
next
  case (2 _ t)
  show ?case
  proof (rule ends_bnd[OF keepsD], goal_cases)
    case 1
    show ?case by (intro keeps_intro | simp add: table_simps 2)+
  next
    case (2 _ t)
    then show ?case by (simp add: table_simps table_of_upd_proc pslot_of_def vacant_def)
  qed
qed

lemma table_of_taken:
  assumes "allocpid s = (pid, s')"
  shows "table_of (upd_proc p (\<lambda>x. x\<lparr>p_pid := pid, p_state := USED\<rparr>) s') = taken p (table_of s)"
  using assms by (auto simp: allocpid_def table_of_def upd_proc_def pslot_of_def taken_def put_slot_def fun_eq_iff)

text \<open>What \<^verbatim>\<open>allocproc\<close> leaves: a slot taken, or the table as it was, or a slot taken and given back.\<close>

definition alloc_post :: "ptable \<Rightarrow> nat option \<Rightarrow> ptable \<Rightarrow> bool" where
  "alloc_post T po T' \<longleftrightarrow>
     (case po of
        Some p \<Rightarrow> p < NPROC \<and> st (slots T p) = UNUSED \<and> T' = taken p T
      | None \<Rightarrow> T' = T \<or> (\<exists>p < NPROC. st (slots T p) = UNUSED \<and> T' = put_slot p vacant (taken p T)))"

definition alloc_stop :: "ptable \<Rightarrow> ptable \<Rightarrow> bool" where
  "alloc_stop T T' \<longleftrightarrow> (\<exists>p < NPROC. st (slots T p) = UNUSED \<and> T' = taken p T)"

lemma allocproc_fail:
  assumes "p < NPROC" "st (slots T p) = UNUSED" "table_of s = taken p T"
  shows "ends (bnd (freeproc c p s) (\<lambda>_ s. Ret None s)) (\<lambda>po t. alloc_post T po (table_of t)) (\<lambda>t. alloc_stop T (table_of t))"
proof -
  have "ends (freeproc c p s) (\<lambda>_ t. table_of t = put_slot p vacant (taken p T)) (\<lambda>t. alloc_stop T (table_of t))"
    by (rule ends_mono[OF freeproc_table[OF assms(3)]]) (use assms in \<open>auto simp: alloc_stop_def\<close>)
  then show ?thesis
    by (rule ends_bnd) (use assms(1,2) in \<open>auto simp: alloc_post_def\<close>)
qed

lemma allocproc_table:
  assumes "table_of s = T"
  shows "ends (allocproc c s) (\<lambda>po t. alloc_post T po (table_of t)) (\<lambda>t. alloc_stop T (table_of t))"
proof (cases "find (\<lambda>p. p_state (procs s p) = UNUSED) [0..<NPROC]")
  case None
  then show ?thesis using assms by (simp add: allocproc_def alloc_post_def)
next
  case (Some p)
  then have p: "p < NPROC" and "p_state (procs s p) = UNUSED" by (auto simp: find_Some_iff)
  then have u: "st (slots T p) = UNUSED" using assms by (auto simp: table_of_def pslot_of_def)
  obtain pid s0 where a: "allocpid s = (pid, s0)" by (cases "allocpid s")
  define s1 where "s1 = upd_proc p (\<lambda>x. x\<lparr>p_pid := pid, p_state := USED\<rparr>) s0"
  have s1: "table_of s1 = taken p T" unfolding s1_def table_of_taken[OF a] assms ..
  have stop: "ends m (\<lambda>_ t. table_of t = taken p T) (\<lambda>t. alloc_stop T (table_of t))" if "keeps (taken p T) m" for m :: "('b, kern) res"
    by (rule ends_mono[OF keepsD[OF that]]) (use p u in \<open>auto simp: alloc_stop_def\<close>)
  show ?thesis
    unfolding allocproc_def Some option.case a Let_def prod.case s1_def[symmetric]
  proof (rule ends_bnd[OF stop[OF keeps_on_km[OF s1]]], goal_cases)
    case (1 tf t)
    then have t: "table_of (upd_proc p (p_trapframe_update (\<lambda>_. tf)) t) = taken p T" by (simp add: table_simps)
    show ?case
    proof (rule ends_if, rule allocproc_fail[OF p u t], goal_cases)
      case 1
      show ?case
        by (rule ends_bnd[OF stop[OF keeps_on_km[OF t]]], rule ends_if, rule allocproc_fail[OF p u])
          (use p u in \<open>simp_all add: table_simps alloc_post_def\<close>)
    qed
  qed
qed

text \<open>
  \<open>turn p T m\<close>: every outcome of \<open>m\<close>, run by process \<open>p\<close> from table \<open>T\<close>, is reached by table steps, and \<open>p\<close> is
  still running when \<open>m\<close> returns.
\<close>

definition turn :: "nat \<Rightarrow> ptable \<Rightarrow> ('a, kern) res \<Rightarrow> bool" where
  "turn p T m \<longleftrightarrow> ends m (\<lambda>_ t. tsteps T (table_of t) \<and> st (slots (table_of t) p) = RUNNING) (\<lambda>t. tsteps T (table_of t))"

lemma turn_keeps: "keeps T m \<Longrightarrow> st (slots T p) = RUNNING \<Longrightarrow> turn p T m"
  unfolding turn_def by (erule ends_mono[OF keepsD]) auto

lemma turn_Ret: "tsteps T (table_of s) \<Longrightarrow> st (slots (table_of s) p) = RUNNING \<Longrightarrow> turn p T (Ret a s)"
  by (simp add: turn_def)

lemma turn_bnd:
  assumes "turn p T m"
    and "\<And>a t. tsteps T (table_of t) \<Longrightarrow> st (slots (table_of t) p) = RUNNING \<Longrightarrow> turn p (table_of t) (f a t)"
  shows "turn p T (bnd m f)"
  unfolding turn_def
proof (rule ends_bnd[OF assms(1)[unfolded turn_def]], elim conjE)
  fix a t assume t: "tsteps T (table_of t)" "st (slots (table_of t) p) = RUNNING"
  show "ends (f a t) (\<lambda>_ t. tsteps T (table_of t) \<and> st (slots (table_of t) p) = RUNNING) (\<lambda>t. tsteps T (table_of t))"
    by (rule ends_mono[OF assms(2)[OF t, unfolded turn_def]]) (use t(1) in auto)
qed

lemma not_alive_unused: "st (slots T q) = UNUSED \<Longrightarrow> \<not> alive T q"
  by (auto simp: alive_def)

lemma init_not_dead: "table_ok T \<Longrightarrow> \<not> alive T q \<Longrightarrow> iproc T \<noteq> Some q"
  using table_okD(3)[of T q] by auto

lemma taken_step: "q < NPROC \<Longrightarrow> st (slots T q) = UNUSED \<Longrightarrow> tstep T (taken q T)"
  unfolding taken_def by (rule t_alloc)

lemma slots_taken: "slots (taken q T) r = (if r = q then (slots T q)\<lparr>st := USED, spid := npid T\<rparr> else slots T r)"
  "iproc (taken q T) = iproc T"
  by (simp_all add: taken_def)

lemma taken_back:
  assumes "table_ok T" "q < NPROC" "st (slots T q) = UNUSED"
  shows "tsteps T (put_slot q vacant (taken q T))"
proof -
  have "tstep (taken q T) (put_slot q vacant (taken q T))"
    unfolding vacant_def by (rule t_free) (use assms init_not_dead not_alive_unused in \<open>simp_all add: slots_taken\<close>)
  then show ?thesis using taken_step[OF assms(2,3)] by (meson r_into_rtranclp rtranclp.rtrancl_into_rtrancl)
qed

lemma keeps_fork_areas [keeps_intro]: "table_of s = T \<Longrightarrow> keeps T (fork_areas is p np s)"
proof (induction "is" arbitrary: s)
  case (Cons i "is")
  show ?case unfolding fork_areas.simps Let_def by (intro keeps_intro | rule Cons(1) | simp add: table_simps Cons)+
qed simp

lemma keeps_fork_files [keeps_intro]: "table_of s = T \<Longrightarrow> keeps T (fork_files is p np s)"
proof (induction "is" arbitrary: s)
  case (Cons i "is")
  show ?case unfolding fork_files.simps by (intro keeps_intro | rule Cons(1) | simp add: table_simps Cons)+
qed simp

lemma table_of_copy_trapframe [table_simps]: "table_of (copy_trapframe p np s) = table_of s"
  by (simp add: copy_trapframe_def table_simps)

text \<open>While \<^verbatim>\<open>fork\<close> fills in the slot \<open>np\<close> it has taken.\<close>

definition forking :: "ptable \<Rightarrow> nat \<Rightarrow> nat \<Rightarrow> bool" where
  "forking T p np \<longleftrightarrow> table_ok T \<and> p < NPROC \<and> st (slots T p) = RUNNING \<and> np < NPROC \<and> st (slots T np) = UNUSED"

lemma forkingD:
  assumes "forking T p np"
  shows "tsteps T (taken np T)" "p \<noteq> np" "tsteps T (put_slot np vacant (taken np T))"
    "tsteps T (put_slot np ((slots (taken np T) np)\<lparr>st := RUNNABLE, spar := Some p\<rparr>) (taken np T))"
proof -
  have f: "table_ok T" "p < NPROC" "st (slots T p) = RUNNING" "np < NPROC" "st (slots T np) = UNUSED"
    using assms by (simp_all add: forking_def)
  show step: "tsteps T (taken np T)" using taken_step[OF f(4,5)] by auto
  show ne: "p \<noteq> np" using f by auto
  show "tsteps T (put_slot np vacant (taken np T))" by (rule taken_back[OF f(1,4,5)])
  show "tsteps T (put_slot np ((slots (taken np T) np)\<lparr>st := RUNNABLE, spar := Some p\<rparr>) (taken np T))"
    by (rule rtranclp.rtrancl_into_rtrancl[OF step], rule t_child) (use f ne in \<open>simp_all add: slots_taken\<close>)
qed

lemma forking_bnd:
  assumes "forking T p np" "keeps (taken np T) m" "\<And>a t. table_of t = taken np T \<Longrightarrow> turn p T (f a t)"
  shows "turn p T (bnd m f)"
  unfolding turn_def
proof (rule ends_bnd[where R' = "\<lambda>_ t. table_of t = taken np T"])
  show "ends m (\<lambda>_ t. table_of t = taken np T) (\<lambda>t. tsteps T (table_of t))"
    by (rule ends_mono[OF keepsD[OF assms(2)]]) (use forkingD(1)[OF assms(1)] in auto)
qed (rule assms(3)[unfolded turn_def])

lemma forking_free:
  assumes "forking T p np" "table_of t = taken np T"
  shows "turn p T (bnd (freeproc c np t) (\<lambda>_ s. Ret (-1 :: int) s))"
  unfolding turn_def
  by (rule ends_bnd[OF ends_mono[OF freeproc_table[OF assms(2)]]])
    (use forkingD[OF assms(1)] assms(1) in \<open>auto simp: slots_taken forking_def\<close>)

lemma forking_done:
  assumes "forking T p np" "table_of t = taken np T"
  shows "turn p T (Ret pid (upd_proc np (\<lambda>x. x\<lparr>p_parent := Some p, p_state := RUNNABLE\<rparr>) t))"
proof -
  have "pslot_of ((procs t np)\<lparr>p_parent := Some p, p_state := RUNNABLE\<rparr>) = (slots (taken np T) np)\<lparr>st := RUNNABLE, spar := Some p\<rparr>"
    by (simp flip: assms(2) add: table_of_def pslot_of_def)
  then show ?thesis using forkingD[OF assms(1)] assms by (simp add: turn_def table_of_upd_proc slots_taken forking_def)
qed

lemma turn_if: "(c \<Longrightarrow> turn p T a) \<Longrightarrow> (\<not> c \<Longrightarrow> turn p T b) \<Longrightarrow> turn p T (if c then a else b)"
  by simp

lemma turn_option:
  "(x = None \<Longrightarrow> turn p T a) \<Longrightarrow> (\<And>y. x = Some y \<Longrightarrow> turn p T (f y)) \<Longrightarrow> turn p T (case x of None \<Rightarrow> a | Some y \<Rightarrow> f y)"
  by (cases x) simp_all

lemma fork_table:
  assumes T: "table_of s = T" and ok: "table_ok T" and p: "p < NPROC" and r: "st (slots T p) = RUNNING"
  shows "turn p T (fork p s)"
  unfolding fork_def Let_def turn_def
proof (rule ends_bnd[where R' = "\<lambda>po t. alloc_post T po (table_of t)"], goal_cases)
  case 1
  show ?case by (rule ends_mono[OF allocproc_table[OF T]]) (auto simp: alloc_stop_def dest: taken_step)
next
  case (2 npo s1)
  have none: "turn p T (Ret (-1 :: int) s1)" if "npo = None"
    using 2 that r taken_back[OF ok] by (auto simp: turn_def alloc_post_def slots_taken)
  show ?case unfolding turn_def[symmetric]
  proof (rule turn_option, erule none, goal_cases)
    case (1 np)
    then have f: "forking T p np" and t: "table_of s1 = taken np T" using 2 r ok p by (auto simp: alloc_post_def forking_def)
    show ?case
      by (rule forking_free[OF f] turn_if forking_done[OF f] turn_option forking_bnd[OF f] keeps_intro | simp add: table_simps t
        | simp add: turn_def)+
  qed
qed


lemma wait_table:
  assumes T: "table_of s = T" and ok: "table_ok T" and r: "st (slots T p) = RUNNING"
  shows "turn p T (wait addr p s)"
proof (cases "find (\<lambda>q. p_parent (procs s q) = Some p \<and> p_state (procs s q) = ZOMBIE) [0..<NPROC]")
  case None
  then show ?thesis using T r by (auto simp: wait_def turn_def)
next
  case (Some q)
  then have q: "q < NPROC" "p_state (procs s q) = ZOMBIE" by (auto simp: find_Some_iff)
  have z: "st (slots T q) = ZOMBIE" using q(2) T by (auto simp: table_of_def pslot_of_def)
  have i: "iproc T \<noteq> Some q" by (rule init_not_dead[OF ok]) (simp add: alive_def z)
  have "tstep T (put_slot q vacant T)" unfolding vacant_def by (rule t_free) (use q z i in simp_all)
  then have reap: "tsteps T (put_slot q vacant T)" ..
  have ne: "p \<noteq> q" using z r by auto
  show ?thesis unfolding wait_def Some option.case Let_def turn_def
  proof (rule ends_bnd[where R' = "\<lambda>_ t. table_of t = T"], goal_cases)
    case 1
    have "keeps T (if addr \<noteq> 0 then on_km (copyout (p_pagetable (procs s p)) addr (\<lambda>i. byte i (p_xstate (procs s q))) 4) s else Ret 0 s)"
      by (intro keeps_intro) (simp_all add: T)
    then show ?case by (rule ends_mono[OF keepsD]) simp_all
  next
    case (2 a t)
    show ?case
    proof (rule ends_if)
      show "ends (Ret (-1) t) (\<lambda>_ t. tsteps T (table_of t) \<and> st (slots (table_of t) p) = RUNNING) (\<lambda>t. tsteps T (table_of t))"
        using 2 r by simp
      show "ends (bnd (freeproc (me p t) q t) (\<lambda>_ s. Ret (p_pid (procs s' q)) s))
          (\<lambda>_ t. tsteps T (table_of t) \<and> st (slots (table_of t) p) = RUNNING) (\<lambda>t. tsteps T (table_of t))" for s'
        by (rule ends_bnd[OF ends_mono[OF freeproc_table[OF 2]]]) (use reap ne r in auto)
    qed
  qed
qed

lemma wake_one_table:
  assumes "p < NPROC" "table_of s = T"
  shows "tsteps T (put_slot p (pslot_of (wake_one ch (procs s p))) T)"
proof (cases "p_state (procs s p) = SLEEPING \<and> p_chan (procs s p) = Some ch")
  case True
  have "st (slots T p) = SLEEPING" using True assms(2) by (auto simp: table_of_def pslot_of_def)
  from t_wake[OF assms(1) this] show ?thesis
    using True assms(2) by (auto simp: wake_one_def table_of_def pslot_of_def)
next
  case False
  then have "put_slot p (pslot_of (wake_one ch (procs s p))) T = T"
    using assms(2) by (intro put_slot_same) (auto simp: wake_one_def table_of_def)
  then show ?thesis by simp
qed

text \<open>The loop of \<^verbatim>\<open>wakeup\<close>, after \<open>n\<close> slots.\<close>

lemma wakeup_upto:
  assumes "n \<le> NPROC"
  shows "tsteps (table_of s)
    (table_of (s\<lparr>procs := (\<lambda>p. if p < n \<and> Some p \<noteq> cur then wake_one ch (procs s p) else procs s p)\<rparr>))"
  using assms
proof (induction n)
  case 0
  have "s\<lparr>procs := procs s\<rparr> = s" by simp
  then show ?case by simp
next
  case (Suc n)
  let ?s = "s\<lparr>procs := (\<lambda>p. if p < n \<and> Some p \<noteq> cur then wake_one ch (procs s p) else procs s p)\<rparr>"
  have IH: "tsteps (table_of s) (table_of ?s)" using Suc by simp
  have step: "tsteps (table_of ?s) (put_slot n (pslot_of (wake_one ch (procs ?s n))) (table_of ?s))"
    by (rule wake_one_table) (use Suc in simp_all)
  show ?case
  proof (cases "Some n = cur")
    case True
    then have "(\<lambda>p. if p < Suc n \<and> Some p \<noteq> cur then wake_one ch (procs s p) else procs s p) = procs ?s"
      by (auto simp: fun_eq_iff less_Suc_eq)
    then show ?thesis using IH by simp
  next
    case False
    then have "table_of (s\<lparr>procs := (\<lambda>p. if p < Suc n \<and> Some p \<noteq> cur then wake_one ch (procs s p) else procs s p)\<rparr>) =
        put_slot n (pslot_of (wake_one ch (procs ?s n))) (table_of ?s)"
      by (auto simp: table_of_def put_slot_def fun_eq_iff less_Suc_eq)
    then show ?thesis using IH step by simp
  qed
qed

lemma wakeup_table: "tsteps (table_of s) (table_of (wakeup cur ch s))"
  unfolding wakeup_def using wakeup_upto[of NPROC s cur ch] by simp

lemma slots_wakeup:
  "spid (slots (table_of (wakeup cur ch s)) q) = spid (slots (table_of s) q)"
  "spar (slots (table_of (wakeup cur ch s)) q) = spar (slots (table_of s) q)"
  "st (slots (table_of s) q) \<noteq> SLEEPING \<Longrightarrow> st (slots (table_of (wakeup cur ch s)) q) = st (slots (table_of s) q)"
  "iproc (table_of (wakeup cur ch s)) = iproc (table_of s)"
  by (simp_all add: table_of_def wakeup_def pslot_of_def wake_one_def)

lemma wakeup_initproc: "initproc (wakeup cur ch s) = initproc s"
  by (simp add: wakeup_def)

lemma kill_table:
  assumes "kill pid s = (r, t)"
  shows "tsteps (table_of s) (table_of t)" "st (slots (table_of s) p) = RUNNING \<Longrightarrow> st (slots (table_of t) p) = RUNNING"
proof -
  have "tsteps (table_of s) (table_of t) \<and> (st (slots (table_of s) p) = RUNNING \<longrightarrow> st (slots (table_of t) p) = RUNNING)"
  proof (cases "find (\<lambda>p. p_pid (procs s p) = pid) [0..<NPROC]")
    case None
    then show ?thesis using assms by (simp add: kill_def)
  next
    case (Some q)
    then have q: "q < NPROC" by (auto simp: find_Some_iff)
    have t: "t = upd_proc q (\<lambda>x. x\<lparr>p_killed := True, p_state := (if p_state x = SLEEPING then RUNNABLE else p_state x)\<rparr>) s"
      using assms Some by (simp add: kill_def)
    show ?thesis
    proof (cases "p_state (procs s q) = SLEEPING")
      case True
      then have "st (slots (table_of s) q) = SLEEPING" by (simp add: table_of_def pslot_of_def)
      moreover have "table_of t = put_slot q ((slots (table_of s) q)\<lparr>st := RUNNABLE\<rparr>) (table_of s)"
        unfolding t table_of_upd_proc by (simp add: table_slot pslot_of_def True)
      ultimately show ?thesis using t_wake[OF q] by auto
    next
      case False
      then have "table_of t = table_of s"
        unfolding t table_of_upd_proc by (intro put_slot_same) (simp add: table_of_def pslot_of_def)
      then show ?thesis by simp
    qed
  qed
  then show "tsteps (table_of s) (table_of t)" "st (slots (table_of s) p) = RUNNING \<Longrightarrow> st (slots (table_of t) p) = RUNNING"
    by simp_all
qed

text \<open>\<^verbatim>\<open>reparent\<close>: the loop is made of table steps, leaves the process running, and leaves it without children.\<close>

lemma reparent_step:
  assumes ok: "table_ok (table_of s)" and q: "q < NPROC" and par: "p_parent (procs s q) = Some p"
  shows "tsteps (table_of s) (table_of (wakeup (Some p) ch (upd_proc q (p_parent_update (\<lambda>_. initproc s)) s)))"
proof -
  have u: "st (slots (table_of s) q) \<noteq> UNUSED"
    using table_okD(4)[OF ok q] par by (auto simp: slot_ok_def table_slot pslot_of_def)
  have "table_of (upd_proc q (p_parent_update (\<lambda>_. initproc s)) s) =
      put_slot q ((slots (table_of s) q)\<lparr>spar := iproc (table_of s)\<rparr>) (table_of s)"
    unfolding table_of_upd_proc by (simp add: table_slot pslot_of_def)
  then have "tsteps (table_of s) (table_of (upd_proc q (p_parent_update (\<lambda>_. initproc s)) s))"
    using t_adopt[OF q u] by auto
  then show ?thesis using wakeup_table by (rule rtranclp_trans)
qed

lemma reparent_loop_table:
  assumes "table_ok (table_of s)" "set qs \<subseteq> {..<NPROC}"
  shows "tsteps (table_of s) (table_of (reparent_loop qs p s))"
  using assms
proof (induction qs arbitrary: s)
  case (Cons q qs)
  define t where "t = (if p_parent (procs s q) = Some p then
    wakeup (Some p) (initchan s) (upd_proc q (p_parent_update (\<lambda>_. initproc s)) s) else s)"
  have "tsteps (table_of s) (table_of t)"
    unfolding t_def using reparent_step[OF Cons(2)] Cons(3) by simp
  moreover have "tsteps (table_of t) (table_of (reparent_loop qs p t))"
    by (rule Cons(1)) (use Cons(2,3) tsteps_ok[OF calculation] in simp_all)
  ultimately show ?case by (simp add: t_def[symmetric])
qed simp

lemma reparent_loop_running:
  "p_state (procs s r) = RUNNING \<Longrightarrow> p_state (procs (reparent_loop qs p s) r) = RUNNING"
proof (induction qs arbitrary: s)
  case (Cons a qs)
  show ?case unfolding reparent_loop.simps
    by (rule Cons(1)) (use Cons(2) in \<open>auto simp: wakeup_def wake_one_def upd_proc_def\<close>)
qed simp

lemma reparent_loop_init: "initproc (reparent_loop qs p s) = initproc s"
  by (induction qs arbitrary: s) (simp_all add: wakeup_def upd_proc_def)

lemma reparent_loop_parent:
  "p_parent (procs (reparent_loop qs p s) q) =
     (if q \<in> set qs \<and> p_parent (procs s q) = Some p then initproc s else p_parent (procs s q))"
proof (induction qs arbitrary: s)
  case (Cons a qs)
  show ?case by (auto simp: Cons wakeup_def wake_one_def upd_proc_def)
qed simp

lemma exit_finish_table:
  assumes ok: "table_ok (table_of s)" and p: "p < NPROC" and r: "p_state (procs s p) = RUNNING" and i: "initproc s \<noteq> Some p"
  shows "tsteps (table_of s) (table_of (exit_finish status p s))"
proof -
  define s1 where "s1 = reparent p s"
  define s2 where "s2 = (case p_parent (procs s1 p) of None \<Rightarrow> s1 | Some q \<Rightarrow> wakeup (Some p) (ChProc q) s1)"
  have 1: "tsteps (table_of s) (table_of s1)"
    unfolding s1_def reparent_def by (rule reparent_loop_table[OF ok]) auto
  have par: "p_parent (procs s1 q) \<noteq> Some p" if "q < NPROC" for q
    using that i by (simp add: s1_def reparent_def reparent_loop_parent)
  have r1: "p_state (procs s1 p) = RUNNING" and i1: "initproc s1 \<noteq> Some p"
    using r i by (simp_all add: s1_def reparent_def reparent_loop_running reparent_loop_init)
  have 2: "tsteps (table_of s1) (table_of s2)" by (simp add: s2_def wakeup_table split: option.split)
  have s2: "p_parent (procs s2 q) = p_parent (procs s1 q)" "p_state (procs s2 p) = RUNNING" "initproc s2 = initproc s1" for q
    using r1 by (auto simp: s2_def wakeup_def wake_one_def split: option.split)
  have 3: "table_of (exit_finish status p s) = put_slot p ((slots (table_of s2) p)\<lparr>st := ZOMBIE\<rparr>) (table_of s2)"
    by (simp add: exit_finish_def s1_def[symmetric] s2_def[symmetric] table_of_upd_proc table_slot pslot_of_def)
  have "tstep (table_of s2) (table_of (exit_finish status p s))"
    unfolding 3 by (rule t_exit) (use p s2 i1 par in \<open>simp_all add: table_slot pslot_of_def\<close>)
  with 1 2 show ?thesis by (meson rtranclp.rtrancl_into_rtrancl rtranclp_trans)
qed

lemma keeps_exit_files [keeps_intro]: "table_of s = T \<Longrightarrow> keeps T (exit_files fds p s)"
proof (induction fds arbitrary: s)
  case (Cons fd fds)
  show ?case unfolding exit_files.simps by (intro keeps_intro | rule Cons(1) | simp add: table_simps Cons)+
qed simp

lemma turn_keep_bnd:
  assumes "st (slots T p) = RUNNING" "keeps T m" "\<And>a t. table_of t = T \<Longrightarrow> turn p T (f a t)"
  shows "turn p T (bnd m f)"
  unfolding turn_def
proof (rule ends_bnd[where R' = "\<lambda>_ t. table_of t = T"])
  show "ends m (\<lambda>_ t. table_of t = T) (\<lambda>t. tsteps T (table_of t))" by (rule ends_mono[OF keepsD[OF assms(2)]]) auto
qed (rule assms(3)[unfolded turn_def])

lemma exit_table:
  assumes T: "table_of s = T" and ok: "table_ok T" and p: "p < NPROC" and r: "st (slots T p) = RUNNING"
  shows "turn p T (exit status p s)"
proof (cases "initproc s = Some p")
  case True
  then show ?thesis by (simp add: exit_def turn_def)
next
  case False
  have fin: "turn p T (Exit (exit_finish status p t))" if "table_of t = T" for t
  proof -
    have "initproc t \<noteq> Some p" using False T that by (simp flip: table_slot)
    moreover have "p_state (procs t p) = RUNNING" using r that by (auto simp: table_slot pslot_of_def)
    ultimately show ?thesis using exit_finish_table[of t p status] ok p that by (simp add: turn_def)
  qed
  show ?thesis
    unfolding exit_def Let_def using False
    by (simp only: if_False)
      (rule fin turn_option turn_keep_bnd[OF r] keeps_intro | simp add: table_simps T | simp add: turn_def)+
qed

lemma turn_syscall:
  assumes T: "table_of s = T" and ok: "table_ok T" and p: "p < NPROC" and r: "st (slots T p) = RUNNING"
    and f: "f \<in> set (syscalls junk)"
  shows "turn p T (f p s)"
proof -
  have fork: "turn p T (sys_fork p s)"
    unfolding sys_fork_def by (rule turn_bnd[OF fork_table[OF T ok p r]]) (simp add: turn_def)
  have exit: "turn p T (sys_exit p s)"
    unfolding sys_exit_def by (rule turn_keep_bnd[OF r keeps_argint[OF T]]) (rule exit_table[OF _ ok p r])
  have wait: "turn p T (sys_wait p s)"
    unfolding sys_wait_def
    by (rule turn_keep_bnd[OF r keeps_argaddr[OF T]], rule turn_bnd[OF wait_table[OF _ ok r]]) (simp_all add: turn_def)
  have kill: "turn p T (sys_kill p s)"
    unfolding sys_kill_def
    by (rule turn_keep_bnd[OF r keeps_argint[OF T]]) (use r kill_table in \<open>auto simp: turn_def split: prod.split\<close>)
  have get: "turn p T (sys_getpid p s)" "turn p T (sys_uptime p s)"
    using T r by (simp_all add: sys_getpid_def sys_uptime_def turn_def)
  have rest: "turn p T (g p s)" if "keeps T (g p s)" for g :: "nat \<Rightarrow> kern \<Rightarrow> (u64, kern) res" using that r by (rule turn_keeps)
  show ?thesis using f T unfolding syscalls_def list.set insert_iff empty_iff
    by (elim disjE) (simp_all add: fork exit wait kill get rest keeps_intro)
qed

lemma syscall_table:
  assumes T: "table_of s = T" and ok: "table_ok T" and p: "p < NPROC" and r: "st (slots T p) = RUNNING"
  shows "turn p T (syscall junk p s)"
proof -
  define num where "num = sint (ucast (tf_get p 168 s) :: u32)"
  have call: "turn p T (bnd ((syscalls junk ! nat (num - 1)) p s) (\<lambda>r s. Ret () (tf_set p 112 r s)))"
    if "num > 0 \<and> num < int (length (syscalls junk)) + 1"
  proof (rule turn_bnd[OF turn_syscall[OF T ok p r, of _ junk]])
    show "syscalls junk ! nat (num - 1) \<in> set (syscalls junk)" by (rule nth_mem) (use that in linarith)
  qed (simp add: turn_def table_simps)
  show ?thesis unfolding syscall_def Let_def num_def[symmetric]
    by (rule turn_if[OF call]) (use T r in \<open>simp_all add: turn_def table_simps\<close>)
qed

section \<open>Traps\<close>

lemma clockintr_table:
  assumes "table_of s = T"
  shows "tsteps T (table_of (clockintr h cur s))" "st (slots T p) = RUNNING \<Longrightarrow> st (slots (table_of (clockintr h cur s)) p) = RUNNING"
proof -
  have t: "table_of (s\<lparr>ticks := ticks s + 1\<rparr>) = T" using assms by (simp add: table_simps)
  show "tsteps T (table_of (clockintr h cur s))"
    using wakeup_table[of "s\<lparr>ticks := ticks s + 1\<rparr>"] t assms by (simp add: clockintr_def)
  show "st (slots (table_of (clockintr h cur s)) p) = RUNNING" if "st (slots T p) = RUNNING"
    using that t assms by (simp add: clockintr_def slots_wakeup)
qed

text \<open>A device interrupt, whoever it interrupts.\<close>

lemma devintr_table:
  assumes T: "table_of s = T"
  shows "ends (devintr pd r cur s) (\<lambda>_ t. tsteps T (table_of t) \<and> (\<forall>p. st (slots T p) = RUNNING \<longrightarrow> st (slots (table_of t) p) = RUNNING))
    (\<lambda>t. tsteps T (table_of t))"
  unfolding devintr_def
proof (rule ends_if, goal_cases)
  case 1
  have "keeps T (bnd (if irq r = UART0_IRQ then on_cons (on_con (uartintr pd)) s
      else if irq r = VIRTIO0_IRQ then Ret () s
      else if irq r \<noteq> 0 then Ret () (say ''unexpected interrupt irq=%d'' s) else Ret () s) (\<lambda>_ s. Ret (1 :: int) s))"
    by (intro keeps_intro | simp add: T table_simps)+
  then show ?case by (rule ends_mono[OF keepsD]) auto
next
  case 2
  show ?case using clockintr_table[OF T] T by simp
qed

lemma devintr_turn: "table_of s = T \<Longrightarrow> st (slots T p) = RUNNING \<Longrightarrow> turn p T (devintr pd r cur s)"
  unfolding turn_def by (rule ends_mono[OF devintr_table]) auto

lemma mmap_load_instr_table:
  assumes T: "table_of s = T" and ok: "table_ok T" and p: "p < NPROC" and r: "st (slots T p) = RUNNING"
  shows "turn p T (mmap_load_instr sc va p s)"
proof -
  have leaf: "turn p T (Ret a t)" if "table_of t = T" for a :: int and t using that r by (simp add: turn_def)
  show ?thesis unfolding mmap_load_instr_def Let_def
    by (rule turn_if turn_option leaf exit_table[OF _ ok p r] turn_keep_bnd[OF r] keeps_intro | simp add: table_simps T
      | simp add: turn_def)+
qed

text \<open>Outcomes after which the process may no longer be running.\<close>

definition goes :: "ptable \<Rightarrow> ('a, kern) res \<Rightarrow> bool" where
  "goes T m \<longleftrightarrow> ends m (\<lambda>_ t. tsteps T (table_of t)) (\<lambda>t. tsteps T (table_of t))"

lemma goes_if: "(c \<Longrightarrow> goes T a) \<Longrightarrow> (\<not> c \<Longrightarrow> goes T b) \<Longrightarrow> goes T (if c then a else b)"
  by simp

lemma goes_bnd:
  assumes "goes T m" "\<And>a t. tsteps T (table_of t) \<Longrightarrow> goes (table_of t) (f a t)"
  shows "goes T (bnd m f)"
  unfolding goes_def
proof (rule ends_bnd[OF assms(1)[unfolded goes_def]])
  fix a t assume t: "tsteps T (table_of t)"
  show "ends (f a t) (\<lambda>_ t. tsteps T (table_of t)) (\<lambda>t. tsteps T (table_of t))"
    by (rule ends_mono[OF assms(2)[OF t, unfolded goes_def]]) (use t in auto)
qed

lemma goes_turn_bnd:
  assumes "turn p T m"
    and "\<And>a t. tsteps T (table_of t) \<Longrightarrow> st (slots (table_of t) p) = RUNNING \<Longrightarrow> goes (table_of t) (f a t)"
  shows "goes T (bnd m f)"
  unfolding goes_def
proof (rule ends_bnd[OF assms(1)[unfolded turn_def]], elim conjE)
  fix a t assume t: "tsteps T (table_of t)" "st (slots (table_of t) p) = RUNNING"
  show "ends (f a t) (\<lambda>_ t. tsteps T (table_of t)) (\<lambda>t. tsteps T (table_of t))"
    by (rule ends_mono[OF assms(2)[OF t, unfolded goes_def]]) (use t(1) in auto)
qed

lemma goes_keeps: "keeps T m \<Longrightarrow> goes T m"
  unfolding goes_def by (erule ends_mono[OF keepsD]) auto

lemma yield_table:
  assumes "p < NPROC" "st (slots T p) = RUNNING" "table_of s = T"
  shows "goes T (yield p s)"
proof -
  define t where "t = upd_proc p (p_state_update (\<lambda>_. RUNNABLE)) s"
  have "table_of t = put_slot p ((slots T p)\<lparr>st := RUNNABLE\<rparr>) T"
    unfolding t_def table_of_upd_proc assms(3)[symmetric] by (simp add: table_slot pslot_of_def)
  then have "tsteps T (table_of t)" using t_yield[OF assms(1,2)] by auto
  then show ?thesis by (simp add: yield_def t_def[symmetric] sched_def goes_def)
qed

lemma keeps_usertrapret: "table_of s = T \<Longrightarrow> keeps T (usertrapret upc r p s)"
  by (simp add: usertrapret_def Let_def table_simps)

lemma usertrap_table:
  assumes T: "table_of s = T" and ok: "table_ok T" and p: "p < NPROC" and r: "st (slots T p) = RUNNING"
  shows "goes T (usertrap upc pd junk rg p s)"
proof -
  define s1 where "s1 = tf_set p 24 (sepc rg) s"
  have s1: "table_of s1 = T" by (simp add: s1_def table_simps T)
  have call: "turn p T (bnd (syscall junk p (tf_set p 24 v s1)) (\<lambda>_ s. Ret (0 :: int) s))" for v
    by (rule turn_bnd[OF syscall_table[OF _ ok p r]]) (simp_all add: table_simps s1 turn_def)
  have fault: "turn p T' (bnd (mmap_load_instr (scause rg) (stval rg) p t) (\<lambda>x s.
        if x = 0 then Ret 0 s
        else Ret 0 (setkilled p (say m1 (say m2 s)))))"
    if "T' = table_of t" "table_ok T'" "st (slots T' p) = RUNNING" for T' t m1 m2
    unfolding that(1)
    by (rule turn_bnd[OF mmap_load_instr_table[OF refl _ p]]) (use that in \<open>simp_all add: turn_def setkilled_def table_simps\<close>)
  have handle: "turn p T (if scause rg = 8 then
               if killed p s1 then exit (-1) p s1
               else bnd (syscall junk p (tf_set p 24 (tf_get p 24 s1 + 4) s1)) (\<lambda>_ s. Ret 0 s)
             else bnd (devintr pd rg (Some p) s1) (\<lambda>which s.
               if which \<noteq> 0 then Ret which s
               else bnd (mmap_load_instr (scause rg) (stval rg) p s) (\<lambda>x s.
                 if x = 0 then Ret 0 s
                 else Ret 0 (setkilled p (say ''sepc=0x%lx stval=0x%lx''
                   (say ''usertrap(): unexpected scause 0x%lx pid=%d'' s))))))"
    by (rule turn_if exit_table[OF s1 ok p r] call turn_bnd[OF devintr_turn[OF s1 r]] fault refl
      | (simp add: turn_def; fail) | erule tsteps_ok[OF _ ok])+
  show ?thesis unfolding usertrap_def Let_def s1_def[symmetric]
  proof (rule goes_if, simp add: goes_def, rule goes_turn_bnd[OF handle])
    fix which t assume t: "tsteps T (table_of t)" "st (slots (table_of t) p) = RUNNING"
    have kill: "turn p (table_of t) (if killed p t then exit (-1) p t else Ret () t)"
      by (rule turn_if exit_table[OF refl tsteps_ok[OF t(1) ok] p t(2)] | simp add: turn_def t)+
    show "goes (table_of t) (bnd (if killed p t then exit (-1) p t else Ret () t) (\<lambda>_ s.
        bnd (if which = 2 then yield p s else Ret () s) (\<lambda>_ s. usertrapret upc rg p s)))"
    proof (rule goes_turn_bnd[OF kill], rule goes_bnd)
      fix u assume "st (slots (table_of u) p) = RUNNING"
      then show "goes (table_of u) (if which = 2 then yield p u else Ret () u)"
        by (intro goes_if yield_table[OF p]) (simp_all add: goes_def)
    qed (simp add: goes_keeps keeps_usertrapret)
  qed
qed

lemma kerneltrap_table:
  assumes T: "table_of s = T" and cur: "\<And>p. cur = Some p \<Longrightarrow> p < NPROC \<and> st (slots T p) = RUNNING"
  shows "goes T (kerneltrap pd rg ion cur s)"
  unfolding kerneltrap_def
proof (rule goes_if, simp add: goes_def, rule goes_if, simp add: goes_def, unfold goes_def, rule ends_bnd[OF devintr_table[OF T]], goal_cases)
  case (1 which t)
  have resume: "goes (table_of t) (case cur of Some p \<Rightarrow> if which = 2 then yield p t else Ret () t | None \<Rightarrow> Ret () t)"
    using 1 cur yield_table[of _ "table_of t" t] by (cases cur) (simp_all add: goes_def)
  have "goes (table_of t) (if which = 0 then Panic ''kerneltrap''
      else bnd (case cur of Some p \<Rightarrow> if which = 2 then yield p t else Ret () t | None \<Rightarrow> Ret () t) (\<lambda>_ s. Ret (sepc rg, sstatus rg) s))"
    by (rule goes_if, simp add: goes_def, rule goes_bnd[OF resume]) (simp add: goes_def)
  then show ?case unfolding goes_def by (rule ends_mono) (use 1 in auto)
qed

section \<open>The kernel as a transition system\<close>

lemma turn_goes: "turn p T m \<Longrightarrow> goes T m"
  unfolding turn_def goes_def by (erule ends_mono) auto

lemma boot_steps:
  assumes "q < NPROC" "st (slots T q) = UNUSED" "iproc T = None" and B: "B = (taken q T)\<lparr>iproc := Some q\<rparr>"
  shows "tsteps T B" "tsteps T (put_slot q ((slots B q)\<lparr>st := RUNNABLE\<rparr>) B)"
proof -
  have "tstep T (taken q T)" by (rule taken_step[OF assms(1,2)])
  moreover have "tstep (taken q T) B" unfolding B by (rule t_boot) (use assms in \<open>simp_all add: slots_taken\<close>)
  ultimately show 1: "tsteps T B" by (meson r_into_rtranclp rtranclp.rtrancl_into_rtrancl)
  show "tsteps T (put_slot q ((slots B q)\<lparr>st := RUNNABLE\<rparr>) B)"
    by (rule rtranclp.rtrancl_into_rtrancl[OF 1], rule t_init) (use assms in \<open>simp_all add: slots_taken\<close>)
qed

lemma goes_keep_bnd:
  assumes "tsteps T B" "keeps B m" "\<And>a t. table_of t = B \<Longrightarrow> goes T (f a t)"
  shows "goes T (bnd m f)"
  unfolding goes_def
proof (rule ends_bnd[where R' = "\<lambda>_ t. table_of t = B"])
  show "ends m (\<lambda>_ t. table_of t = B) (\<lambda>t. tsteps T (table_of t))" by (rule ends_mono[OF keepsD[OF assms(2)]]) (use assms(1) in auto)
qed (rule assms(3)[unfolded goes_def])

lemma userinit_table:
  assumes T: "table_of s = T" and i: "iproc T = None"
  shows "goes T (userinit s)"
  unfolding userinit_def Let_def goes_def
proof (rule ends_bnd[where R' = "\<lambda>po t. alloc_post T po (table_of t)"], goal_cases)
  case 1
  show ?case by (rule ends_mono[OF allocproc_table[OF T]]) (auto simp: alloc_stop_def dest: taken_step)
next
  case (2 po s1)
  show ?case
  proof (cases po)
    case (Some q)
    define B where "B = (taken q T)\<lparr>iproc := Some q\<rparr>"
    have q: "q < NPROC" "st (slots T q) = UNUSED" and s1: "table_of s1 = taken q T" using 2 Some by (auto simp: alloc_post_def)
    note B = boot_steps[OF q i B_def]
    have s2: "table_of (s1\<lparr>initproc := Some q\<rparr>) = B" by (simp add: B_def flip: s1) (simp add: table_of_def)
    have run: "goes T (Ret () (upd_proc q (\<lambda>x. x\<lparr>p_cwd := d, p_state := RUNNABLE\<rparr>) t))" if "table_of t = B" for d t
    proof -
      have "pslot_of ((procs t q)\<lparr>p_cwd := d, p_state := RUNNABLE\<rparr>) = (slots B q)\<lparr>st := RUNNABLE\<rparr>"
        by (simp flip: that add: table_slot pslot_of_def)
      then show ?thesis using B by (simp add: goes_def table_of_upd_proc that)
    qed
    show ?thesis unfolding Some option.case goes_def[symmetric]
      by (rule run goes_keep_bnd[OF B(1)] keeps_intro | simp add: table_simps s2)+
  qed simp
qed

lemma deliver_table: "tsteps (table_of s) (table_of (deliver cur s))"
proof -
  have "tsteps (table_of s) (table_of (fold (wakeup cur) cs s))" for cs
  proof (induction cs arbitrary: s)
    case (Cons c cs)
    show ?case using rtranclp_trans[OF wakeup_table Cons] by simp
  qed simp
  then show ?thesis by (simp add: deliver_def no_pending_def table_simps)
qed

lemma keeps_forkret: "table_of s = T \<Longrightarrow> keeps T (forkret p s)"
  unfolding forkret_def by (intro keeps_intro | simp add: table_of_def)+

primrec outcome :: "('a, 's) res \<Rightarrow> 's \<Rightarrow> bool" where
  "outcome (Ret a s) t \<longleftrightarrow> t = s"
| "outcome (Panic e) t \<longleftrightarrow> False"
| "outcome (Sleep c s) t \<longleftrightarrow> t = s"
| "outcome (Exit s) t \<longleftrightarrow> t = s"
| "outcome Diverge t \<longleftrightarrow> False"

lemma goes_outcome: "goes T m \<Longrightarrow> outcome m t \<Longrightarrow> tsteps T (table_of t)"
  unfolding goes_def by (cases m) simp_all

text \<open>
  What the processors can do next: finish booting, take a trap from user or kernel mode, run the first code of a new process,
  put a process to sleep and resume it, deliver wakeups, and schedule. A routine that went to sleep is resumed: \<^verbatim>\<open>freeproc\<close> and
  \<^verbatim>\<open>exit\<close> are steps of their own for that reason, and the remaining work of the file system is the step \<open>k_lower\<close>.
\<close>

inductive kstep :: "kern \<Rightarrow> kern \<Rightarrow> bool" where
  k_boot: "initproc s = None \<Longrightarrow> outcome (userinit s) t \<Longrightarrow> kstep s t"
| k_user: "p < NPROC \<Longrightarrow> p_state (procs s p) = RUNNING \<Longrightarrow> outcome (usertrap upc pd junk r p s) t \<Longrightarrow> kstep s t"
| k_kernel: "(\<And>p. cur = Some p \<Longrightarrow> p < NPROC \<and> p_state (procs s p) = RUNNING) \<Longrightarrow>
     outcome (kerneltrap pd r ion cur s) t \<Longrightarrow> kstep s t"
| k_start: "outcome (forkret p s) t \<Longrightarrow> kstep s t"
| k_free: "p < NPROC \<Longrightarrow> p_state (procs s p) = USED \<or> p_state (procs s p) = ZOMBIE \<Longrightarrow> initproc s \<noteq> Some p \<Longrightarrow>
     outcome (freeproc c p s) t \<Longrightarrow> kstep s t"
| k_exit: "p < NPROC \<Longrightarrow> p_state (procs s p) = RUNNING \<Longrightarrow> outcome (exit status p s :: (unit, kern) res) t \<Longrightarrow> kstep s t"
| k_sleep: "p < NPROC \<Longrightarrow> p_state (procs s p) = RUNNING \<Longrightarrow> outcome (sleep d ch p s) t \<Longrightarrow> kstep s t"
| k_wake: "kstep s (sleep_done p s)"
| k_deliver: "kstep s (deliver cur s)"
| k_run: "run_proc p s = Some t \<Longrightarrow> kstep s t"
| k_lower: "files.more t = files.more s \<Longrightarrow> kstep s t"

lemma table_of_more: "files.more t = files.more s \<Longrightarrow> table_of t = table_of s"
  by (cases t; cases s) (simp add: table_of_def)

lemma sleep_table:
  assumes "p < NPROC" "st (slots T p) = RUNNING" "table_of s = T"
  shows "goes T (sleep d ch p s)"
proof -
  define t where "t = upd_proc p (\<lambda>x. x\<lparr>p_chan := Some ch, p_state := SLEEPING\<rparr>) s"
  have "table_of t = put_slot p ((slots T p)\<lparr>st := SLEEPING\<rparr>) T"
    unfolding t_def table_of_upd_proc assms(3)[symmetric] by (simp add: table_slot pslot_of_def)
  then have "tsteps T (table_of t)" using t_sleep[OF assms(1,2)] by auto
  then show ?thesis by (simp add: sleep_def t_def[symmetric] sched_def goes_def)
qed

lemma free_table:
  assumes "p < NPROC" "p_state (procs s p) = USED \<or> p_state (procs s p) = ZOMBIE" "initproc s \<noteq> Some p"
  shows "goes (table_of s) (freeproc c p s)"
proof -
  have "tstep (table_of s) (put_slot p vacant (table_of s))"
    unfolding vacant_def by (rule t_free) (use assms in \<open>auto simp: table_slot pslot_of_def\<close>)
  then show ?thesis unfolding goes_def by (intro ends_mono[OF freeproc_table[OF refl]]) auto
qed

lemma run_table: "run_proc p s = Some t \<Longrightarrow> tsteps (table_of s) (table_of t)"
proof -
  assume a: "run_proc p s = Some t"
  then have p: "p < NPROC" "p_state (procs s p) = RUNNABLE" and t: "t = upd_proc p (p_state_update (\<lambda>_. RUNNING)) s"
    by (auto simp: run_proc_def split: if_splits)
  have "table_of t = put_slot p ((slots (table_of s) p)\<lparr>st := RUNNING\<rparr>) (table_of s)"
    unfolding t table_of_upd_proc by (simp add: table_slot pslot_of_def)
  then show ?thesis using t_run[OF p(1), of "table_of s"] p(2) by (auto simp: table_slot pslot_of_def)
qed

lemma kstep_table:
  assumes "kstep s t" "table_ok (table_of s)"
  shows "tsteps (table_of s) (table_of t)"
  using assms
proof (induction rule: kstep.induct)
  case (k_boot s t)
  show ?case by (rule goes_outcome[OF userinit_table[OF refl]]) (use k_boot in \<open>simp_all add: table_slot\<close>)
next
  case (k_user p s upc pd junk r t)
  show ?case by (rule goes_outcome[OF usertrap_table[OF refl _ k_user(1)] k_user(3)]) (use k_user in \<open>simp_all add: table_slot pslot_of_def\<close>)
next
  case (k_kernel cur s pd r ion t)
  show ?case by (rule goes_outcome[OF kerneltrap_table[OF refl] k_kernel(2)]) (use k_kernel in \<open>simp add: table_slot pslot_of_def\<close>)
next
  case (k_start p s t)
  show ?case by (rule goes_outcome[OF goes_keeps[OF keeps_forkret[OF refl]] k_start(1)])
next
  case (k_free p s c t)
  show ?case by (rule goes_outcome[OF free_table[OF k_free(1-3)] k_free(4)])
next
  case (k_exit p s status t)
  show ?case by (rule goes_outcome[OF turn_goes[OF exit_table[OF refl _ k_exit(1)]] k_exit(3)])
      (use k_exit in \<open>simp_all add: table_slot pslot_of_def\<close>)
next
  case (k_sleep p s d ch t)
  show ?case by (rule goes_outcome[OF sleep_table[OF k_sleep(1) _ refl] k_sleep(3)]) (use k_sleep in \<open>simp add: table_slot pslot_of_def\<close>)
next
  case (k_wake s p)
  show ?case by (simp add: sleep_done_def table_simps)
next
  case (k_deliver s cur)
  show ?case by (rule deliver_table)
next
  case (k_run p s t)
  show ?case by (rule run_table[OF k_run(1)])
next
  case (k_lower t s)
  show ?case using table_of_more[OF k_lower(1)] by simp
qed

lemma ksteps_table:
  assumes "kstep\<^sup>*\<^sup>* s t" "table_ok (table_of s)"
  shows "tsteps (table_of s) (table_of t)"
  using assms
proof (induction rule: rtranclp_induct)
  case (step t u)
  then have "tsteps (table_of s) (table_of t)" by simp
  moreover have "tsteps (table_of t) (table_of u)"
    by (rule kstep_table[OF step(2)]) (rule tsteps_ok[OF calculation step(4)])
  ultimately show ?case by simp
qed simp

text \<open>The state when \<^verbatim>\<open>main\<close> has run \<^verbatim>\<open>procinit\<close>: memory is zero but for \<^verbatim>\<open>nextpid\<close>, which is initialised to 1.\<close>

definition fresh_procs :: "kern \<Rightarrow> bool" where
  "fresh_procs s \<longleftrightarrow> nextpid s = 1 \<and> initproc s = None \<and> (\<forall>p < NPROC. p_pid (procs s p) = 0 \<and> p_parent (procs s p) = None)"

lemma fresh_table: "fresh_procs s \<Longrightarrow> table_ok (table_of (procinit s))"
  by (rule table_okI) (auto simp: fresh_procs_def procinit_def table_of_def pslot_of_def slot_ok_def pids_differ_def)

section \<open>Properties\<close>


definition demo_proc :: proc where
  "demo_proc = \<lparr>p_state = UNUSED, p_chan = None, p_killed = False, p_xstate = 0, p_pid = 0, p_parent = None, p_kstack = 0, p_sz = 0,
     p_pagetable = 0, p_next_start = 0, p_areas = (\<lambda>_. no_area), p_trapframe = 0, p_ra = 0, p_sp = 0, p_ofile = (\<lambda>_. None),
     p_cwd = None, p_name = (\<lambda>_. 0)\<rparr>"

definition demo_kern :: "(nat \<Rightarrow> proc) \<Rightarrow> int \<Rightarrow> nat option \<Rightarrow> kern" where
  "demo_kern ps n i = \<lparr>kfs = boot_fs (\<lambda>_ _. 0),
     ftable = (\<lambda>_. \<lparr>f_type = FD_NONE, f_ref = 0, f_readable = False, f_writable = False, f_pipe = 0, f_ip = 0, f_off = 0, f_major = 0\<rparr>),
     pipes = (\<lambda>_. \<lparr>pdata = (\<lambda>_. 0), nread = 0, nwrite = 0, readopen = False, writeopen = False\<rparr>),
     kcon = \<lparr>cbuf = (\<lambda>_. 0), cr = 0, cw = 0, ce = 0,
       uart = \<lparr>tx_buf = (\<lambda>_. 0), tx_w = 0, tx_r = 0, lsr = [], rhr = [], thr = [], uregs = [], panicked = False, uwakes = []\<rparr>, cwakes = []\<rparr>,
     devsw = (\<lambda>_. False), fwakes = [], procs = ps, nextpid = n, initproc = i, ticks = 0, fs_ready = False, tramp = 0, forkret_pc = 0\<rparr>"

definition demo_regs :: regs where
  "demo_regs = \<lparr>sstatus = SSTATUS_SPP, scause = 0x8000000000000005, sepc = 0, stval = 0, satp = 0, hartid = 0, irq = 0\<rparr>"

definition demo_boot :: kern where
  "demo_boot = demo_kern (\<lambda>_. demo_proc) 1 None"

lemma demo_tick: "outcome (kerneltrap [] demo_regs False None s) (clockintr 0 None s)"
  by (simp add: kerneltrap_def devintr_def demo_regs_def)

lemma demo_fresh: "fresh_procs demo_boot"
  by (simp add: fresh_procs_def demo_boot_def demo_kern_def demo_proc_def)



text \<open>The first process runs while its child sleeps until the next tick.\<close>

definition demo_family :: kern where
  "demo_family = demo_kern ((\<lambda>_. demo_proc)(0 := demo_proc\<lparr>p_state := RUNNING, p_pid := 1\<rparr>,
     1 := demo_proc\<lparr>p_state := SLEEPING, p_chan := Some ChTicks, p_pid := 2, p_parent := Some 0\<rparr>)) 3 (Some 0)"

lemma demo_family_ok: "table_ok (table_of demo_family)"
  by (rule table_okI) (auto simp: demo_family_def demo_kern_def demo_proc_def table_of_def pslot_of_def slot_ok_def pids_differ_def alive_def)


section \<open>Kill\<close>

lemma table_pid_zero:
  assumes "table_ok (table_of s)" "p < NPROC"
  shows "p_pid (procs s p) = 0 \<longleftrightarrow> p_state (procs s p) = UNUSED"
  using table_okD(4)[OF assms] by (auto simp: slot_ok_def table_slot pslot_of_def split: if_splits)

lemma table_pid_unique:
  assumes ok: "table_ok (table_of s)" and p: "p < NPROC" and q: "q < NPROC"
    and e: "p_pid (procs s p) = p_pid (procs s q)" "p_pid (procs s p) \<noteq> 0"
  shows "p = q"
proof -
  have "st (slots (table_of s) p) \<noteq> UNUSED" "st (slots (table_of s) q) \<noteq> UNUSED"
    using table_pid_zero[OF ok p] table_pid_zero[OF ok q] e by (simp_all add: table_slot pslot_of_def)
  moreover have "spid (slots (table_of s) p) = spid (slots (table_of s) q)" using e(1) by (simp add: table_slot pslot_of_def)
  ultimately show ?thesis using table_okD(2)[OF ok] p q unfolding pids_differ_def by blast
qed

definition signalled :: "proc \<Rightarrow> proc" where
  "signalled x = x\<lparr>p_killed := True, p_state := (if p_state x = SLEEPING then RUNNABLE else p_state x)\<rparr>"

lemma kill_finds: "find (\<lambda>p. p_pid (procs s p) = pid) [0..<NPROC] = Some q \<Longrightarrow> kill pid s = (0, upd_proc q signalled s)"
  by (simp add: kill_def signalled_def[abs_def])

text \<open>
  (C25) \<^verbatim>\<open>kill\<close> with a positive pid: when no process has it the call fails and nothing changes; when a process has it, that process and
  no other is marked, and is made runnable if it was asleep.
\<close>

theorem kill_signals_process:
  assumes ok: "table_ok (table_of s)" and pid: "0 < pid"
  shows "((\<forall>p < NPROC. p_pid (procs s p) \<noteq> pid) \<longrightarrow> kill pid s = (-1, s)) \<and>
     (\<forall>p < NPROC. p_pid (procs s p) = pid \<longrightarrow>
        kill pid s = (0, upd_proc p signalled s) \<and> p_state (procs s p) \<noteq> UNUSED)"
proof (intro conjI allI impI)
  assume "\<forall>p < NPROC. p_pid (procs s p) \<noteq> pid"
  then have "find (\<lambda>p. p_pid (procs s p) = pid) [0..<NPROC] = None" by (auto simp: find_None_iff)
  then show "kill pid s = (-1, s)" by (simp add: kill_def)
next
  fix p assume p: "p < NPROC" "p_pid (procs s p) = pid"
  then obtain q where q: "find (\<lambda>p. p_pid (procs s p) = pid) [0..<NPROC] = Some q"
    by (cases "find (\<lambda>p. p_pid (procs s p) = pid) [0..<NPROC]") (auto simp: find_None_iff)
  then have "q < NPROC" "p_pid (procs s q) = pid" by (auto simp: find_Some_iff)
  then have "q = p" using table_pid_unique[OF ok, of q p] p pid by simp
  then show "kill pid s = (0, upd_proc p signalled s)" using kill_finds[OF q] by simp
  show "p_state (procs s p) \<noteq> UNUSED" using table_pid_zero[OF ok p(1)] p(2) pid by auto
qed

theorem kill_signals_process_witness:
  "kill 2 demo_family = (0, upd_proc 1 signalled demo_family) \<and> p_state (signalled (procs demo_family 1)) = RUNNABLE \<and>
   kill 7 demo_family = (-1, demo_family)"
proof (intro conjI)
  have "p_pid (procs demo_family 1) = 2" by (simp add: demo_family_def demo_kern_def)
  then show "kill 2 demo_family = (0, upd_proc 1 signalled demo_family)"
    using kill_signals_process[OF demo_family_ok, of 2] by simp
  show "p_state (signalled (procs demo_family 1)) = RUNNABLE" by (simp add: signalled_def demo_family_def demo_kern_def)
  have "\<forall>p < NPROC. p_pid (procs demo_family p) \<noteq> 7" by (simp add: demo_family_def demo_kern_def demo_proc_def)
  then show "kill 7 demo_family = (-1, demo_family)" using kill_signals_process[OF demo_family_ok, of 7] by simp
qed

lemma procs_on_km: "on_km f s = Ret a (t :: kern) \<Longrightarrow> procs t = procs s"
  by (auto simp: on_km_def on_fs_def res_simps)

lemma allocproc_killed:
  assumes "allocproc c s = Ret (Some q) t"
  shows "find (\<lambda>p. p_state (procs s p) = UNUSED) [0..<NPROC] = Some q \<and> p_killed (procs t q) = p_killed (procs s q)"
proof (cases "find (\<lambda>p. p_state (procs s p) = UNUSED) [0..<NPROC]")
  case None
  then show ?thesis using assms by (simp add: allocproc_def)
next
  case (Some p)
  show ?thesis using assms
    by (auto simp: allocproc_def Some allocpid_def Let_def res_simps upd_proc_def split: if_splits dest!: procs_on_km)
qed

text \<open>
  (C26) \<^verbatim>\<open>kill(0)\<close> is accepted: as the loop compares pids without looking at the state, it finds the lowest free slot and marks it, and as
  \<^verbatim>\<open>allocproc\<close> does not clear the mark, the next process created in that slot is born killed.
\<close>

theorem kill_zero_marks_next_process:
  assumes ok: "table_ok (table_of s)" and free: "\<exists>p < NPROC. p_state (procs s p) = UNUSED"
  shows "\<exists>q < NPROC. p_state (procs s q) = UNUSED \<and> kill 0 s = (0, upd_proc q signalled s) \<and>
     (\<forall>c r t. allocproc c (snd (kill 0 s)) = Ret (Some r) t \<longrightarrow> r = q \<and> p_killed (procs t r))"
proof -
  have same: "find (\<lambda>p. p_pid (procs s p) = 0) [0..<NPROC] = find (\<lambda>p. p_state (procs s p) = UNUSED) [0..<NPROC]"
    by (rule find_cong) (simp_all add: table_pid_zero[OF ok])
  obtain q where q: "find (\<lambda>p. p_state (procs s p) = UNUSED) [0..<NPROC] = Some q"
    using free by (cases "find (\<lambda>p. p_state (procs s p) = UNUSED) [0..<NPROC]") (auto simp: find_None_iff)
  then have u: "q < NPROC" "p_state (procs s q) = UNUSED" by (auto simp: find_Some_iff)
  have k: "kill 0 s = (0, upd_proc q signalled s)" by (rule kill_finds) (simp only: same q)
  have st: "p_state (procs (upd_proc q signalled s) p) = UNUSED \<longleftrightarrow> p_state (procs s p) = UNUSED" for p
    by (simp add: upd_proc_def signalled_def)
  have "r = q \<and> p_killed (procs t r)" if "allocproc c (snd (kill 0 s)) = Ret (Some r) t" for c r t
  proof -
    have a: "find (\<lambda>p. p_state (procs s p) = UNUSED) [0..<NPROC] = Some r \<and>
        p_killed (procs t r) = p_killed (procs (upd_proc q signalled s) r)"
      using allocproc_killed[of c "upd_proc q signalled s" r t] that by (simp only: k snd_conv st)
    then have "r = q" using q by simp
    then show ?thesis using a by (simp add: upd_proc_def signalled_def)
  qed
  then show ?thesis using u k by blast
qed

theorem kill_zero_marks_next_process_witness:
  "table_ok (table_of demo_family) \<and> fst (kill 0 demo_family) = 0 \<and>
   (\<exists>q < NPROC. p_state (procs demo_family q) = UNUSED \<and> p_killed (procs (snd (kill 0 demo_family)) q))"
proof -
  have "p_state (procs demo_family 2) = UNUSED" by (simp add: demo_family_def demo_kern_def demo_proc_def)
  then have "\<exists>p < NPROC. p_state (procs demo_family p) = UNUSED" by (intro exI[of _ 2]) simp
  from kill_zero_marks_next_process[OF demo_family_ok this] obtain q where
    q: "q < NPROC" "p_state (procs demo_family q) = UNUSED" "kill 0 demo_family = (0, upd_proc q signalled demo_family)" by blast
  then show ?thesis using demo_family_ok by (auto simp: upd_proc_def signalled_def)
qed

end
