(* ===== verification/Ring.thy ===== *)
theory Ring
  imports Prelude
begin

text \<open>
  Ring buffers with free-running counters, as pipes, the serial port and the console have them: \<open>r\<close> bytes have been
  taken out and \<open>w\<close> put in, both counters wrap around at their width, and byte number \<open>n\<close> is stored at index \<open>n mod N\<close>.
  The locale states what such a buffer promises its clients.
\<close>

section \<open>The content of a ring buffer\<close>

definition ring :: "nat \<Rightarrow> (nat \<Rightarrow> 'b) \<Rightarrow> 'a::len word \<Rightarrow> 'a word \<Rightarrow> 'b list" where
  "ring N d r w = map (\<lambda>k. d ((unat r + k) mod N)) [0..<unat (w - r)]"

lemma length_ring [simp]: "length (ring N d r w) = unat (w - r)"
  by (simp add: ring_def)

lemma ring_empty [simp]: "ring N d r r = []"
  by (simp add: ring_def)

lemma unat_add_mod:
  assumes "N dvd 2 ^ LENGTH('a)"
  shows "unat ((r :: 'a::len word) + of_nat k) mod N = (unat r + k) mod N"
proof -
  have "unat (r + of_nat k) = (unat r + k) mod 2 ^ LENGTH('a)"
    by (simp add: unat_word_ariths unat_of_nat take_bit_eq_mod mod_add_right_eq)
  then show ?thesis using mod_mod_cancel[OF assms] by simp
qed

lemma ring_put:
  fixes r w :: "'a::len word"
  assumes N: "N dvd 2 ^ LENGTH('a)" "N < 2 ^ LENGTH('a)" and n: "unat (w - r) < N"
  shows "ring N (d(unat w mod N := c)) r (w + 1) = ring N d r w @ [c]"
proof -
  let ?n = "unat (w - r)"
  have w: "unat w mod N = (unat r + ?n) mod N"
    using unat_add_mod[OF N(1), of r ?n] by simp
  have "unat ((w - r) + 1) = Suc ?n"
    using n N(2) by (simp add: unat_word_ariths(1)[of "w - r" 1])
  then have l: "unat (w + 1 - r) = Suc ?n" by (simp add: algebra_simps)
  have "(unat r + k) mod N \<noteq> (unat r + ?n) mod N" if k: "k < ?n" for k
  proof
    assume "(unat r + k) mod N = (unat r + ?n) mod N"
    then have "N dvd (unat r + ?n) - (unat r + k)" using k mod_eq_dvd_iff_nat[of "unat r + k" "unat r + ?n" N] by simp
    then have "N dvd ?n - k" by simp
    then show False using k n dvd_imp_le[of N "?n - k"] by simp
  qed
  then show ?thesis by (simp add: ring_def l w)
qed

lemma ring_get:
  fixes r w :: "'a::len word"
  assumes N: "N dvd 2 ^ LENGTH('a)" and ne: "r \<noteq> w"
  shows "ring N d r w = d (unat r mod N) # ring N d (r + 1) w"
proof -
  have "w - r \<noteq> 0" using ne by simp
  then have l: "unat (w - r) = Suc (unat (w - (r + 1)))"
    using unat_minus_one[of "w - r"] unat_gt_0[of "w - r"] by (simp add: algebra_simps)
  have "(unat r + Suc k) mod N = (unat (r + 1) + k) mod N" for k
    using unat_add_mod[OF N, of r 1] by (metis add.commute add_Suc_right mod_add_left_eq of_nat_1 plus_1_eq_Suc)
  then have "map (\<lambda>k. d ((unat r + k) mod N)) (map Suc [0..<unat (w - (r + 1))]) = ring N d (r + 1) w"
    by (simp add: ring_def)
  then show ?thesis
    unfolding ring_def[of N d r w] l by (simp add: upt_conv_Cons map_Suc_upt[symmetric] del: upt_Suc)
qed

section \<open>The contract\<close>

locale fifo =
  fixes put :: "'b \<Rightarrow> 's \<Rightarrow> 's"
    and get :: "'s \<Rightarrow> 'b \<times> 's"
    and content :: "'s \<Rightarrow> 'b list"
    and inv :: "'s \<Rightarrow> bool"
    and cap :: nat
  assumes put_ok: "inv s \<Longrightarrow> length (content s) < cap \<Longrightarrow> inv (put b s) \<and> content (put b s) = content s @ [b]"
    and get_ok: "inv s \<Longrightarrow> content s \<noteq> [] \<Longrightarrow>
      get s = (hd (content s), snd (get s)) \<and> inv (snd (get s)) \<and> content (snd (get s)) = tl (content s)"
    and bounded: "inv s \<Longrightarrow> length (content s) \<le> cap"
begin

text \<open>Puts and gets of several bytes.\<close>

primrec puts :: "'b list \<Rightarrow> 's \<Rightarrow> 's" where
  "puts [] s = s"
| "puts (b # bs) s = puts bs (put b s)"

primrec gets :: "nat \<Rightarrow> 's \<Rightarrow> 'b list \<times> 's" where
  "gets 0 s = ([], s)"
| "gets (Suc n) s = (let (b, s) = get s; (bs, s) = gets n s in (b # bs, s))"

lemma puts_ok:
  "inv s \<Longrightarrow> length (content s) + length bs \<le> cap \<Longrightarrow> inv (puts bs s) \<and> content (puts bs s) = content s @ bs"
proof (induction bs arbitrary: s)
  case (Cons b bs)
  then have "inv (put b s)" "content (put b s) = content s @ [b]" using put_ok[of s b] by auto
  then show ?case using Cons.IH[of "put b s"] Cons.prems by simp
qed simp

lemma gets_ok:
  "inv s \<Longrightarrow> n \<le> length (content s) \<Longrightarrow>
   fst (gets n s) = take n (content s) \<and> inv (snd (gets n s)) \<and> content (snd (gets n s)) = drop n (content s)"
proof (induction n arbitrary: s)
  case (Suc n)
  then have ne: "content s \<noteq> []" by auto
  note g = get_ok[OF Suc.prems(1) ne]
  have "n \<le> length (tl (content s))" using Suc.prems(2) by simp
  then have r: "fst (gets n (snd (get s))) = take n (tl (content s))" "inv (snd (gets n (snd (get s))))"
      "content (snd (gets n (snd (get s)))) = drop n (tl (content s))"
    using Suc.IH[of "snd (get s)"] g by auto
  have f: "fst (get s) = hd (content s)" using g by (metis fst_conv)
  show ?case using r f ne by (cases "content s") (auto simp: split_beta Let_def)
qed simp

text \<open>What is put into an empty buffer comes out in the same order.\<close>

lemma through:
  assumes "inv s" "content s = []" "length bs \<le> cap"
  shows "fst (gets (length bs) (puts bs s)) = bs"
proof -
  have p: "inv (puts bs s)" "content (puts bs s) = bs" using puts_ok[of s bs] assms by simp_all
  have "fst (gets (length bs) (puts bs s)) = take (length bs) (content (puts bs s))"
    using gets_ok[OF p(1), of "length bs"] p(2) by simp
  then show ?thesis by (simp add: p(2))
qed

end

end
