(* ===== verification/Virtio.thy ===== *)
theory Virtio
  imports Kalloc Ring
begin

text \<open>
  The driver of the virtio disk, \<^verbatim>\<open>virtio_disk.c\<close> and \<^verbatim>\<open>virtio.h\<close>: the eight DMA descriptors, the ring of available chains that
  the driver fills, the ring of used chains that the device fills, and the interrupt handler. Buffers are numbers. An
  address in a descriptor says which object it points to. \<^verbatim>\<open>virtio_disk_rw\<close> sleeps twice, so it is the sequence of
  \<open>rw_start\<close>, which queues the request, and \<open>rw_wait\<close>, which ends it once the interrupt handler has cleared the buffer's flag.
\<close>

section \<open>State\<close>

abbreviation (input) VNUM :: nat where "VNUM \<equiv> 8"

datatype dma = NoAddr | OpsAddr nat | DataAddr nat | StatusAddr nat

record virtq_desc =
  d_addr :: dma
  d_len :: u32
  d_flags :: u16
  d_next :: u16

record virtio_blk_req =
  rq_type :: u32
  rq_sector :: u64

text \<open>
  \<open>bdisk\<close> is the field \<^verbatim>\<open>disk\<close> of the buffers, \<open>vregs\<close> the writes to device registers, and \<open>vwakes\<close> the wakeups.
  \<open>used_ring\<close> and \<open>used_dev\<close> are written by the device.
\<close>

record vdisk =
  desc :: "nat \<Rightarrow> virtq_desc"
  avail_ring :: "nat \<Rightarrow> u16"
  avail_idx :: u16
  used_ring :: "nat \<Rightarrow> u32"
  used_dev :: u16
  dfree :: "nat \<Rightarrow> bool"
  used_idx :: u16
  info_b :: "nat \<Rightarrow> nat option"
  info_status :: "nat \<Rightarrow> u8"
  ops :: "nat \<Rightarrow> virtio_blk_req"
  bdisk :: "nat \<Rightarrow> bool"
  vregs :: "(nat \<times> u32) list"
  vwakes :: "chan list"

definition wreg :: "nat \<Rightarrow> u32 \<Rightarrow> vdisk \<Rightarrow> vdisk" where
  "wreg r v s = s\<lparr>vregs := vregs s @ [(r, v)]\<rparr>"

definition no_desc :: virtq_desc where
  "no_desc = \<lparr>d_addr = NoAddr, d_len = 0, d_flags = 0, d_next = 0\<rparr>"

section \<open>Initialisation\<close>

text \<open>\<open>rd r\<close> is what a read of register \<open>r\<close> returns; each register is read once.\<close>

definition clear_features :: "u32 \<Rightarrow> u32" where
  "clear_features f = fold (\<lambda>n f. f AND NOT (push_bit n 1)) [5, 7, 11, 12, 27, 29, 28] f"

definition virtio_disk_init :: "(nat \<Rightarrow> u32) \<Rightarrow> kmem \<times> vdisk \<Rightarrow> (unit, kmem \<times> vdisk) res" where
  "virtio_disk_init rd ks =
     (let s = snd ks in
      if rd 0 \<noteq> 0x74726976 \<or> rd 4 \<noteq> 2 \<or> rd 8 \<noteq> 2 \<or> rd 0xc \<noteq> 0x554d4551 then Panic ''could not find virtio disk''
      else
        let s = wreg 0x70 0 s; s = wreg 0x70 1 s; s = wreg 0x70 3 s;
            s = wreg 0x20 (clear_features (rd 0x10)) s;
            s = wreg 0x70 11 s; status = rd 0x70 in
        if status AND 8 = 0 then Panic ''virtio disk FEATURES_OK unset''
        else
          let s = wreg 0x30 0 s in
          if rd 0x44 \<noteq> 0 then Panic ''virtio disk should not be ready''
          else if rd 0x34 = 0 then Panic ''virtio disk has no queue 0''
          else if rd 0x34 < 8 then Panic ''virtio disk max queue too short''
          else
            bnd (in_part (\<lambda>k. (k, s)) (kalloc (fst ks))) (\<lambda>d ks.
            bnd (in_part (\<lambda>k. (k, s)) (kalloc (fst ks))) (\<lambda>a ks.
            bnd (in_part (\<lambda>k. (k, s)) (kalloc (fst ks))) (\<lambda>u ks.
              if d = 0 \<or> a = 0 \<or> u = 0 then Panic ''virtio disk kalloc''
              else
                let k = fst ks; k = k\<lparr>phys := memset (memset (memset (phys k) d 0 PGSIZE) a 0 PGSIZE) u 0 PGSIZE\<rparr>;
                    s = s\<lparr>desc := (\<lambda>_. no_desc), avail_ring := (\<lambda>_. 0), avail_idx := 0, used_ring := (\<lambda>_. 0), used_dev := 0\<rparr>;
                    s = wreg 0x38 8 s;
                    s = wreg 0x80 (ucast d) s; s = wreg 0x84 (ucast (drop_bit 32 d)) s;
                    s = wreg 0x90 (ucast a) s; s = wreg 0x94 (ucast (drop_bit 32 a)) s;
                    s = wreg 0xa0 (ucast u) s; s = wreg 0xa4 (ucast (drop_bit 32 u)) s;
                    s = wreg 0x44 1 s;
                    s = s\<lparr>dfree := (\<lambda>i. if i < VNUM then True else dfree s i)\<rparr>
                in Ret () (k, wreg 0x70 (status OR 4) s)))))"

section \<open>Descriptors\<close>

definition alloc_desc :: "vdisk \<Rightarrow> nat option \<times> vdisk" where
  "alloc_desc s =
     (case find (dfree s) [0..<VNUM] of
        Some i \<Rightarrow> (Some i, s\<lparr>dfree := (dfree s)(i := False)\<rparr>)
      | None \<Rightarrow> (None, s))"

definition free_desc :: "nat \<Rightarrow> vdisk \<Rightarrow> (unit, vdisk) res" where
  "free_desc i s =
     (if i \<ge> VNUM then Panic ''free_desc 1''
      else if dfree s i then Panic ''free_desc 2''
      else Ret () (s\<lparr>desc := (desc s)(i := no_desc), dfree := (dfree s)(i := True), vwakes := vwakes s @ [ChDiskFree]\<rparr>))"

text \<open>Each pass of \<^verbatim>\<open>free_chain\<close> frees a descriptor that was in use, so nine passes never happen.\<close>

primrec free_chain_loop :: "nat \<Rightarrow> nat \<Rightarrow> vdisk \<Rightarrow> (unit, vdisk) res" where
  "free_chain_loop 0 i s = Diverge"
| "free_chain_loop (Suc k) i s =
     (let flag = d_flags (desc s i); nxt = unat (d_next (desc s i)) in
      bnd (free_desc i s) (\<lambda>_ s. if flag AND 1 \<noteq> 0 then free_chain_loop k nxt s else Ret () s))"

definition free_chain :: "nat \<Rightarrow> vdisk \<Rightarrow> (unit, vdisk) res" where
  "free_chain i s = free_chain_loop 9 i s"

primrec free_descs :: "nat list \<Rightarrow> vdisk \<Rightarrow> (unit, vdisk) res" where
  "free_descs [] s = Ret () s"
| "free_descs (i # is) s = bnd (free_desc i s) (\<lambda>_ s. free_descs is s)"

text \<open>The loop of \<^verbatim>\<open>alloc3_desc\<close>, with the indices found so far and the number still needed.\<close>

primrec alloc_loop :: "nat \<Rightarrow> nat list \<Rightarrow> vdisk \<Rightarrow> (nat list option, vdisk) res" where
  "alloc_loop 0 idx s = Ret (Some idx) s"
| "alloc_loop (Suc n) idx s =
     (case alloc_desc s of
        (Some i, s) \<Rightarrow> alloc_loop n (idx @ [i]) s
      | (None, s) \<Rightarrow> bnd (free_descs idx s) (\<lambda>_ s. Ret None s))"

definition alloc3_desc :: "vdisk \<Rightarrow> (nat list option, vdisk) res" where
  "alloc3_desc s = alloc_loop 3 [] s"

section \<open>Requests\<close>

definition format_req :: "nat \<Rightarrow> u32 \<Rightarrow> bool \<Rightarrow> nat \<Rightarrow> nat \<Rightarrow> nat \<Rightarrow> vdisk \<Rightarrow> vdisk" where
  "format_req b blockno wr i j k s =
     (let s = s\<lparr>ops := (ops s)(i := \<lparr>rq_type = (if wr then 1 else 0), rq_sector = ucast (blockno * 2)\<rparr>)\<rparr>;
          s = s\<lparr>desc := (desc s)(i := \<lparr>d_addr = OpsAddr i, d_len = 16, d_flags = 1, d_next = of_nat j\<rparr>)\<rparr>;
          s = s\<lparr>desc := (desc s)(j := \<lparr>d_addr = DataAddr b, d_len = 1024, d_flags = (if wr then 0 else 2) OR 1, d_next = of_nat k\<rparr>)\<rparr>;
          s = s\<lparr>info_status := (info_status s)(i := 0xff)\<rparr>;
          s = s\<lparr>desc := (desc s)(k := \<lparr>d_addr = StatusAddr i, d_len = 1, d_flags = 2, d_next = 0\<rparr>)\<rparr>;
          s = s\<lparr>bdisk := (bdisk s)(b := True), info_b := (info_b s)(i := Some b)\<rparr>;
          s = s\<lparr>avail_ring := (avail_ring s)(unat (avail_idx s) mod VNUM := of_nat i)\<rparr>;
          s = s\<lparr>avail_idx := avail_idx s + 1\<rparr>
      in wreg 0x50 0 s)"

text \<open>The first part of \<^verbatim>\<open>virtio_disk_rw\<close>; without three free descriptors the process sleeps and tries again.\<close>

definition rw_start :: "nat \<Rightarrow> u32 \<Rightarrow> bool \<Rightarrow> vdisk \<Rightarrow> (nat list, vdisk) res" where
  "rw_start b blockno wr s =
     bnd (alloc3_desc s) (\<lambda>r s.
       case r of
         None \<Rightarrow> Sleep ChDiskFree s
       | Some idx \<Rightarrow> Ret idx (format_req b blockno wr (idx ! 0) (idx ! 1) (idx ! 2) s))"

definition rw_wait :: "nat \<Rightarrow> nat list \<Rightarrow> vdisk \<Rightarrow> (unit, vdisk) res" where
  "rw_wait b idx s =
     (if bdisk s b then Sleep (ChBuf b) s
      else free_chain (idx ! 0) (s\<lparr>info_b := (info_b s)(idx ! 0 := None)\<rparr>))"

text \<open>A chain without a buffer would make the interrupt handler store through a null pointer.\<close>

function intr_loop :: "vdisk \<Rightarrow> (unit, vdisk) res" where
  "intr_loop s =
     (if used_idx s = used_dev s then Ret () s
      else
        let id = unat (used_ring s (unat (used_idx s) mod VNUM)) in
        if info_status s id \<noteq> 0 then Panic ''virtio_disk_intr status''
        else case info_b s id of
          None \<Rightarrow> Diverge
        | Some b \<Rightarrow>
            intr_loop (s\<lparr>bdisk := (bdisk s)(b := False), vwakes := vwakes s @ [ChBuf b], used_idx := used_idx s + 1\<rparr>))"
  by pat_completeness auto

lemma distance_decreases: "u \<noteq> (w :: 'a::len word) \<Longrightarrow> unat (w - (u + 1)) < unat (w - u)"
  using unat_minus_one[of "w - u"] unat_gt_0[of "w - u"] by (simp add: algebra_simps)

termination intr_loop
  by (relation "measure (\<lambda>s. unat (used_dev s - used_idx s))") (auto simp: distance_decreases)

declare intr_loop.simps [simp del]

definition virtio_disk_intr :: "u32 \<Rightarrow> vdisk \<Rightarrow> (unit, vdisk) res" where
  "virtio_disk_intr int_status s = intr_loop (wreg 0x64 (int_status AND 3) s)"

end
