(* ===== verification/Boot.thy ===== *)
theory Boot
  imports Proc_Table Virtio
begin

text \<open>
  Starting the machine: \<^verbatim>\<open>start\<close> and \<^verbatim>\<open>timerinit\<close> of \<^verbatim>\<open>kernel/start.c\<close>, \<^verbatim>\<open>main\<close> of \<^verbatim>\<open>kernel/main.c\<close>, the interrupt controller of
  \<^verbatim>\<open>kernel/plic.c\<close>, and the parts of \<^verbatim>\<open>vm.c\<close> and \<^verbatim>\<open>trap.c\<close> that only write control registers. The control registers of a processor are a record, and the
  registers of the interrupt controller a memory of words. Initialisers that only name a lock (\<^verbatim>\<open>printfinit\<close>, \<^verbatim>\<open>trapinit\<close>, \<^verbatim>\<open>fileinit\<close>) leave no trace.
\<close>

section \<open>Control registers\<close>

record csrs =
  c_mstatus :: u64
  c_mepc :: u64
  c_satp :: u64
  c_medeleg :: u64
  c_mideleg :: u64
  c_sie :: u64
  c_pmpaddr0 :: u64
  c_pmpcfg0 :: u64
  c_mie :: u64
  c_menvcfg :: u64
  c_mcounteren :: u64
  c_stimecmp :: u64
  c_stvec :: u64
  c_tp :: u64

text \<open>\<open>now\<close> is the value of the clock.\<close>

definition timerinit :: "u64 \<Rightarrow> csrs \<Rightarrow> csrs" where
  "timerinit now r = r\<lparr>c_mie := c_mie r OR push_bit 5 1, c_menvcfg := c_menvcfg r OR push_bit 63 1,
     c_mcounteren := c_mcounteren r OR 2, c_stimecmp := now + 1000000\<rparr>"

text \<open>\<open>main_pc\<close> is the address of \<^verbatim>\<open>main\<close> and \<open>hart\<close> the number of the processor.\<close>

definition start :: "u64 \<Rightarrow> u64 \<Rightarrow> u64 \<Rightarrow> csrs \<Rightarrow> csrs" where
  "start main_pc now hart r =
     (let r = r\<lparr>c_mstatus := (c_mstatus r AND NOT (push_bit 11 3)) OR push_bit 11 1\<rparr>;
          r = r\<lparr>c_mepc := main_pc, c_satp := 0, c_medeleg := 0xffff, c_mideleg := 0xffff\<rparr>;
          r = r\<lparr>c_sie := c_sie r OR push_bit 9 1 OR push_bit 5 1 OR push_bit 1 1\<rparr>;
          r = r\<lparr>c_pmpaddr0 := 0x3fffffffffffff, c_pmpcfg0 := 0xf\<rparr>
      in (timerinit now r)\<lparr>c_tp := hart\<rparr>)"

definition kvminithart :: "u64 \<Rightarrow> csrs \<Rightarrow> csrs" where
  "kvminithart kpt r = r\<lparr>c_satp := MAKE_SATP kpt\<rparr>"

definition trapinithart :: "u64 \<Rightarrow> csrs \<Rightarrow> csrs" where
  "trapinithart kernelvec r = r\<lparr>c_stvec := kernelvec\<rparr>"

section \<open>Interrupt controller\<close>

definition PLIC_SENABLE :: "nat \<Rightarrow> u64" where
  "PLIC_SENABLE hart = PLIC + 0x2080 + of_nat hart * 0x100"

definition PLIC_SPRIORITY :: "nat \<Rightarrow> u64" where
  "PLIC_SPRIORITY hart = PLIC + 0x201000 + of_nat hart * 0x2000"

definition PLIC_SCLAIM :: "nat \<Rightarrow> u64" where
  "PLIC_SCLAIM hart = PLIC + 0x201004 + of_nat hart * 0x2000"

definition plicinit :: "(u64 \<Rightarrow> u32) \<Rightarrow> (u64 \<Rightarrow> u32)" where
  "plicinit m = m(PLIC + of_nat UART0_IRQ * 4 := 1, PLIC + of_nat VIRTIO0_IRQ * 4 := 1)"

definition plicinithart :: "nat \<Rightarrow> (u64 \<Rightarrow> u32) \<Rightarrow> (u64 \<Rightarrow> u32)" where
  "plicinithart hart m = m(PLIC_SENABLE hart := push_bit UART0_IRQ 1 OR push_bit VIRTIO0_IRQ 1, PLIC_SPRIORITY hart := 0)"

definition plic_claim :: "nat \<Rightarrow> (u64 \<Rightarrow> u32) \<Rightarrow> u32" where
  "plic_claim hart m = m (PLIC_SCLAIM hart)"

definition plic_complete :: "nat \<Rightarrow> u32 \<Rightarrow> (u64 \<Rightarrow> u32) \<Rightarrow> (u64 \<Rightarrow> u32)" where
  "plic_complete hart n m = m(PLIC_SCLAIM hart := n)"

section \<open>Main\<close>

text \<open>The machine while it boots; \<open>symbols\<close> are the addresses that the linker fixes.\<close>

record machine =
  krn :: kern
  vdev :: vdisk
  plic_regs :: "u64 \<Rightarrow> u32"
  harts :: "nat \<Rightarrow> csrs"
  kernel_pagetable :: u64
  started :: bool

record symbols =
  etext :: u64
  kernelvec_pc :: u64

definition on_krn :: "(kern \<Rightarrow> ('a, kern) res) \<Rightarrow> machine \<Rightarrow> ('a, machine) res" where
  "on_krn f m = in_part (\<lambda>s. m\<lparr>krn := s\<rparr>) (f (krn m))"

definition on_hart :: "nat \<Rightarrow> (csrs \<Rightarrow> csrs) \<Rightarrow> machine \<Rightarrow> machine" where
  "on_hart h f m = m\<lparr>harts := (harts m)(h := f (harts m h))\<rparr>"

definition kvminit :: "symbols \<Rightarrow> machine \<Rightarrow> (unit, machine) res" where
  "kvminit y m = bnd (on_krn (\<lambda>s. on_km (kvmmake (etext y) (tramp s)) s) m) (\<lambda>pt m. Ret () (m\<lparr>kernel_pagetable := pt\<rparr>))"

definition disk_init :: "(nat \<Rightarrow> u32) \<Rightarrow> machine \<Rightarrow> (unit, machine) res" where
  "disk_init rd m =
     in_part (\<lambda>(km, v). m\<lparr>krn := (krn m)\<lparr>kfs := (kfs (krn m))\<lparr>fmem := km\<rparr>\<rparr>, vdev := v\<rparr>)
       (virtio_disk_init rd (fmem (kfs (krn m)), vdev m))"

definition main_first :: "symbols \<Rightarrow> (nat \<Rightarrow> u32) \<Rightarrow> machine \<Rightarrow> (unit, machine) res" where
  "main_first y rd m =
     (let m = m\<lparr>krn := say ''xv6 kernel is booting'' (consoleinit (krn m))\<rparr> in
      bnd (on_krn (on_km kinit) m) (\<lambda>_ m.
      bnd (kvminit y m) (\<lambda>_ m.
      let m = on_hart 0 (kvminithart (kernel_pagetable m)) m;
          m = m\<lparr>krn := procinit (krn m)\<rparr>;
          m = on_hart 0 (trapinithart (kernelvec_pc y)) m;
          m = m\<lparr>plic_regs := plicinithart 0 (plicinit (plic_regs m))\<rparr>;
          m = m\<lparr>krn := (krn m)\<lparr>kfs := (kfs (krn m))\<lparr>flog := (flog (kfs (krn m)))\<lparr>lbc := binit (lbc (flog (kfs (krn m))))\<rparr>\<rparr>\<rparr>\<rparr>;
          m = m\<lparr>krn := (krn m)\<lparr>kfs := iinit (kfs (krn m))\<rparr>\<rparr> in
      bnd (disk_init rd m) (\<lambda>_ m.
      bnd (on_krn userinit m) (\<lambda>_ m.
      Ret () (m\<lparr>started := True\<rparr>))))))"

text \<open>The other processors spin until the first one has finished: one look at the flag.\<close>

definition main_other :: "symbols \<Rightarrow> nat \<Rightarrow> machine \<Rightarrow> machine option" where
  "main_other y hart m =
     (if \<not> started m then None
      else
        let m = m\<lparr>krn := say ''hart %d starting'' (krn m)\<rparr>;
            m = on_hart hart (kvminithart (kernel_pagetable m)) m;
            m = on_hart hart (trapinithart (kernelvec_pc y)) m
        in Some (m\<lparr>plic_regs := plicinithart hart (plic_regs m)\<rparr>))"

section \<open>The table after booting\<close>

lemma fresh_consoleinit: "fresh_procs (say x (consoleinit s)) = fresh_procs s"
  by (simp add: fresh_procs_def consoleinit_def say_def)

lemma on_km_fresh: "on_km f s = Ret a (t :: kern) \<Longrightarrow> fresh_procs t = fresh_procs s"
  by (auto simp: on_km_def on_fs_def fresh_procs_def res_simps)

lemma table_of_lower: "table_of (s\<lparr>kfs := x\<rparr>) = table_of s"
  by (simp add: table_of_def)

text \<open>A processor that boots the kernel leaves a well-formed process table, whose first process is alive, and releases the others.\<close>

lemma main_first_table:
  assumes f: "fresh_procs (krn m)" and e: "main_first y rd m = Ret () m'"
  shows "table_ok (table_of (krn m'))" "started m'"
proof -
  define m1 where "m1 = m\<lparr>krn := say ''xv6 kernel is booting'' (consoleinit (krn m))\<rparr>"
  obtain m2 m3 where 2: "on_krn (on_km kinit) m1 = Ret () m2" and 3: "kvminit y m2 = Ret () m3"
    using e by (auto simp: main_first_def Let_def m1_def[symmetric] res_simps)
  have f2: "fresh_procs (krn m2)"
    using 2 f on_km_fresh by (fastforce simp: on_krn_def m1_def fresh_consoleinit res_simps)
  have f3: "fresh_procs (krn m3)"
    using 3 f2 on_km_fresh by (fastforce simp: kvminit_def on_krn_def res_simps)
  define m4 where "m4 = (let m = on_hart 0 (kvminithart (kernel_pagetable m3)) m3;
          m = m\<lparr>krn := procinit (krn m)\<rparr>;
          m = on_hart 0 (trapinithart (kernelvec_pc y)) m;
          m = m\<lparr>plic_regs := plicinithart 0 (plicinit (plic_regs m))\<rparr>;
          m = m\<lparr>krn := (krn m)\<lparr>kfs := (kfs (krn m))\<lparr>flog := (flog (kfs (krn m)))\<lparr>lbc := binit (lbc (flog (kfs (krn m))))\<rparr>\<rparr>\<rparr>\<rparr>
      in m\<lparr>krn := (krn m)\<lparr>kfs := iinit (kfs (krn m))\<rparr>\<rparr>)"
  have t4: "table_of (krn m4) = table_of (procinit (krn m3))" by (simp add: m4_def Let_def on_hart_def table_of_lower)
  obtain m5 m6 where 5: "disk_init rd m4 = Ret () m5" and 6: "on_krn userinit m5 = Ret () m6" and m': "m' = m6\<lparr>started := True\<rparr>"
    using e 2 3 by (auto simp: main_first_def Let_def m1_def[symmetric] m4_def res_simps)
  have t5: "table_of (krn m5) = table_of (krn m4)"
    using 5 by (auto simp: disk_init_def res_simps table_of_lower)
  have i: "iproc (table_of (krn m5)) = None" using f3 by (simp add: t5 t4 table_slot procinit_def fresh_procs_def)
  have ok: "table_ok (table_of (krn m5))" using fresh_table[OF f3] by (simp add: t5 t4)
  obtain s where s: "userinit (krn m5) = Ret () s" "krn m6 = s" using 6 by (auto simp: on_krn_def res_simps)
  have "tsteps (table_of (krn m5)) (table_of s)" using userinit_table[OF refl i] s(1) by (simp add: goes_def)
  then show "table_ok (table_of (krn m'))" using tsteps_ok ok s(2) m' by simp
  show "started m'" by (simp add: m')
qed

end
