(* ===== verification/Fs_Alloc.thy ===== *)
theory Fs_Alloc
  imports Fs_Store
begin

text \<open>
  Allocation of disk blocks, \<^verbatim>\<open>balloc\<close> and \<^verbatim>\<open>bfree\<close> of \<^verbatim>\<open>fs.c\<close>: the free map as a set of block numbers.
\<close>

section \<open>The free map\<close>

text \<open>The bit of block \<open>b\<close> in the free map.\<close>

definition map_block :: "fs \<Rightarrow> nat \<Rightarrow> u32" where
  "map_block s b = of_nat (b div 8192) + bmapstart (sb s)"

definition block_bit :: "block \<Rightarrow> nat \<Rightarrow> bool" where
  "block_bit d bi \<longleftrightarrow> bit (d (bi div 8)) (bi mod 8)"

definition in_use :: "fs \<Rightarrow> nat \<Rightarrow> bool" where
  "in_use s b \<longleftrightarrow> block_bit (bcontent s (map_block s b)) (b mod 8192)"

definition nblk :: "fs \<Rightarrow> nat" where
  "nblk s = unat (sb_size (sb s))"

text \<open>The blocks in use; the blocks of the free map are among them.\<close>

definition in_use_set :: "fs \<Rightarrow> nat set" where
  "in_use_set s = {b. b < nblk s \<and> in_use s b}"

definition map_in_use :: "fs \<Rightarrow> bool" where
  "map_in_use s \<longleftrightarrow> (\<forall>b < nblk s. \<forall>x < nblk s. of_nat b = map_block s x \<longrightarrow> in_use s b)"

lemma mask_bit: "(x AND bit_mask bi = 0) = (\<not> bit x (bi mod 8))"
  by (simp add: bit_mask_def and_exp_eq_0_iff_not_bit)

lemma of_nat_div_u32: "b < 2 ^ 32 \<Longrightarrow> (of_nat b :: u32) div 8192 = of_nat (b div 8192)"
proof -
  assume b: "b < 2 ^ 32"
  have "unat ((of_nat b :: u32) div 8192) = b div 8192" using b by (simp add: unat_div unat_of_nat_u32)
  moreover have "unat (of_nat (b div 8192) :: u32) = b div 8192" using b by (intro unat_of_nat_u32) simp
  ultimately show ?thesis by (simp add: word_unat_eq_iff)
qed

lemma BBLOCK_map_block: "b < 2 ^ 32 \<Longrightarrow> BBLOCK (of_nat b) (sb s) = map_block s b"
  by (simp add: BBLOCK_def map_block_def of_nat_div_u32)

lemma map_block_inj: "b < 2 ^ 32 \<Longrightarrow> x < 2 ^ 32 \<Longrightarrow> map_block s b = map_block s x \<longleftrightarrow> b div 8192 = x div 8192"
proof -
  assume "b < 2 ^ 32" "x < 2 ^ 32"
  then have "unat (of_nat (b div 8192) :: u32) = b div 8192" "unat (of_nat (x div 8192) :: u32) = x div 8192"
    by (simp_all add: unat_of_nat_u32)
  then show ?thesis by (metis map_block_def add_right_cancel)
qed

lemma nblk_less: "nblk s < 2 ^ 32"
  unfolding nblk_def by (rule unat_less_u32)

definition mark :: "nat \<Rightarrow> bool \<Rightarrow> block \<Rightarrow> block" where
  "mark bi y d = d(bi div 8 := (if y then d (bi div 8) OR bit_mask bi else d (bi div 8) AND NOT (bit_mask bi)))"

lemma block_bit_mark: "block_bit (mark bi y d) bj = (if bj = bi then y else block_bit d bj)"
proof -
  have "bj = bi \<longleftrightarrow> bj div 8 = bi div 8 \<and> bj mod 8 = bi mod 8" by (metis div_mult_mod_eq)
  then show ?thesis
    by (auto simp: block_bit_def mark_def bit_mask_def bit_or_iff bit_and_iff bit_not_iff bit_exp_iff)
qed

text \<open>The free map after the bit of block \<open>b\<close> has been set or cleared.\<close>

lemma in_use_mark:
  assumes "put_store (map_block s b) (mark (b mod 8192) y (bcontent s (map_block s b))) s s'" "b < nblk s" "x < nblk s"
  shows "in_use s' x = (if x = b then y else in_use s x)"
proof -
  have lt: "b < 2 ^ 32" "x < 2 ^ 32" using assms(2,3) nblk_less[of s] by auto
  have sb: "map_block s' x = map_block s x" using assms(1) by (simp add: map_block_def put_store_def same_rest_def)
  have c: "bcontent s' = (bcontent s)(map_block s b := mark (b mod 8192) y (bcontent s (map_block s b)))"
    using assms(1) by (simp add: put_store_def)
  have "x = b \<longleftrightarrow> x div 8192 = b div 8192 \<and> x mod 8192 = b mod 8192" by (metis div_mult_mod_eq)
  then show ?thesis
    using map_block_inj[OF lt(2,1)] by (auto simp: in_use_def sb c block_bit_mark)
qed

lemma free_bit_Some:
  assumes "free_bit d n = Some bi"
  shows "bi < n" "\<not> block_bit d bi" "\<And>bj. bj < bi \<Longrightarrow> block_bit d bj"
proof -
  obtain i where i: "i < n" "[0..<n] ! i = bi" "d (bi div 8) AND bit_mask bi = 0"
      "\<forall>j < i. d ([0..<n] ! j div 8) AND bit_mask ([0..<n] ! j) \<noteq> 0"
    using assms by (auto simp: free_bit_def find_Some_iff)
  then show "bi < n" "\<not> block_bit d bi" by (simp_all add: mask_bit block_bit_def)
  show "block_bit d bj" if "bj < bi" for bj
    using i that by (force simp: mask_bit block_bit_def)
qed

lemma free_bit_None: "free_bit d n = None \<Longrightarrow> bi < n \<Longrightarrow> block_bit d bi"
  by (auto simp: free_bit_def find_None_iff mask_bit block_bit_def)

section \<open>Allocation\<close>

definition allocated :: "int \<Rightarrow> fs \<Rightarrow> nat \<Rightarrow> fs \<Rightarrow> bool" where
  "allocated pid s b s' \<longleftrightarrow> b < nblk s \<and> \<not> in_use s b \<and> (\<forall>x < b. in_use s x) \<and> fsq pid Map.empty s' \<and> same_rest s s' \<and>
     bcontent s' = (bcontent s)(map_block s b := mark (b mod 8192) True (bcontent s (map_block s b)),
       of_nat b := zero_block (bcontent s (of_nat b))) \<and> used s' \<le> used s + 2"

definition disk_full :: "int \<Rightarrow> fs \<Rightarrow> fs \<Rightarrow> bool" where
  "disk_full pid s s' \<longleftrightarrow> (\<forall>b < nblk s. in_use s b) \<and> fsq pid Map.empty s' \<and> bcontent s' = bcontent s \<and> used s' = used s \<and>
     same_rest (s\<lparr>msgs := msgs s @ [''balloc: out of blocks'']\<rparr>) s'"

lemma same_store_view:
  assumes "same_store s s'"
  shows "nblk s' = nblk s" "map_block s' = map_block s" "in_use s' = in_use s" "map_in_use s' = map_in_use s"
proof -
  have e: "sb s' = sb s" "bcontent s' = bcontent s" using assms by (simp_all add: same_store_def same_rest_def)
  show n: "nblk s' = nblk s" and m: "map_block s' = map_block s" using e by (auto simp: nblk_def map_block_def)
  show u: "in_use s' = in_use s" using e m by (auto simp: in_use_def)
  show "map_in_use s' = map_in_use s" using n m u by (simp add: map_in_use_def)
qed

lemma allocated_same: "same_store s s1 \<Longrightarrow> allocated pid s1 b s' \<Longrightarrow> allocated pid s b s'"
  using same_store_view[of s s1] by (auto simp: allocated_def same_store_def intro: same_rest_trans)

lemma disk_full_same: "same_store s s1 \<Longrightarrow> disk_full pid s1 s' \<Longrightarrow> disk_full pid s s'"
  using same_store_view[of s s1] by (auto simp: disk_full_def same_store_def same_rest_def)

lemma bzero_ok:
  assumes "fsq (wpid c) Map.empty s" "used s < 30" "0 < log_room s"
  shows "runs (bzero c ROOTDEV b s) (\<lambda>_ s'. fsq (wpid c) Map.empty s' \<and> put_store b (zero_block (bcontent s b)) s s')"
  using bs.update[of c Map.empty s b zero_block] assms by (simp add: bzero_def logput_def)

lemma put_store_used: "put_store b d s s' \<Longrightarrow> used s' \<le> used s + 1 \<and> log_room s' \<ge> log_room s - 1"
  using log_room_put[of b d s s'] by (auto simp: put_store_def)

lemma balloc_take:
  assumes q: "fsq (wpid c) [map_block s b \<mapsto> bp] s" and b: "b < nblk s" "\<not> in_use s b" "\<forall>x < b. in_use s x"
    and m: "map_in_use s" and r: "used s + 1 < 30" "1 < log_room s"
  shows "runs (bnd (logput bp (mark (b mod 8192) True (bcontent s (map_block s b))) s) (\<lambda>_ s.
      bnd (fbrelse c bp s) (\<lambda>_ s. bnd (bzero c ROOTDEV (of_nat b) s) (\<lambda>_ s. Ret (of_nat b) s))))
    (\<lambda>x s'. x = of_nat b \<and> allocated (wpid c) s b s')"
proof -
  let ?mb = "map_block s b" and ?d = "mark (b mod 8192) True (bcontent s (map_block s b))"
  obtain s1 where 1: "logput bp ?d s = Ret () s1" "fsq (wpid c) [?mb \<mapsto> bp] s1" "put_store ?mb ?d s s1"
    using bs.logput_ok[OF q, of ?mb bp ?d] r by (auto elim!: runsE)
  have e: "([?mb \<mapsto> bp])(?mb := None) = Map.empty" by auto
  obtain s2 where 2: "fbrelse c bp s1 = Ret () s2" "fsq (wpid c) Map.empty s2" "same_store s1 s2"
    using bs.rel_ok[OF 1(2), of ?mb bp] unfolding e by (auto elim!: runsE)
  have p2: "put_store ?mb ?d s s2" by (rule put_store_same[OF 1(3) 2(3)])
  obtain s3 where 3: "bzero c ROOTDEV (of_nat b) s2 = Ret () s3" "fsq (wpid c) Map.empty s3"
      "put_store (of_nat b) (zero_block (bcontent s2 (of_nat b))) s2 s3"
    using bzero_ok[OF 2(2), of "of_nat b"] put_store_used[OF p2] r by (auto elim!: runsE)
  have "of_nat b \<noteq> ?mb" using m b(1,2) by (auto simp: map_in_use_def)
  then have "bcontent s3 = (bcontent s)(?mb := ?d, of_nat b := zero_block (bcontent s (of_nat b)))"
    using p2 3(3) by (simp add: put_store_def)
  then have "allocated (wpid c) s b s3"
    using b 3(2,3) p2 put_store_used[OF p2] put_store_used[OF 3(3)]
    by (auto simp: allocated_def put_store_def intro: same_rest_trans)
  then show ?thesis using 1(1) 2(1) 3(1) by simp
qed

lemma map_block_base:
  "map_block s (j * 8192 + bi) = map_block s (j * 8192)" "in_use s (j * 8192 + bi) = block_bit (bcontent s (map_block s (j * 8192))) bi"
  if "bi < 8192" for bi
  using that by (simp_all add: map_block_def in_use_def)

text \<open>One block of the free map: the first free block it maps, if any.\<close>

definition span_free :: "fs \<Rightarrow> nat \<Rightarrow> nat option" where
  "span_free s j = map_option (\<lambda>bi. j * 8192 + bi) (free_bit (bcontent s (map_block s (j * 8192))) (min 8192 (nblk s - j * 8192)))"

lemma span_free_Some:
  assumes "span_free s j = Some b"
  shows "b div 8192 = j" "b < nblk s" "\<not> in_use s b" "\<And>x. j * 8192 \<le> x \<Longrightarrow> x < b \<Longrightarrow> in_use s x"
proof -
  obtain bi where bi: "free_bit (bcontent s (map_block s (j * 8192))) (min 8192 (nblk s - j * 8192)) = Some bi" "b = j * 8192 + bi"
    using assms by (auto simp: span_free_def)
  note f = free_bit_Some[OF bi(1)]
  show "b div 8192 = j" "b < nblk s" using f(1) bi(2) by auto
  show "\<not> in_use s b" using f(1,2) map_block_base(2)[of bi s j] bi(2) by simp
  show "in_use s x" if "j * 8192 \<le> x" "x < b" for x
  proof -
    have "x - j * 8192 < bi" "x = j * 8192 + (x - j * 8192)" using that bi(2) by auto
    then show ?thesis using f(1,3) map_block_base(2)[of "x - j * 8192" s j] by simp
  qed
qed

lemma span_free_None:
  assumes "span_free s j = None" "j * 8192 \<le> x" "x < Suc j * 8192" "x < nblk s"
  shows "in_use s x"
proof -
  have "x - j * 8192 < min 8192 (nblk s - j * 8192)" "x = j * 8192 + (x - j * 8192)" using assms(2-4) by auto
  then show ?thesis using assms(1) free_bit_None map_block_base(2)[of "x - j * 8192" s j] by (simp add: span_free_def)
qed

lemma balloc_loop_step:
  assumes q: "fsq (wpid c) Map.empty s" and j: "j * 8192 < nblk s" and u: "used s < 30"
  obtains bp s1 s2 where "fsq (wpid c) [map_block s (j * 8192) \<mapsto> bp] s1" "same_store s s1"
      "fsq (wpid c) Map.empty s2" "same_store s s2"
      "balloc_loop (j * 8192 # bs) c ROOTDEV s =
        (case span_free s j of
           Some b \<Rightarrow> bnd (logput bp (mark (b mod 8192) True (bcontent s (map_block s b))) s1) (\<lambda>_ s.
             bnd (fbrelse c bp s) (\<lambda>_ s. bnd (bzero c ROOTDEV (of_nat b) s) (\<lambda>_ s. Ret (of_nat b) s)))
         | None \<Rightarrow> balloc_loop bs c ROOTDEV s2)"
proof -
  let ?mb = "map_block s (j * 8192)"
  have B: "BBLOCK (of_nat (j * 8192)) (sb s) = ?mb" by (rule BBLOCK_map_block) (use j nblk_less[of s] in linarith)
  have u0: "used s + int (card (dom Map.empty)) < 30" using u by simp
  obtain bp s1 s2 where 1: "fbread c ROOTDEV ?mb s = Ret bp s1" "fsq (wpid c) [?mb \<mapsto> bp] s1" "same_store s s1"
      "bp_data s1 bp = bcontent s ?mb" "fbrelse c bp s1 = Ret () s2" "fsq (wpid c) Map.empty s2" "same_store s s2"
    by (rule bs.rd_rel[OF q _ u0]) simp_all
  have n: "unat (sb_size (sb s1)) = nblk s" using 1(3) by (simp add: nblk_def same_store_def same_rest_def)
  have "balloc_loop (j * 8192 # bs) c ROOTDEV s =
        (case span_free s j of
           Some b \<Rightarrow> bnd (logput bp (mark (b mod 8192) True (bcontent s (map_block s b))) s1) (\<lambda>_ s.
             bnd (fbrelse c bp s) (\<lambda>_ s. bnd (bzero c ROOTDEV (of_nat b) s) (\<lambda>_ s. Ret (of_nat b) s)))
         | None \<Rightarrow> balloc_loop bs c ROOTDEV s2)"
  proof (cases "free_bit (bcontent s ?mb) (min 8192 (nblk s - j * 8192))")
    case None
    then show ?thesis using 1(1,4,5) n B by (simp add: span_free_def)
  next
    case (Some bi)
    then have "bi < 8192" using free_bit_Some(1) by fastforce
    then show ?thesis using 1(1,4) n B Some map_block_base(1)[of bi s j] by (simp add: span_free_def logput_def mark_def Let_def)
  qed
  then show thesis using that 1 by blast
qed

lemma balloc_loop_ok:
  assumes "fsq (wpid c) Map.empty s" "map_in_use s" "used s + 1 < 30" "1 < log_room s" "\<forall>x < j * 8192. x < nblk s \<longrightarrow> in_use s x"
    and "j \<le> K" "K = (nblk s + 8191) div 8192"
  shows "runs (balloc_loop (map (\<lambda>k. k * 8192) [j..<K]) c ROOTDEV s)
    (\<lambda>r s'. (\<exists>b. r = of_nat b \<and> allocated (wpid c) s b s') \<or> r = 0 \<and> disk_full (wpid c) s s')"
  using assms
proof (induction "K - j" arbitrary: j s)
  case 0
  then have "\<forall>b < nblk s. in_use s b" by auto
  then show ?case using 0 by (auto simp: disk_full_def fsq_def fview_def lset_def bcontent_def used_def)
next
  case (Suc n)
  then have j: "j < K" "[j..<K] = j # [Suc j..<K]" by (simp_all add: upt_conv_Cons)
  have base: "j * 8192 < nblk s" using j(1) Suc.prems(7) by linarith
  have u: "used s < 30" using Suc.prems(3) by simp
  obtain bp s1 s2 where 1: "fsq (wpid c) [map_block s (j * 8192) \<mapsto> bp] s1" "same_store s s1"
      "fsq (wpid c) Map.empty s2" "same_store s s2" and
    e: "balloc_loop (map (\<lambda>k. k * 8192) [j..<K]) c ROOTDEV s =
        (case span_free s j of
           Some b \<Rightarrow> bnd (logput bp (mark (b mod 8192) True (bcontent s (map_block s b))) s1) (\<lambda>_ s.
             bnd (fbrelse c bp s) (\<lambda>_ s. bnd (bzero c ROOTDEV (of_nat b) s) (\<lambda>_ s. Ret (of_nat b) s)))
         | None \<Rightarrow> balloc_loop (map (\<lambda>k. k * 8192) [Suc j..<K]) c ROOTDEV s2)"
    using balloc_loop_step[OF Suc.prems(1) base u, of "map (\<lambda>k. k * 8192) [Suc j..<K]" thesis] j(2) by auto
  have c1: "bcontent s1 = bcontent s" "used s1 = used s" "log_room s1 = log_room s"
    "used s2 = used s" "log_room s2 = log_room s"
    using 1(2,4) log_room_same by (auto simp: same_store_def)
  note v1 = same_store_view[OF 1(2)] and v2 = same_store_view[OF 1(4)]
  show ?case
  proof (cases "span_free s j")
    case None
    have "\<forall>x < Suc j * 8192. x < nblk s \<longrightarrow> in_use s x"
      using span_free_None[OF None] Suc.prems(5) by (meson not_less)
    then have "runs (balloc_loop (map (\<lambda>k. k * 8192) [Suc j..<K]) c ROOTDEV s2)
        (\<lambda>r s'. (\<exists>b. r = of_nat b \<and> allocated (wpid c) s2 b s') \<or> r = 0 \<and> disk_full (wpid c) s2 s')"
      using Suc.hyps(2) Suc.prems 1(3) v2 c1 j(1) by (intro Suc.hyps(1)) simp_all
    then show ?thesis
      unfolding e None option.case by (rule runs_mono) (use allocated_same[OF 1(4)] disk_full_same[OF 1(4)] in blast)
  next
    case (Some b)
    note f = span_free_Some[OF Some]
    have used1: "\<forall>x < b. in_use s1 x" using f(2,4) Suc.prems(5) v1(3) by (metis not_less order.strict_trans)
    have mb: "map_block s1 b = map_block s (j * 8192)" using f(1) v1(2) by (simp add: map_block_def)
    have "runs (bnd (logput bp (mark (b mod 8192) True (bcontent s1 (map_block s1 b))) s1) (\<lambda>_ s.
        bnd (fbrelse c bp s) (\<lambda>_ s. bnd (bzero c ROOTDEV (of_nat b) s) (\<lambda>_ s. Ret (of_nat b) s))))
      (\<lambda>x s'. x = of_nat b \<and> allocated (wpid c) s1 b s')"
      by (rule balloc_take) (use 1(1) mb f(2,3) used1 v1 c1 Suc.prems(2-4) in simp_all)
    then show ?thesis
      unfolding e Some option.case c1(1) v1(2) by (rule runs_mono) (use allocated_same[OF 1(2)] in blast)
  qed
qed

lemma allocated_in_use_set:
  assumes "allocated pid s b s'" "map_in_use s"
  shows "in_use_set s' = insert b (in_use_set s)"
proof -
  have b: "b < nblk s" "\<not> in_use s b" using assms(1) by (auto simp: allocated_def)
  have e: "sb s' = sb s" using assms(1) by (simp add: allocated_def same_rest_def)
  have n: "nblk s' = nblk s" "map_block s' = map_block s" using e by (auto simp: nblk_def map_block_def)
  have lt: "b < 2 ^ 32" using b(1) nblk_less[of s] by linarith
  have "in_use s' x = (x = b \<or> in_use s x)" if x: "x < nblk s" for x
  proof -
    have x32: "x < 2 ^ 32" using x nblk_less[of s] by linarith
    have "map_block s x \<noteq> of_nat b" using assms(2) b x by (auto simp: map_in_use_def)
    then have "bcontent s' (map_block s x) =
        (if map_block s x = map_block s b then mark (b mod 8192) True (bcontent s (map_block s b)) else bcontent s (map_block s x))"
      using assms(1) by (simp add: allocated_def)
    moreover have "x = b \<longleftrightarrow> x div 8192 = b div 8192 \<and> x mod 8192 = b mod 8192" by (metis div_mult_mod_eq)
    ultimately show ?thesis using map_block_inj[OF x32 lt] by (auto simp: in_use_def n block_bit_mark)
  qed
  then show ?thesis using b(1) by (auto simp: in_use_set_def n)
qed

text \<open>
  (C29) Inside a transaction with room for two more blocks, \<^verbatim>\<open>balloc\<close> takes the lowest block that the free map says is free: the set of
  blocks in use grows by exactly that block, its content is zeros, and no other block changes but the one of the free map that holds
  its bit.  When every block is in use it returns 0, says so on the console and changes no block.
\<close>

theorem balloc_takes_lowest:
  assumes "fsq (wpid c) Map.empty s" "map_in_use s" "used s + 1 < 30" "1 < log_room s"
  shows "runs (balloc c ROOTDEV s) (\<lambda>r s'. fsq (wpid c) Map.empty s' \<and>
    (if in_use_set s = {..<nblk s} then r = 0 \<and> bcontent s' = bcontent s \<and> msgs s' = msgs s @ [''balloc: out of blocks'']
     else \<exists>b < nblk s. r = of_nat b \<and> b \<notin> in_use_set s \<and> (\<forall>x < b. x \<in> in_use_set s) \<and>
       in_use_set s' = insert b (in_use_set s) \<and> (\<forall>i < BSIZE. bcontent s' (of_nat b) i = 0) \<and>
       (\<forall>x. x \<noteq> of_nat b \<longrightarrow> x \<noteq> map_block s b \<longrightarrow> bcontent s' x = bcontent s x) \<and> same_rest s s'))"
proof -
  have all: "in_use_set s = {..<nblk s} \<longleftrightarrow> (\<forall>b < nblk s. in_use s b)" by (auto simp: in_use_set_def)
  have "runs (balloc c ROOTDEV s) (\<lambda>r s'. (\<exists>b. r = of_nat b \<and> allocated (wpid c) s b s') \<or> r = 0 \<and> disk_full (wpid c) s s')"
    using balloc_loop_ok[OF assms, of 0] by (simp add: balloc_def nblk_def)
  then show ?thesis
  proof (rule runs_mono, elim disjE exE conjE, goal_cases)
    case (1 r s' b)
    then have al: "r = of_nat b" "allocated (wpid c) s b s'" by simp_all
    then have a: "b < nblk s" "\<not> in_use s b" "\<forall>x < b. in_use s x" "fsq (wpid c) Map.empty s'" "same_rest s s'"
        "bcontent s' = (bcontent s)(map_block s b := mark (b mod 8192) True (bcontent s (map_block s b)),
          of_nat b := zero_block (bcontent s (of_nat b)))"
      by (simp_all add: allocated_def)
    then have "in_use_set s \<noteq> {..<nblk s}" "b \<notin> in_use_set s" "\<forall>x < b. x \<in> in_use_set s"
      by (auto simp: all) (auto simp: in_use_set_def)
    moreover have "\<forall>i < BSIZE. bcontent s' (of_nat b) i = 0" "\<forall>x. x \<noteq> of_nat b \<longrightarrow> x \<noteq> map_block s b \<longrightarrow> bcontent s' x = bcontent s x"
      by (simp_all add: a(6) zero_block_def)
    ultimately show ?case using al(1) a(1,4,5) allocated_in_use_set[OF al(2) assms(2)] by (simp (no_asm_simp)) blast
  next
    case (2 r s')
    then show ?case by (simp add: all disk_full_def same_rest_def)
  qed
qed

text \<open>A disk of 2000 blocks of which the first 46, up to the free map, are in use.\<close>

definition demo_map :: block where
  "demo_map i = (if i < 5 then 255 else if i = 5 then 63 else 0)"

definition demo_adisk :: "u32 \<Rightarrow> block" where
  "demo_adisk b = (if b = 45 then demo_map else (\<lambda>_. 9))"

lemma demo_map_block: "x < 2000 \<Longrightarrow> map_block (boot_fs demo_adisk) x = 45"
  by (simp add: map_block_def boot_fs_store demo_sb_def)

lemma demo_nblk: "nblk (boot_fs demo_adisk) = 2000"
  by (simp add: nblk_def boot_fs_store demo_sb_def)

lemma demo_45_in_use: "in_use (boot_fs demo_adisk) 45"
  by (simp add: in_use_def demo_map_block boot_fs_store demo_adisk_def block_bit_def demo_map_def bit_iff_odd)

lemma demo_map_in_use: "map_in_use (boot_fs demo_adisk)"
  unfolding map_in_use_def demo_nblk
proof (intro allI impI)
  fix b x :: nat assume b: "b < 2000" "x < 2000" "of_nat b = map_block (boot_fs demo_adisk) x"
  have "unat (of_nat b :: u32) = b" using b(1) by (intro unat_of_nat_u32) simp
  then have "b = 45" unfolding b(3) demo_map_block[OF b(2)] by simp
  then show "in_use (boot_fs demo_adisk) b" using demo_45_in_use by simp
qed

lemma demo_46_free: "\<not> in_use (boot_fs demo_adisk) 46"
  by (simp add: in_use_def demo_map_block boot_fs_store demo_adisk_def block_bit_def demo_map_def bit_iff_odd)

theorem balloc_takes_lowest_witness:
  "runs (balloc \<lparr>wpid = 3, wpt = 0\<rparr> ROOTDEV (boot_fs demo_adisk)) (\<lambda>r s'. \<exists>b. r = of_nat b \<and> b \<notin> in_use_set (boot_fs demo_adisk) \<and>
     in_use_set s' = insert b (in_use_set (boot_fs demo_adisk)))"
proof -
  have "46 \<notin> in_use_set (boot_fs demo_adisk)" using demo_46_free by (simp add: in_use_set_def)
  moreover have "46 \<in> {..<nblk (boot_fs demo_adisk)}" unfolding demo_nblk lessThan_iff by simp
  ultimately have free: "in_use_set (boot_fs demo_adisk) \<noteq> {..<nblk (boot_fs demo_adisk)}" by metis
  have c: "wpid \<lparr>wpid = 3, wpt = 0\<rparr> = 3" by simp
  have r: "used (boot_fs demo_adisk) + 1 < 30" "1 < log_room (boot_fs demo_adisk)" by (simp_all add: boot_fs_store)
  show ?thesis
    by (rule runs_mono[OF balloc_takes_lowest[of "\<lparr>wpid = 3, wpt = 0\<rparr>" "boot_fs demo_adisk", OF _ demo_map_in_use r, unfolded c if_not_P[OF free]]])
       (rule boot_fs_store, blast)
qed

section \<open>Release\<close>

text \<open>
  (C30) \<^verbatim>\<open>bfree\<close> of a block that is in use removes exactly that block from the set of blocks in use and changes no block but the one
  of the free map that holds its bit; freeing a block that is free is the panic.
\<close>

theorem bfree_frees:
  assumes q: "fsq (wpid c) Map.empty s" and r: "used s < 30" "0 < log_room s" and b: "b < nblk s"
  shows "if b \<in> in_use_set s
    then runs (bfree c ROOTDEV (of_nat b) s) (\<lambda>_ s'. fsq (wpid c) Map.empty s' \<and> in_use_set s' = in_use_set s - {b} \<and>
      (\<forall>x. x \<noteq> map_block s b \<longrightarrow> bcontent s' x = bcontent s x) \<and> same_rest s s')
    else bfree c ROOTDEV (of_nat b) s = Panic ''freeing free block''"
proof -
  let ?mb = "map_block s b"
  have lt: "b < 2 ^ 32" using b nblk_less[of s] by linarith
  have u0: "used s + int (card (dom Map.empty)) < 30" using r by simp
  obtain bp s1 s2 where 1: "fbread c ROOTDEV ?mb s = Ret bp s1" "fsq (wpid c) [?mb \<mapsto> bp] s1" "same_store s s1"
      "bp_data s1 bp = bcontent s ?mb" "fbrelse c bp s1 = Ret () s2" "fsq (wpid c) Map.empty s2" "same_store s s2"
    by (rule bs.rd_rel[OF q _ u0]) simp_all
  have u: "unat (of_nat b :: u32) = b" by (rule unat_of_nat_u32[OF lt])
  let ?d = "mark (b mod 8192) False (bcontent s ?mb)"
  have e: "bfree c ROOTDEV (of_nat b) s = (if in_use s b then bnd (logput bp ?d s1) (\<lambda>_ s. fbrelse c bp s) else Panic ''freeing free block'')"
    using 1(1,4) by (simp add: bfree_def BBLOCK_map_block[OF lt] u Let_def mask_bit in_use_def block_bit_def mark_def logput_def)
  obtain s3 where 3: "logput bp ?d s1 = Ret () s3" "fsq (wpid c) [?mb \<mapsto> bp] s3" "put_store ?mb ?d s1 s3"
    using bs.logput_ok[OF 1(2), of ?mb bp ?d] r(2) log_room_same[OF 1(3)] by (auto elim!: runsE)
  have H: "([?mb \<mapsto> bp])(?mb := None) = Map.empty" by auto
  obtain s4 where 4: "fbrelse c bp s3 = Ret () s4" "fsq (wpid c) Map.empty s4" "same_store s3 s4"
    using bs.rel_ok[OF 3(2), of ?mb bp] unfolding H by (auto elim!: runsE)
  have p: "put_store ?mb ?d s s4" by (rule put_store_same[OF same_store_put[OF 1(3) 3(3)] 4(3)])
  have n: "nblk s4 = nblk s" using p by (simp add: put_store_def same_rest_def nblk_def)
  have "in_use_set s4 = in_use_set s - {b}" using in_use_mark[OF p b] by (auto simp: in_use_set_def n split: if_splits)
  then show ?thesis using e 3(1) 4(1,2) p b by (auto simp: in_use_set_def put_store_def)
qed

theorem bfree_frees_witness:
  "runs (bfree \<lparr>wpid = 3, wpt = 0\<rparr> ROOTDEV (of_nat 45) (boot_fs demo_adisk)) (\<lambda>_ s'. 45 \<notin> in_use_set s') \<and>
   bfree \<lparr>wpid = 3, wpt = 0\<rparr> ROOTDEV (of_nat 46) (boot_fs demo_adisk) = Panic ''freeing free block''"
proof -
  note f = bfree_frees[of "\<lparr>wpid = 3, wpt = 0\<rparr>" "boot_fs demo_adisk", unfolded demo_nblk boot_fs_store]
  have "45 \<in> in_use_set (boot_fs demo_adisk)" "46 \<notin> in_use_set (boot_fs demo_adisk)"
    using demo_45_in_use demo_46_free by (simp_all add: in_use_set_def demo_nblk)
  then show ?thesis using f[of 45] f[of 46] boot_fs_store(1) by (auto elim!: runs_mono)
qed

end
