(* ===== verification/Mkfs.thy ===== *)
theory Mkfs
  imports Fs_Alloc
begin

text \<open>
  The program that builds the disk image, \<^verbatim>\<open>mkfs/mkfs.c\<close>. It runs on the host: \<open>creat\<close> tells whether the image file can be created and
  \<open>host\<close> gives, for a path that can be opened, the pieces that successive calls of \<^verbatim>\<open>read\<close> return. The image is an array of \<open>nsect\<close>
  blocks, so a read past its end fails as on the host; other input and output errors of the host do not occur. A failed assertion
  and \<^verbatim>\<open>die\<close> end the program, \<open>Panic\<close> here. The host is little endian.
\<close>

section \<open>State\<close>

record mkfs =
  img :: "u32 \<Rightarrow> block"
  nsect :: nat
  freeinode :: u32
  freeblock :: u32

record dinode =
  d_type :: u16
  d_major :: u16
  d_minor :: u16
  d_nlink :: u16
  d_size :: u32
  d_addrs :: "nat \<Rightarrow> u32"

abbreviation (input) FSSIZE :: nat where "FSSIZE \<equiv> 2000"
abbreviation (input) NINODES :: nat where "NINODES \<equiv> 200"
abbreviation (input) LOGSIZE :: nat where "LOGSIZE \<equiv> 30"
abbreviation (input) MAXFILE :: nat where "MAXFILE \<equiv> 268"

definition nbitmap :: nat where "nbitmap = FSSIZE div BPB + 1"

definition ninodeblocks :: nat where "ninodeblocks = NINODES div IPB + 1"

definition nmeta :: nat where "nmeta = 2 + LOGSIZE + ninodeblocks + nbitmap"

definition xshort :: "u16 \<Rightarrow> u16" where
  "xshort x = le16 (byte 0 x) (byte 1 x)"

definition xint :: "u32 \<Rightarrow> u32" where
  "xint x = le32 (byte 0 x) (byte 1 x) (byte 2 x) (byte 3 x)"

definition mkfs_sb :: superblock where
  "mkfs_sb = \<lparr>magic = FSMAGIC, sb_size = xint (of_nat FSSIZE), nblocks = xint (of_nat (FSSIZE - nmeta)),
     ninodes = xint (of_nat NINODES), nlog = xint (of_nat LOGSIZE), logstart = xint 2, inodestart = xint (of_nat (2 + LOGSIZE)),
     bmapstart = xint (of_nat (2 + LOGSIZE + ninodeblocks))\<rparr>"

section \<open>Sectors and inodes\<close>

text \<open>The offset of a sector is computed in 32 bits.\<close>

definition sector :: "u32 \<Rightarrow> u32" where
  "sector sec = sec * 1024 div 1024"

definition wsect :: "u32 \<Rightarrow> block \<Rightarrow> mkfs \<Rightarrow> (unit, mkfs) res" where
  "wsect sec buf s = Ret () (s\<lparr>img := (img s)(sector sec := buf), nsect := max (nsect s) (unat (sector sec) + 1)\<rparr>)"

definition rsect :: "u32 \<Rightarrow> mkfs \<Rightarrow> (block, mkfs) res" where
  "rsect sec s = (if unat (sector sec) < nsect s then Ret (img s (sector sec)) s else Panic ''read'')"

text \<open>The bytes of an on-disk inode, in the layout the kernel reads.\<close>

definition dinode_load :: "block \<Rightarrow> nat \<Rightarrow> dinode" where
  "dinode_load buf off = \<lparr>d_type = ld16 buf off, d_major = ld16 buf (off + 2), d_minor = ld16 buf (off + 4), d_nlink = ld16 buf (off + 6),
     d_size = ld32 buf (off + 8), d_addrs = (\<lambda>k. if k \<le> NDIRECT then ld32 buf (off + 12 + 4 * k) else 0)\<rparr>"

definition dinode_store :: "dinode \<Rightarrow> nat \<Rightarrow> block \<Rightarrow> block" where
  "dinode_store din off buf =
     put_addrs (NDIRECT + 1) (off + 12) (d_addrs din)
       (st32 (st16 (st16 (st16 (st16 buf off (d_type din)) (off + 2) (d_major din)) (off + 4) (d_minor din)) (off + 6) (d_nlink din))
         (off + 8) (d_size din))"

definition winode :: "u32 \<Rightarrow> dinode \<Rightarrow> mkfs \<Rightarrow> (unit, mkfs) res" where
  "winode inum din s =
     (let bn = IBLOCK inum mkfs_sb in
      bnd (rsect bn s) (\<lambda>buf s. wsect bn (dinode_store din (dinode_off inum) buf) s))"

definition rinode :: "u32 \<Rightarrow> mkfs \<Rightarrow> (dinode, mkfs) res" where
  "rinode inum s = bnd (rsect (IBLOCK inum mkfs_sb) s) (\<lambda>buf s. Ret (dinode_load buf (dinode_off inum)) s)"

definition mk_ialloc :: "u16 \<Rightarrow> mkfs \<Rightarrow> (u32, mkfs) res" where
  "mk_ialloc type s =
     (let inum = freeinode s; s = s\<lparr>freeinode := freeinode s + 1\<rparr> in
      bnd (winode inum \<lparr>d_type = xshort type, d_major = 0, d_minor = 0, d_nlink = xshort 1, d_size = xint 0, d_addrs = (\<lambda>_. 0)\<rparr> s)
        (\<lambda>_ s. Ret inum s))"

primrec set_bits :: "nat list \<Rightarrow> block \<Rightarrow> block" where
  "set_bits [] buf = buf"
| "set_bits (i # is) buf = set_bits is (buf(i div 8 := buf (i div 8) OR bit_mask i))"

definition mk_balloc :: "u32 \<Rightarrow> mkfs \<Rightarrow> (unit, mkfs) res" where
  "mk_balloc n s =
     (if sint n < int BPB then wsect (bmapstart mkfs_sb) (set_bits [0..<nat (sint n)] (\<lambda>_. 0)) s
      else Panic ''Assertion used < BPB failed'')"

section \<open>Appending\<close>

text \<open>The next free block, stored as address \<open>k\<close> of the inode if it has none.\<close>

definition new_addr :: "nat \<Rightarrow> dinode \<Rightarrow> mkfs \<Rightarrow> dinode \<times> mkfs" where
  "new_addr k din s =
     (if xint (d_addrs din k) = 0 then
        (din\<lparr>d_addrs := (d_addrs din)(k := xint (freeblock s))\<rparr>, s\<lparr>freeblock := freeblock s + 1\<rparr>)
      else (din, s))"

definition iappend_block :: "nat \<Rightarrow> dinode \<Rightarrow> mkfs \<Rightarrow> (u32 \<times> dinode, mkfs) res" where
  "iappend_block fbn din s =
     (if fbn < NDIRECT then let (din, s) = new_addr fbn din s in Ret (xint (d_addrs din fbn), din) s
      else
        let (din, s) = new_addr NDIRECT din s; i = 4 * (fbn - NDIRECT) in
        bnd (rsect (xint (d_addrs din NDIRECT)) s) (\<lambda>indirect s.
          if ld32 indirect i = 0 then
            let indirect = st32 indirect i (xint (freeblock s)); s = s\<lparr>freeblock := freeblock s + 1\<rparr> in
            bnd (wsect (xint (d_addrs din NDIRECT)) indirect s) (\<lambda>_ s. Ret (xint (ld32 indirect i), din) s)
          else Ret (xint (ld32 indirect i), din) s))"

definition room :: "u32 \<Rightarrow> nat" where
  "room off = unat ((off div 1024 + 1) * 1024 - off)"

lemma room_eq: "room off = 1024 - unat off mod 1024"
proof -
  have "(off div 1024 + 1) * 1024 = (off div 1024 * 1024 + off mod 1024) + 1024 - off mod 1024" by (simp add: algebra_simps)
  also have "\<dots> = off + 1024 - off mod 1024" by (simp only: div_mult_mod_eq)
  finally have "(off div 1024 + 1) * 1024 = off + 1024 - off mod 1024" .
  then have e: "(off div 1024 + 1) * 1024 - off = 1024 - off mod 1024" by (simp only:) (simp add: algebra_simps del: word_mod_less_divisor)
  have "unat (1024 - off mod 1024) = 1024 - unat (off mod 1024)"
    by (subst unat_sub) (simp_all add: word_le_nat_alt unat_mod)
  then show ?thesis unfolding room_def e by (simp add: unat_mod)
qed

function iappend_loop :: "u8 list \<Rightarrow> dinode \<Rightarrow> u32 \<Rightarrow> mkfs \<Rightarrow> (dinode \<times> u32, mkfs) res" where
  "iappend_loop p din off s =
     (if p = [] then Ret (din, off) s
      else
        let fbn = off div 1024 in
        if unat fbn < MAXFILE then
          bnd (iappend_block (unat fbn) din s) (\<lambda>(x, din) s.
          let n1 = min (length p) (room off) in
          bnd (rsect x s) (\<lambda>buf s.
          bnd (wsect x (\<lambda>i. let a = unat (off - fbn * 1024) in if a \<le> i \<and> i < a + n1 then p ! (i - a) else buf i) s) (\<lambda>_ s.
          iappend_loop (drop n1 p) din (off + of_nat n1) s)))
        else Panic ''Assertion fbn < MAXFILE failed'')"
  by pat_completeness auto
termination iappend_loop
  by (relation "measure (\<lambda>(p, din, off, s). length p)") (auto simp: room_eq)

declare iappend_loop.simps [simp del]

definition iappend :: "u32 \<Rightarrow> u8 list \<Rightarrow> mkfs \<Rightarrow> (unit, mkfs) res" where
  "iappend inum p s =
     bnd (rinode inum s) (\<lambda>din s.
     bnd (iappend_loop p din (xint (d_size din)) s) (\<lambda>(din, off) s.
     winode inum (din\<lparr>d_size := xint off\<rparr>) s))"

section \<open>The program\<close>

definition de_bytes :: "u32 \<Rightarrow> u8 list \<Rightarrow> u8 list" where
  "de_bytes inum name =
     [byte 0 (xshort (ucast inum)), byte 1 (xshort (ucast inum))] @ take DIRSIZ (name @ replicate DIRSIZ 0)"

primrec wzero :: "nat list \<Rightarrow> mkfs \<Rightarrow> (unit, mkfs) res" where
  "wzero [] s = Ret () s"
| "wzero (i # is) s = bnd (wsect (of_nat i) (\<lambda>_. 0) s) (\<lambda>_ s. wzero is s)"

definition sb_block :: "superblock \<Rightarrow> block" where
  "sb_block x = st32 (st32 (st32 (st32 (st32 (st32 (st32 (st32 (\<lambda>_. 0) 0 (magic x)) 4 (sb_size x)) 8 (nblocks x)) 12 (ninodes x))
     16 (nlog x)) 20 (logstart x)) 24 (inodestart x)) 28 (bmapstart x)"

primrec copy_file :: "u8 list list \<Rightarrow> u32 \<Rightarrow> mkfs \<Rightarrow> (unit, mkfs) res" where
  "copy_file [] inum s = Ret () s"
| "copy_file (b # bs) inum s = bnd (iappend inum b s) (\<lambda>_ s. copy_file bs inum s)"

definition user_dir :: "u8 list" where
  "user_dir = [117, 115, 101, 114, 47]"

definition add_file :: "(u8 list \<Rightarrow> u8 list list option) \<Rightarrow> u32 \<Rightarrow> u8 list \<Rightarrow> mkfs \<Rightarrow> (unit, mkfs) res" where
  "add_file host rootino arg s =
     (let shortname = (if take 5 arg = user_dir then drop 5 arg else arg) in
      if 47 \<in> set shortname then Panic ''Assertion index(shortname) == 0 failed''
      else case host arg of
        None \<Rightarrow> Panic ''open''
      | Some pieces \<Rightarrow>
          let shortname = (if take 1 shortname = [95] then drop 1 shortname else shortname) in
          if length shortname \<le> DIRSIZ then
            bnd (mk_ialloc T_FILE s) (\<lambda>inum s.
            bnd (iappend rootino (de_bytes inum shortname) s) (\<lambda>_ s.
            copy_file pieces inum s))
          else Panic ''Assertion strlen(shortname) <= DIRSIZ failed'')"

primrec add_files :: "(u8 list \<Rightarrow> u8 list list option) \<Rightarrow> u32 \<Rightarrow> u8 list list \<Rightarrow> mkfs \<Rightarrow> (unit, mkfs) res" where
  "add_files host rootino [] s = Ret () s"
| "add_files host rootino (a # as) s = bnd (add_file host rootino a s) (\<lambda>_ s. add_files host rootino as s)"

text \<open>The last step: the size of the root directory is rounded up to the next block.\<close>

definition fix_root :: "u32 \<Rightarrow> mkfs \<Rightarrow> (unit, mkfs) res" where
  "fix_root rootino s =
     bnd (rinode rootino s) (\<lambda>din s.
     let off = (xint (d_size din) div 1024 + 1) * 1024 in
     bnd (winode rootino (din\<lparr>d_size := xint off\<rparr>) s) (\<lambda>_ s. mk_balloc (freeblock s) s))"

definition mkfs_main :: "(u8 list \<Rightarrow> bool) \<Rightarrow> (u8 list \<Rightarrow> u8 list list option) \<Rightarrow> u8 list list \<Rightarrow> (unit, mkfs) res" where
  "mkfs_main creat host argv =
     (case argv of
        [] \<Rightarrow> Panic ''Usage: mkfs fs.img files...''
      | fsimg # files \<Rightarrow>
          if \<not> creat fsimg then Panic ''open''
          else
            bnd (wzero [0..<FSSIZE] \<lparr>img = (\<lambda>_ _. 0), nsect = 0, freeinode = 1, freeblock = of_nat nmeta\<rparr>) (\<lambda>_ s.
            bnd (wsect 1 (sb_block mkfs_sb) s) (\<lambda>_ s.
            bnd (mk_ialloc T_DIR s) (\<lambda>rootino s.
            if rootino \<noteq> ROOTINO then Panic ''Assertion rootino == ROOTINO failed''
            else
              bnd (iappend rootino (de_bytes rootino [46]) s) (\<lambda>_ s.
              bnd (iappend rootino (de_bytes rootino [46, 46]) s) (\<lambda>_ s.
              bnd (add_files host rootino files s) (\<lambda>_ s.
              fix_root rootino s)))))))"

end
