(* ===== verification/Mkfs_Sound.thy ===== *)
theory Mkfs_Sound
  imports Mkfs
begin

text \<open>
  The image that \<^verbatim>\<open>mkfs\<close> builds is a consistent file system: no block is referenced twice, the references stay in the data area, and the free map
  marks exactly the blocks handed out, so that the kernel's allocator continues where \<^verbatim>\<open>mkfs\<close> stopped.
\<close>

section \<open>Layout\<close>

lemma xint_id [simp]: "xint x = x"
  using le32_bytes[of x] by (simp add: xint_def)

lemma xshort_id [simp]: "xshort x = x"
  using le16_bytes[of x] by (simp add: xshort_def)

lemma mkfs_sb_parts [simp]: "inodestart mkfs_sb = 32" "bmapstart mkfs_sb = 45" "sb_size mkfs_sb = 2000" "magic mkfs_sb = FSMAGIC"
  by (simp_all add: mkfs_sb_def ninodeblocks_def)

lemma nmeta_eq: "nmeta = 46"
  by (simp add: nmeta_def ninodeblocks_def nbitmap_def)

lemma sector_small: "unat sec < 2 ^ 22 \<Longrightarrow> sector sec = sec"
proof -
  assume a: "unat sec < 2 ^ 22"
  have "unat (sec * 1024) = unat sec * 1024"
    using a by (simp add: unat_word_ariths)
  then have "unat (sector sec) = unat sec" by (simp add: sector_def unat_div)
  then show ?thesis by (simp add: word_unat_eq_iff)
qed

lemma sector_data: "unat sec < 2000 \<Longrightarrow> sector sec = sec"
  by (rule sector_small) simp

text \<open>The block and the offset of inode \<open>i\<close>.\<close>

definition ib :: "nat \<Rightarrow> u32" where
  "ib i = IBLOCK (of_nat i) mkfs_sb"

lemma ib_unat: "i < 208 \<Longrightarrow> unat (ib i) = 32 + i div 16"
proof -
  assume i: "i < 208"
  have "unat ((of_nat i :: u32) div 16) = i div 16" using i by (simp add: unat_div unat_of_nat_u32)
  moreover have "i div 16 < 13" using i by simp
  ultimately show ?thesis by (simp add: ib_def IBLOCK_def unat_word_ariths)
qed

lemma ib_range: "i < 208 \<Longrightarrow> 32 \<le> unat (ib i)" "i < 208 \<Longrightarrow> unat (ib i) < 45"
  by (simp_all add: ib_unat)

lemma ib_eq: "i < 208 \<Longrightarrow> j < 208 \<Longrightarrow> ib i = ib j \<longleftrightarrow> i div 16 = j div 16"
  by (simp add: word_unat_eq_iff ib_unat)

lemma dinode_off_nat: "i < 208 \<Longrightarrow> dinode_off (of_nat i) = 64 * (i mod 16)"
  by (simp add: dinode_off_def unat_of_nat_u32)

section \<open>References\<close>

definition disk_addrs :: "mkfs \<Rightarrow> nat \<Rightarrow> nat \<Rightarrow> u32" where
  "disk_addrs s i = d_addrs (dinode_load (img s (ib i)) (64 * (i mod 16)))"

text \<open>
  The block that position \<open>p\<close> of inode \<open>i\<close> refers to, 0 for none: positions up to 12 are the addresses \<open>D i\<close> of the inode, the others are
  the entries of its indirect block.
\<close>

definition addr :: "(nat \<Rightarrow> nat \<Rightarrow> u32) \<Rightarrow> (u32 \<Rightarrow> block) \<Rightarrow> nat \<Rightarrow> nat \<Rightarrow> u32" where
  "addr D m i p = (if p \<le> 12 then D i p else if D i 12 = 0 then 0 else ld32 (m (D i 12)) (4 * (p - 13)))"

definition ok_refs :: "(nat \<Rightarrow> nat \<Rightarrow> u32) \<Rightarrow> nat \<Rightarrow> bool" where
  "ok_refs A n \<longleftrightarrow>
     (\<forall>i < 208. \<forall>p < 269. A i p \<noteq> 0 \<longrightarrow> 46 \<le> unat (A i p) \<and> unat (A i p) < n) \<and>
     (\<forall>i < 208. \<forall>p < 269. \<forall>j < 208. \<forall>q < 269. A i p \<noteq> 0 \<longrightarrow> A i p = A j q \<longrightarrow> i = j \<and> p = q)"

lemma ok_refsD:
  assumes "ok_refs A n" "i < 208" "p < 269" "A i p \<noteq> 0"
  shows "46 \<le> unat (A i p)" "unat (A i p) < n" "j < 208 \<Longrightarrow> q < 269 \<Longrightarrow> A i p = A j q \<Longrightarrow> i = j \<and> p = q"
  using assms unfolding ok_refs_def by blast+

lemma ok_refsI:
  assumes "\<And>i p. i < 208 \<Longrightarrow> p < 269 \<Longrightarrow> A i p \<noteq> 0 \<Longrightarrow> 46 \<le> unat (A i p) \<and> unat (A i p) < n"
    and "\<And>i p j q. i < 208 \<Longrightarrow> p < 269 \<Longrightarrow> j < 208 \<Longrightarrow> q < 269 \<Longrightarrow> A i p \<noteq> 0 \<Longrightarrow> A i p = A j q \<Longrightarrow> i = j \<and> p = q"
  shows "ok_refs A n"
  using assms unfolding ok_refs_def by blast

text \<open>Forgetting references, and adding one to the first block not handed out.\<close>

lemma ok_refs_less:
  assumes "ok_refs A n" "\<And>i p. i < 208 \<Longrightarrow> p < 269 \<Longrightarrow> B i p = A i p \<or> B i p = 0"
  shows "ok_refs B n"
proof (rule ok_refsI)
  have same: "B i p = A i p" if "i < 208" "p < 269" "B i p \<noteq> 0" for i p
    using assms(2)[OF that(1,2)] that(3) by blast
  show "46 \<le> unat (B i p) \<and> unat (B i p) < n" if a: "i < 208" "p < 269" "B i p \<noteq> 0" for i p
  proof -
    have "A i p \<noteq> 0" using same[OF a] a(3) by metis
    from ok_refsD(1,2)[OF assms(1) a(1,2) this] show ?thesis unfolding same[OF a] by blast
  qed
  show "i = j \<and> p = q" if a: "i < 208" "p < 269" "j < 208" "q < 269" "B i p \<noteq> 0" "B i p = B j q" for i p j q
  proof -
    have e: "B i p = A i p" by (rule same[OF a(1,2,5)])
    have "B j q \<noteq> 0" using a(5,6) by simp
    then have f: "B j q = A j q" by (rule same[OF a(3,4)])
    show ?thesis by (rule ok_refsD(3)[OF assms(1) a(1,2) _ a(3,4)]) (use a(5,6) e f in \<open>simp_all only:, simp_all\<close>)
  qed
qed

lemma ok_refs_add:
  assumes "ok_refs A n" "unat v = n" "46 \<le> n"
    and B: "\<And>i p. i < 208 \<Longrightarrow> p < 269 \<Longrightarrow> B i p = (if i = i0 \<and> p = p0 then v else A i p)"
  shows "ok_refs B (n + 1)"
proof (rule ok_refsI)
  have new: "A k r \<noteq> v" if "k < 208" "r < 269" for k r
  proof
    assume e: "A k r = v"
    have "v \<noteq> 0" using assms(2,3) by auto
    then have "unat (A k r) < n" using ok_refsD(2)[OF assms(1) that] e by blast
    then show False using e assms(2) by simp
  qed
  show "46 \<le> unat (B i p) \<and> unat (B i p) < n + 1" if a: "i < 208" "p < 269" "B i p \<noteq> 0" for i p
  proof (cases "i = i0 \<and> p = p0")
    case True
    then have "B i p = v" using B[OF a(1,2)] by simp
    then show ?thesis using assms(2,3) by simp
  next
    case False
    then have e: "B i p = A i p" using B[OF a(1,2)] by (simp only: if_False)
    then have "A i p \<noteq> 0" using a(3) by simp
    from ok_refsD(1,2)[OF assms(1) a(1,2) this] show ?thesis unfolding e by linarith
  qed
  show "i = j \<and> p = q" if a: "i < 208" "p < 269" "j < 208" "q < 269" "B i p \<noteq> 0" "B i p = B j q" for i p j q
  proof (cases "i = i0 \<and> p = p0")
    case True
    then have "B j q = v" using B[OF a(1,2)] a(6) by simp
    then have "j = i0 \<and> q = p0" using B[OF a(3,4)] new[OF a(3,4)] by (cases "j = i0 \<and> q = p0") simp_all
    then show ?thesis using True by simp
  next
    case False
    then have e: "B i p = A i p" using B[OF a(1,2)] by (simp only: if_False)
    then have ne: "\<not> (j = i0 \<and> q = p0)" using B[OF a(3,4)] new[OF a(1,2)] a(6) by auto
    then have f: "B j q = A j q" using B[OF a(3,4)] by (simp only: if_False)
    show ?thesis by (rule ok_refsD(3)[OF assms(1) a(1,2) _ a(3,4)]) (use a(5,6) e f in \<open>simp_all only:, simp_all\<close>)
  qed
qed

section \<open>The invariant\<close>

text \<open>\<open>D\<close> gives the addresses of the inodes: those on disk, but for an inode that is being appended to.\<close>

definition mk_ok :: "(nat \<Rightarrow> nat \<Rightarrow> u32) \<Rightarrow> mkfs \<Rightarrow> bool" where
  "mk_ok D s \<longleftrightarrow> nsect s = 2000 \<and> 46 \<le> unat (freeblock s) \<and> unat (freeblock s) \<le> 2000 \<and> img s 1 = sb_block mkfs_sb \<and>
     (\<forall>b. unat (freeblock s) \<le> unat b \<and> unat b < 2000 \<longrightarrow> img s b = (\<lambda>_. 0)) \<and>
     ok_refs (addr D (img s)) (unat (freeblock s))"

lemma mk_okD:
  assumes "mk_ok D s"
  shows "nsect s = 2000" "46 \<le> unat (freeblock s)" "unat (freeblock s) \<le> 2000" "img s 1 = sb_block mkfs_sb"
    "unat (freeblock s) \<le> unat b \<Longrightarrow> unat b < 2000 \<Longrightarrow> img s b = (\<lambda>_. 0)" "ok_refs (addr D (img s)) (unat (freeblock s))"
  using assms unfolding mk_ok_def by blast+

lemma mk_ok_cong:
  assumes "mk_ok D s" "\<And>i. i < 208 \<Longrightarrow> E i = D i"
  shows "mk_ok E s"
proof -
  note o = mk_okD[OF assms(1)]
  have "ok_refs (addr E (img s)) (unat (freeblock s))"
    by (rule ok_refs_less[OF o(6)]) (use assms(2) in \<open>simp add: addr_def\<close>)
  then show ?thesis using o by (auto simp: mk_ok_def)
qed

lemma freeblock_up: "unat (freeblock s) \<le> 2000 \<Longrightarrow> unat (freeblock s + 1) = unat (freeblock s) + 1"
  by (simp add: unat_word_ariths)

lemma ld32_zero [simp]: "ld32 (\<lambda>_. 0) k = 0"
  by (simp add: ld32_def le32_def)

text \<open>A new address for position \<open>k\<close> of inode \<open>i\<close>.\<close>

lemma mk_ok_addr:
  assumes ok: "mk_ok D s" and i: "i < 208" and k: "k \<le> 12" and z: "D i k = 0" and room: "unat (freeblock s) < 2000"
  shows "mk_ok (D(i := (D i)(k := freeblock s))) (s\<lparr>freeblock := freeblock s + 1\<rparr>)"
proof -
  note o = mk_okD[OF ok]
  have "ok_refs (addr (D(i := (D i)(k := freeblock s))) (img s)) (unat (freeblock s) + 1)"
  proof (rule ok_refs_add[OF o(6) refl o(2)])
    fix j p :: nat assume "j < 208" "p < 269"
    have "img s (freeblock s) = (\<lambda>_. 0)" by (rule o(5)) (use room in simp_all)
    then show "addr (D(i := (D i)(k := freeblock s))) (img s) j p = (if j = i \<and> p = k then freeblock s else addr D (img s) j p)"
      using k z by (auto simp: addr_def)
  qed
  then show ?thesis using o room by (simp add: mk_ok_def freeblock_up)
qed

text \<open>A write to a data block, or to the entry of an indirect block.\<close>

lemma mk_ok_data:
  assumes ok: "mk_ok D s" and i: "i < 208" and p: "p < 269" "p \<noteq> 12" and x: "x = addr D (img s) i p" "x \<noteq> 0"
  shows "mk_ok D (s\<lparr>img := (img s)(x := buf)\<rparr>)"
proof -
  note o = mk_okD[OF ok]
  have r: "46 \<le> unat x" "unat x < unat (freeblock s)" using ok_refsD(1,2)[OF o(6) i p(1)] x by auto
  have ne: "D j 12 \<noteq> x" if "j < 208" for j
    using ok_refsD(3)[OF o(6) i p(1) _ that, of 12] x p(2) by (auto simp: addr_def)
  have "ok_refs (addr D ((img s)(x := buf))) (unat (freeblock s))"
    by (rule ok_refs_less[OF o(6)]) (use ne in \<open>auto simp: addr_def\<close>)
  moreover have "x \<noteq> 1" using r(1) by auto
  ultimately show ?thesis using o r by (auto simp: mk_ok_def)
qed

lemma mk_ok_entry:
  assumes ok: "mk_ok D s" and i: "i < 208" and j: "j < 256" and ind: "D i 12 \<noteq> 0"
    and z: "ld32 (img s (D i 12)) (4 * j) = 0" and room: "unat (freeblock s) < 2000"
  shows "mk_ok D (s\<lparr>freeblock := freeblock s + 1, img := (img s)(D i 12 := st32 (img s (D i 12)) (4 * j) (freeblock s))\<rparr>)"
proof -
  note o = mk_okD[OF ok]
  have a: "addr D (img s) i 12 = D i 12" by (simp add: addr_def)
  have r: "46 \<le> unat (D i 12)" "unat (D i 12) < unat (freeblock s)" using ok_refsD(1,2)[OF o(6) i, of 12] ind a by auto
  have ne: "D k 12 \<noteq> D i 12" if "k < 208" "k \<noteq> i" for k
    using ok_refsD(3)[OF o(6) i _ _ that(1), of 12 12] ind a that(2) by (auto simp: addr_def)
  have "ok_refs (addr D ((img s)(D i 12 := st32 (img s (D i 12)) (4 * j) (freeblock s)))) (unat (freeblock s) + 1)"
  proof (rule ok_refs_add[OF o(6) refl o(2)])
    fix k p :: nat assume "k < 208" "p < 269"
    moreover have "ld32 (st32 (img s (D i 12)) (4 * j) (freeblock s)) (4 * (p - 13)) =
        (if p - 13 = j then freeblock s else ld32 (img s (D i 12)) (4 * (p - 13)))"
      by (auto simp: ld32_st32 intro!: ld32_st32_other)
    ultimately show "addr D ((img s)(D i 12 := st32 (img s (D i 12)) (4 * j) (freeblock s))) k p =
        (if k = i \<and> p = 13 + j then freeblock s else addr D (img s) k p)"
      using ne[of k] ind by (cases "k = i") (auto simp: addr_def)
  qed
  moreover have "D i 12 \<noteq> 1" using r(1) by auto
  ultimately show ?thesis using o r room by (auto simp: mk_ok_def freeblock_up)
qed

section \<open>Appending\<close>

text \<open>What appending leaves alone: the blocks before the data area and the next inode number.\<close>

definition low_same :: "mkfs \<Rightarrow> mkfs \<Rightarrow> bool" where
  "low_same s s' \<longleftrightarrow> freeinode s' = freeinode s \<and> (\<forall>b. unat b < 46 \<longrightarrow> img s' b = img s b)"

lemma low_same_trans: "low_same s s1 \<Longrightarrow> low_same s1 s2 \<Longrightarrow> low_same s s2"
  by (simp add: low_same_def)

lemma new_addr_ok:
  assumes ok: "mk_ok D s" and D: "D i = d_addrs din" and i: "i < 208" and k: "k \<le> 12"
    and n: "new_addr k din s = (din1, s1)" and rd: "unat (sector (d_addrs din1 k)) < 2000"
  shows "mk_ok (D(i := d_addrs din1)) s1" "d_addrs din1 k \<noteq> 0" "low_same s s1" "nsect s1 = 2000"
proof -
  note o = mk_okD[OF ok]
  have "mk_ok (D(i := d_addrs din1)) s1 \<and> d_addrs din1 k \<noteq> 0 \<and> low_same s s1"
  proof (cases "d_addrs din k = 0")
    case True
    then have e: "din1 = din\<lparr>d_addrs := (d_addrs din)(k := freeblock s)\<rparr>" "s1 = s\<lparr>freeblock := freeblock s + 1\<rparr>"
      using n by (simp_all add: new_addr_def)
    have "sector (freeblock s) = freeblock s" using o(3) by (intro sector_small) simp
    then have room: "unat (freeblock s) < 2000" using rd by (simp add: e)
    have "freeblock s \<noteq> 0" using o(2) by auto
    then show ?thesis using mk_ok_addr[OF ok i k _ room] True D by (simp add: e low_same_def)
  next
    case False
    then have e: "din1 = din" "s1 = s" using n by (simp_all add: new_addr_def)
    have "D(i := d_addrs din) = D" using D by (simp add: fun_upd_idem)
    then show ?thesis using ok False by (simp add: e low_same_def)
  qed
  then show "mk_ok (D(i := d_addrs din1)) s1" "d_addrs din1 k \<noteq> 0" "low_same s s1" "nsect s1 = 2000"
    using mk_okD(1) by blast+
qed

definition pos :: "nat \<Rightarrow> nat" where
  "pos fbn = (if fbn < 12 then fbn else fbn + 1)"

lemma indirect_ok:
  assumes fbn: "12 \<le> fbn" "fbn < 268" and ok: "mk_ok D s" and i: "i < 208" and a: "D i 12 = a" "a \<noteq> 0"
    and e: "(if ld32 (img s a) (4 * (fbn - 12)) = 0 then
        bnd (wsect a (st32 (img s a) (4 * (fbn - 12)) (freeblock s)) (s\<lparr>freeblock := freeblock s + 1\<rparr>)) (\<lambda>_ s. Ret (freeblock s0, din) s)
      else Ret (ld32 (img s a) (4 * (fbn - 12)), din) s) = Ret (x, din') s'" and s0: "s0 = s"
    and rd: "unat (sector x) < nsect s'"
  shows "mk_ok D s' \<and> x \<noteq> 0 \<and> x = addr D (img s') i (pos fbn) \<and> low_same s s' \<and> din' = din"
proof -
  note o = mk_okD[OF ok]
  have ad: "addr D (img s) i 12 = a" using a by (simp add: addr_def)
  have r: "46 \<le> unat a" "unat a < 2000" using ok_refsD(1,2)[OF o(6) i, of 12] ad a o(3) by auto
  have p: "pos fbn = 13 + (fbn - 12)" using fbn by (simp add: pos_def)
  show ?thesis
  proof (cases "ld32 (img s a) (4 * (fbn - 12)) = 0")
    case True
    have e': "s' = s\<lparr>freeblock := freeblock s + 1, img := (img s)(a := st32 (img s a) (4 * (fbn - 12)) (freeblock s))\<rparr>" "x = freeblock s" "din' = din"
      using e r True o(1) s0 by (auto simp: wsect_def sector_data)
    have "sector (freeblock s) = freeblock s" using o(3) by (intro sector_small) simp
    then have room: "unat (freeblock s) < 2000" using rd o(1) by (simp add: e')
    have "freeblock s \<noteq> 0" using o(2) by auto
    moreover have "mk_ok D s'" unfolding e' a(1)[symmetric]
      by (rule mk_ok_entry[OF ok i]) (use fbn a True room in simp_all)
    ultimately show ?thesis using a r(1) by (auto simp: e' addr_def p ld32_st32 low_same_def)
  next
    case False
    then show ?thesis using e ok a by (auto simp: addr_def p low_same_def)
  qed
qed

lemma iappend_block_ok:
  assumes ok: "mk_ok D s" and D: "D i = d_addrs din" and i: "i < 208" and fbn: "fbn < 268"
    and e: "iappend_block fbn din s = Ret (x, din') s'" and rd: "unat (sector x) < nsect s'"
  shows "mk_ok (D(i := d_addrs din')) s' \<and> x \<noteq> 0 \<and> x = addr (D(i := d_addrs din')) (img s') i (pos fbn) \<and> low_same s s'"
proof (cases "fbn < 12")
  case True
  obtain d1 s1 where n: "new_addr fbn din s = (d1, s1)" by (cases "new_addr fbn din s")
  then have e': "x = d_addrs d1 fbn" "din' = d1" "s' = s1" using e True by (auto simp: iappend_block_def)
  have "nsect s1 = 2000" using n mk_okD(1)[OF ok] by (auto simp: new_addr_def split: if_splits)
  then have "unat (sector (d_addrs d1 fbn)) < 2000" using rd by (simp add: e')
  from new_addr_ok[OF ok D i _ n this] True show ?thesis by (simp add: e' addr_def pos_def)
next
  case False
  obtain d1 s1 where n: "new_addr 12 din s = (d1, s1)" by (cases "new_addr 12 din s")
  have ns: "nsect s1 = 2000" using n mk_okD(1)[OF ok] by (auto simp: new_addr_def split: if_splits)
  then have "unat (sector (d_addrs d1 12)) < 2000" using e False n by (auto simp: iappend_block_def rsect_def split: if_splits)
  note m = new_addr_ok[OF ok D i _ n this, simplified]
  have "unat (d_addrs d1 12) < 2000"
    using ok_refsD(2)[OF mk_okD(6)[OF m(1)] i, of 12] m(2) mk_okD(3)[OF m(1)] by (auto simp: addr_def)
  then have sec: "sector (d_addrs d1 12) = d_addrs d1 12" by (rule sector_data)
  have "mk_ok (D(i := d_addrs d1)) s' \<and> x \<noteq> 0 \<and> x = addr (D(i := d_addrs d1)) (img s') i (pos fbn) \<and>
      low_same s1 s' \<and> din' = d1"
  proof (rule indirect_ok[OF _ fbn m(1) i _ m(2) _ refl rd])
    show "(if ld32 (img s1 (d_addrs d1 12)) (4 * (fbn - 12)) = 0 then
        bnd (wsect (d_addrs d1 12) (st32 (img s1 (d_addrs d1 12)) (4 * (fbn - 12)) (freeblock s1)) (s1\<lparr>freeblock := freeblock s1 + 1\<rparr>))
          (\<lambda>_ s. Ret (freeblock s1, d1) s)
      else Ret (ld32 (img s1 (d_addrs d1 12)) (4 * (fbn - 12)), d1) s1) = Ret (x, din') s'"
      using e False n sec ns \<open>unat (d_addrs d1 12) < 2000\<close>
      by (cases "ld32 (img s1 (d_addrs d1 12)) (4 * (fbn - 12)) = 0") (auto simp: iappend_block_def rsect_def ld32_st32)
  qed (use False in simp_all)
  then show ?thesis using low_same_trans[OF m(3)] by auto
qed

lemma iappend_loop_ok:
  assumes "mk_ok D s" "D i = d_addrs din" "i < 208" "iappend_loop p din off s = Ret (din', off') s'"
  shows "mk_ok (D(i := d_addrs din')) s' \<and> low_same s s'"
  using assms
proof (induction "length p" arbitrary: p din off s D rule: less_induct)
  case less
  show ?case
  proof (cases "p = []")
    case True
    have "D(i := d_addrs din) = D" using less(3) by (simp add: fun_upd_idem)
    then show ?thesis using less True by (simp add: iappend_loop.simps low_same_def)
  next
    case False
    define n1 where "n1 = min (length p) (room off)"
    define w where "w buf = (\<lambda>k. let a = unat (off - off div 1024 * 1024) in if a \<le> k \<and> k < a + n1 then p ! (k - a) else buf k)"
      for buf :: block
    have lt: "unat (off div 1024) < 268" and
      "bnd (iappend_block (unat (off div 1024)) din s) (\<lambda>(x, din) s. bnd (rsect x s) (\<lambda>buf s. bnd (wsect x (w buf) s) (\<lambda>_ s.
        iappend_loop (drop n1 p) din (off + of_nat n1) s))) = Ret (din', off') s'"
      using less(5) False by (simp_all add: iappend_loop.simps[of p] Let_def n1_def w_def split: if_splits)
    then obtain x d1 s1 where b: "iappend_block (unat (off div 1024)) din s = Ret (x, d1) s1"
      and rd: "unat (sector x) < nsect s1"
      and rest: "bnd (wsect x (w (img s1 (sector x))) s1) (\<lambda>_ s. iappend_loop (drop n1 p) d1 (off + of_nat n1) s) = Ret (din', off') s'"
      by (auto simp: res_simps rsect_def split: if_splits)
    define D1 where "D1 = D(i := d_addrs d1)"
    have k: "mk_ok D1 s1" "x \<noteq> 0" "x = addr D1 (img s1) i (pos (unat (off div 1024)))" "low_same s s1"
      using iappend_block_ok[OF less(2-4) lt b rd] unfolding D1_def by blast+
    have pp: "pos (unat (off div 1024)) < 269" "pos (unat (off div 1024)) \<noteq> 12" using lt by (auto simp: pos_def)
    have x: "unat x < 2000" using ok_refsD(2)[OF mk_okD(6)[OF k(1)] less(4) pp(1)] k(2,3) mk_okD(3)[OF k(1)] by auto
    define s2 where "s2 = s1\<lparr>img := (img s1)(x := w (img s1 x))\<rparr>"
    have ws: "wsect x (w (img s1 (sector x))) s1 = Ret () s2"
      using x mk_okD(1)[OF k(1)] by (simp add: wsect_def sector_data s2_def)
    have ok2: "mk_ok D1 s2" unfolding s2_def by (rule mk_ok_data[OF k(1) less(4) pp k(3,2)])
    have "0 < room off" by (simp add: room_eq)
    then have "length (drop n1 p) < length p" using False by (simp add: n1_def)
    from less(1)[OF this ok2 _ less(4)] rest have "mk_ok (D1(i := d_addrs din')) s' \<and> low_same s2 s'"
      by (simp add: ws D1_def)
    moreover have "46 \<le> unat x" using ok_refsD(1)[OF mk_okD(6)[OF k(1)] less(4) pp(1)] k(2,3) by simp
    then have "low_same s1 s2" by (auto simp: s2_def low_same_def)
    ultimately show ?thesis using low_same_trans[OF low_same_trans[OF k(4)]] by (simp add: D1_def)
  qed
qed

section \<open>Inodes\<close>

lemma put_addrs_out: "i < off \<or> off + 4 * n \<le> i \<Longrightarrow> put_addrs n off a d i = d i"
  by (induction n) (auto simp: st32_def)

lemma put_addrs_in: "k < n \<Longrightarrow> ld32 (put_addrs n off a d) (off + 4 * k) = a k"
proof (induction n)
  case (Suc n)
  show ?case
  proof (cases "k = n")
    case False
    then have "k < n" using Suc(2) by simp
    then show ?thesis using Suc(1) by (simp add: ld32_st32_other)
  qed (simp add: ld32_st32)
qed simp

lemma dinode_store_in: "k \<le> 12 \<Longrightarrow> ld32 (dinode_store din off buf) (off + 12 + 4 * k) = d_addrs din k"
  unfolding dinode_store_def by (rule put_addrs_in) simp

lemma dinode_store_out: "k < off \<or> off + 64 \<le> k \<Longrightarrow> dinode_store din off buf k = buf k"
  unfolding dinode_store_def by (subst put_addrs_out) (auto simp: st16_def st32_def)

lemma load_store_same: "d_addrs (dinode_load (dinode_store din off buf) off) = (\<lambda>k. if k \<le> 12 then d_addrs din k else 0)"
  by (simp add: dinode_load_def dinode_store_in fun_eq_iff)

lemma load_store_other:
  assumes "a \<noteq> b"
  shows "dinode_load (dinode_store din (64 * a) buf) (64 * b) = dinode_load buf (64 * b)"
proof -
  have "dinode_store din (64 * a) buf k = buf k" if "64 * b \<le> k" "k < 64 * b + 64" for k
    by (rule dinode_store_out) (use assms that in presburger)
  then show ?thesis by (auto simp: dinode_load_def ld16_def ld32_def fun_eq_iff)
qed

lemma winode_eq:
  assumes i: "i < 208" and n: "nsect s = 2000"
  shows "winode (of_nat i) din s = Ret () (s\<lparr>img := (img s)(ib i := dinode_store din (64 * (i mod 16)) (img s (ib i)))\<rparr>)"
proof -
  have "sector (ib i) = ib i" "unat (ib i) < 2000" using ib_range[OF i] by (simp_all add: sector_data)
  then show ?thesis using n by (cases s) (simp add: winode_def ib_def[symmetric] rsect_def wsect_def dinode_off_nat[OF i] Let_def)
qed

lemma rinode_eq:
  assumes i: "i < 208" and n: "nsect s = 2000"
  shows "rinode (of_nat i) s = Ret (dinode_load (img s (ib i)) (64 * (i mod 16))) s"
proof -
  have "sector (ib i) = ib i" "unat (ib i) < 2000" using ib_range[OF i] by (simp_all add: sector_data)
  then show ?thesis using n by (simp add: rinode_def ib_def[symmetric] rsect_def dinode_off_nat[OF i])
qed

lemma disk_addrs_winode:
  assumes i: "i < 208" and j: "j < 208" and k: "k \<le> 12"
    and s': "img s' = (img s)(ib i := dinode_store din (64 * (i mod 16)) (img s (ib i)))"
  shows "disk_addrs s' j k = ((disk_addrs s)(i := d_addrs din)) j k"
proof (cases "ib j = ib i")
  case True
  then have d: "j div 16 = i div 16" using ib_eq i j by simp
  show ?thesis
  proof (cases "j = i")
    case True
    then show ?thesis using k by (simp add: disk_addrs_def s' load_store_same)
  next
    case False
    then have "i mod 16 \<noteq> j mod 16" using d by (metis div_mult_mod_eq)
    from load_store_other[OF this] show ?thesis using False True by (simp add: disk_addrs_def s')
  qed
next
  case False
  then show ?thesis by (auto simp: disk_addrs_def s')
qed

lemma winode_ok:
  assumes i: "i < 208" and ok: "mk_ok ((disk_addrs s)(i := d_addrs din)) s"
    and s': "s' = s\<lparr>img := (img s)(ib i := dinode_store din (64 * (i mod 16)) (img s (ib i)))\<rparr>"
  shows "mk_ok (disk_addrs s') s'"
proof -
  let ?D = "(disk_addrs s)(i := d_addrs din)"
  note o = mk_okD[OF ok]
  have D: "disk_addrs s' j k = ?D j k" if "j < 208" "k \<le> 12" for j k
    by (rule disk_addrs_winode[OF i that]) (simp add: s')
  have far: "?D j 12 = 0 \<or> ?D j 12 \<noteq> ib i" if "j < 208" for j
  proof (cases "?D j 12 = 0")
    case False
    then have "46 \<le> unat (?D j 12)" using ok_refsD(1)[OF o(6) that, of 12] by (simp add: addr_def)
    then show ?thesis using ib_range(2)[OF i] by auto
  qed simp
  have "ok_refs (addr (disk_addrs s') (img s')) (unat (freeblock s))"
  proof (rule ok_refs_less[OF o(6)])
    fix j p :: nat assume j: "j < 208"
    have "addr (disk_addrs s') (img s') j p = addr ?D (img s) j p"
    proof (cases "p \<le> 12")
      case True
      then show ?thesis using D[OF j True] by (simp add: addr_def)
    next
      case False
      have "img s' (?D j 12) = img s (?D j 12)" if "?D j 12 \<noteq> 0" using far[OF j] that by (simp add: s')
      then show ?thesis using False D[OF j, of 12] by (simp add: addr_def)
    qed
    then show "addr (disk_addrs s') (img s') j p = addr ?D (img s) j p \<or> addr (disk_addrs s') (img s') j p = 0" by simp
  qed
  moreover have "ib i \<noteq> 1" "unat (ib i) < unat (freeblock s)" using ib_range[OF i] o(2) by auto
  ultimately show ?thesis using o by (auto simp: mk_ok_def s')
qed

lemma low_same_addrs: "low_same s s' \<Longrightarrow> i < 208 \<Longrightarrow> disk_addrs s' i = disk_addrs s i"
proof -
  assume a: "low_same s s'" "i < 208"
  have "unat (ib i) < 46" using ib_range(2)[OF a(2)] by simp
  then show ?thesis using a(1) by (simp add: low_same_def disk_addrs_def)
qed

text \<open>The state between the calls of \<^verbatim>\<open>main\<close>: the addresses on disk are consistent, and \<open>i\<close> is the next inode number.\<close>

definition mk_state :: "nat \<Rightarrow> mkfs \<Rightarrow> bool" where
  "mk_state i s \<longleftrightarrow> mk_ok (disk_addrs s) s \<and> freeinode s = of_nat i"

lemma iappend_ok:
  assumes s: "mk_state n s" and i: "i < 208" and e: "iappend (of_nat i) p s = Ret () s'"
  shows "mk_state n s'"
proof -
  have ok: "mk_ok (disk_addrs s) s" using s by (simp add: mk_state_def)
  define din where "din = dinode_load (img s (ib i)) (64 * (i mod 16))"
  have D: "disk_addrs s i = d_addrs din" by (simp add: disk_addrs_def din_def)
  obtain d1 off s1 where l: "iappend_loop p din (d_size din) s = Ret (d1, off) s1"
    and w: "winode (of_nat i) (d1\<lparr>d_size := off\<rparr>) s1 = Ret () s'"
    using e by (auto simp: iappend_def rinode_eq[OF i mk_okD(1)[OF ok]] din_def[symmetric] res_simps)
  have 1: "mk_ok ((disk_addrs s)(i := d_addrs d1)) s1" "low_same s s1"
    using iappend_loop_ok[OF ok D i l] by auto
  have "mk_ok ((disk_addrs s1)(i := d_addrs d1)) s1"
    by (rule mk_ok_cong[OF 1(1)]) (simp add: low_same_addrs[OF 1(2)])
  from winode_ok[OF i, of s1 "d1\<lparr>d_size := off\<rparr>"] this
  show ?thesis using w winode_eq[OF i mk_okD(1)[OF 1(1)]] 1(2) s by (auto simp: mk_state_def low_same_def)
qed

lemma mk_ialloc_ok:
  assumes s: "mk_state i s" and i: "i < 208"
  shows "\<exists>s'. mk_ialloc type s = Ret (of_nat i) s' \<and> mk_state (i + 1) s' \<and> freeblock s' = freeblock s"
proof -
  have ok: "mk_ok (disk_addrs s) s" and f: "freeinode s = of_nat i" using s by (simp_all add: mk_state_def)
  define din where "din = \<lparr>d_type = type, d_major = 0, d_minor = 0, d_nlink = 1, d_size = 0, d_addrs = (\<lambda>_. 0 :: u32)\<rparr>"
  define s1 where "s1 = s\<lparr>freeinode := freeinode s + 1\<rparr>"
  define s2 where "s2 = s1\<lparr>img := (img s1)(ib i := dinode_store din (64 * (i mod 16)) (img s1 (ib i)))\<rparr>"
  note o = mk_okD[OF ok]
  have "ok_refs (addr ((disk_addrs s)(i := (\<lambda>_. 0))) (img s)) (unat (freeblock s))"
    by (rule ok_refs_less[OF o(6)]) (simp add: addr_def)
  then have "mk_ok ((disk_addrs s1)(i := d_addrs din)) s1"
    using o by (auto simp: mk_ok_def s1_def din_def disk_addrs_def[abs_def])
  from winode_ok[OF i this s2_def] have "mk_ok (disk_addrs s2) s2" .
  moreover have "mk_ialloc type s = Ret (of_nat i) s2"
    using winode_eq[OF i, of s1 din] o(1) by (simp add: mk_ialloc_def f s1_def s2_def din_def Let_def)
  moreover have "freeinode s2 = of_nat (i + 1)" "freeblock s2 = freeblock s" by (simp_all add: s2_def s1_def f)
  ultimately show ?thesis by (auto simp: mk_state_def)
qed

lemma copy_file_ok:
  assumes "mk_state n s" "i < 208" "copy_file bs (of_nat i) s = Ret () s'"
  shows "mk_state n s'"
  using assms by (induction bs arbitrary: s) (auto simp: res_simps dest: iappend_ok)

lemma add_file_ok:
  assumes s: "mk_state i s" and i: "i < 208" and e: "add_file host 1 a s = Ret () s'"
  shows "mk_state (i + 1) s'"
proof -
  obtain s1 where 1: "mk_ialloc T_FILE s = Ret (of_nat i) s1" "mk_state (i + 1) s1" using mk_ialloc_ok[OF s i] by blast
  obtain name bs s2 where 2: "iappend 1 (de_bytes (of_nat i) name) s1 = Ret () s2" "copy_file bs (of_nat i) s2 = Ret () s'"
    using e 1(1) by (auto simp: add_file_def Let_def res_simps split: if_splits option.splits)
  have "mk_state (i + 1) s2" by (rule iappend_ok[OF 1(2), where i = 1]) (use 2(1) in simp_all)
  then show ?thesis by (rule copy_file_ok[OF _ i 2(2)])
qed

lemma add_files_ok:
  assumes "mk_state i s" "i + length as \<le> 208" "add_files host 1 as s = Ret () s'"
  shows "mk_state (i + length as) s'"
  using assms
proof (induction as arbitrary: i s)
  case (Cons a as)
  obtain s1 where 1: "add_file host 1 a s = Ret () s1" "add_files host 1 as s1 = Ret () s'"
    using Cons(4) by (auto simp: res_simps)
  have "mk_state (i + 1) s1" by (rule add_file_ok[OF Cons(2) _ 1(1)]) (use Cons(3) in simp)
  from Cons(1)[OF this _ 1(2)] show ?case using Cons(3) by simp
qed simp

section \<open>The image\<close>

lemma wzero_eq:
  assumes "n \<le> 2000" "img s = (\<lambda>_ _. 0)" "nsect s = 0"
  shows "wzero [0..<n] s = Ret () (s\<lparr>nsect := n\<rparr>)"
proof -
  have app: "wzero (xs @ [k]) t = bnd (wzero xs t) (\<lambda>_ t. wsect (of_nat k) (\<lambda>_. 0) t)" for xs k t
    by (induction xs arbitrary: t) (simp_all add: bnd_assoc wsect_def)
  show ?thesis using assms(1)
  proof (induction n)
    case 0
    show ?case using assms(3) by (cases s) simp
  next
    case (Suc n)
    have "unat (of_nat n :: u32) = n" using Suc(2) by (intro unat_of_nat_u32) simp
    then have "sector (of_nat n) = (of_nat n :: u32)" using Suc(2) by (intro sector_data) simp
    then show ?case using Suc assms(2) \<open>unat (of_nat n :: u32) = n\<close> by (cases s) (simp add: app wsect_def fun_upd_idem)
  qed
qed

lemma blank_state:
  "mk_state 1 \<lparr>img = (\<lambda>_ _. 0)(1 := sb_block mkfs_sb), nsect = 2000, freeinode = 1, freeblock = 46\<rparr>"
proof -
  let ?s = "\<lparr>img = (\<lambda>_ _. 0)(1 := sb_block mkfs_sb), nsect = 2000, freeinode = 1, freeblock = 46\<rparr>"
  have z: "disk_addrs ?s i k = 0" if "i < 208" for i k
  proof -
    have "ib i \<noteq> 1" using ib_range(1)[OF that] by auto
    then show ?thesis by (simp add: disk_addrs_def dinode_load_def)
  qed
  have "ok_refs (addr (disk_addrs ?s) (img ?s)) 46"
    by (rule ok_refsI) (simp_all add: addr_def z split: if_splits)
  then show ?thesis by (auto simp: mk_state_def mk_ok_def)
qed

lemma block_bit_set_bits: "block_bit (set_bits is buf) b \<longleftrightarrow> b \<in> set is \<or> block_bit buf b"
proof (induction "is" arbitrary: buf)
  case (Cons i "is")
  have "buf(i div 8 := buf (i div 8) OR bit_mask i) = mark i True buf" by (simp add: mark_def)
  then show ?case using Cons[of "mark i True buf"] by (auto simp: block_bit_mark)
qed simp

lemma bitmap_bit: "block_bit (set_bits [0..<n] (\<lambda>_. 0)) b \<longleftrightarrow> b < n"
  by (simp add: block_bit_set_bits) (simp add: block_bit_def)

text \<open>What \<^verbatim>\<open>main\<close> leaves: the invariant, with the blocks handed out marked in the free map.\<close>

definition mk_done :: "mkfs \<Rightarrow> bool" where
  "mk_done s \<longleftrightarrow> mk_ok (disk_addrs s) s \<and> img s 45 = set_bits [0..<unat (freeblock s)] (\<lambda>_. 0)"

lemma freeblock_sint: "mk_ok D s \<Longrightarrow> sint (freeblock s) = int (unat (freeblock s))"
  using mk_okD(3)[of D s] by (intro sint_unat_u32) simp

lemma mk_balloc_ok:
  assumes "mk_ok (disk_addrs s) s" "mk_balloc (freeblock s) s = Ret () s'"
  shows "mk_done s'"
proof -
  note o = mk_okD[OF assms(1)]
  have "sint (freeblock s) = int (unat (freeblock s))" by (rule freeblock_sint[OF assms(1)])
  moreover have "sector 45 = 45" by (simp add: sector_data)
  ultimately have s': "s' = s\<lparr>img := (img s)(45 := set_bits [0..<unat (freeblock s)] (\<lambda>_. 0))\<rparr>"
    using assms(2) o(1,3) by (cases s) (auto simp: mk_balloc_def wsect_def split: if_splits)
  have D: "disk_addrs s' i = disk_addrs s i" if "i < 208" for i
  proof -
    have "ib i \<noteq> 45" using ib_range(2)[OF that] by auto
    then show ?thesis by (simp add: disk_addrs_def s')
  qed
  have "ok_refs (addr (disk_addrs s') (img s')) (unat (freeblock s))"
  proof (rule ok_refs_less[OF o(6)])
    fix i p :: nat assume i: "i < 208"
    have "disk_addrs s i 12 = 0 \<or> disk_addrs s i 12 \<noteq> 45"
      using ok_refsD(1)[OF o(6) i, of 12] by (auto simp: addr_def)
    then show "addr (disk_addrs s') (img s') i p = addr (disk_addrs s) (img s) i p \<or> addr (disk_addrs s') (img s') i p = 0"
      using D[OF i] by (auto simp: addr_def s')
  qed
  moreover have "img s' b = (\<lambda>_. 0)" if "unat (freeblock s) \<le> unat b" "unat b < 2000" for b
  proof -
    have "b \<noteq> 45" using that o(2) by auto
    then show ?thesis using o(5)[OF that] by (simp add: s')
  qed
  ultimately show ?thesis using o by (simp add: mk_done_def mk_ok_def s')
qed

lemma fix_root_ok:
  assumes s: "mk_state n s" and e: "fix_root 1 s = Ret () s'"
  shows "mk_done s'"
proof -
  have ok: "mk_ok (disk_addrs s) s" using s by (simp add: mk_state_def)
  have i: "(1 :: nat) < 208" by simp
  define din where "din = dinode_load (img s (ib 1)) (64 * (1 mod 16))"
  define d1 where "d1 = din\<lparr>d_size := (d_size din div 1024 + 1) * 1024\<rparr>"
  define s1 where "s1 = s\<lparr>img := (img s)(ib 1 := dinode_store d1 (64 * (1 mod 16)) (img s (ib 1)))\<rparr>"
  have "rinode 1 s = Ret din s" using rinode_eq[OF i mk_okD(1)[OF ok]] by (simp add: din_def)
  moreover have "winode 1 d1 s = Ret () s1" using winode_eq[OF i mk_okD(1)[OF ok], of d1] by (simp add: s1_def)
  ultimately have b: "mk_balloc (freeblock s1) s1 = Ret () s'" using e by (simp add: fix_root_def Let_def d1_def)
  have "d_addrs d1 = disk_addrs s 1" by (simp add: d1_def din_def disk_addrs_def)
  then have "(disk_addrs s)(1 := d_addrs d1) = disk_addrs s" by (simp add: fun_upd_idem)
  then have "mk_ok (disk_addrs s1) s1" using winode_ok[OF i _ s1_def] ok by simp
  then show ?thesis by (rule mk_balloc_ok[OF _ b])
qed

lemma mkfs_main_done:
  assumes e: "mkfs_main creat host (fsimg # files) = Ret () s" and n: "length files \<le> 206"
  shows "mk_done s"
proof -
  define b0 where "b0 = \<lparr>img = (\<lambda>_ _. 0 :: u8), nsect = 0, freeinode = 1, freeblock = of_nat nmeta\<rparr>"
  define b1 where "b1 = \<lparr>img = (\<lambda>_ _. 0)(1 := sb_block mkfs_sb), nsect = 2000, freeinode = 1, freeblock = 46\<rparr>"
  have w: "wzero [0..<FSSIZE] b0 = Ret () (b0\<lparr>nsect := 2000\<rparr>)" by (rule wzero_eq) (simp_all add: b0_def)
  have 1: "wsect 1 (sb_block mkfs_sb) (b0\<lparr>nsect := 2000\<rparr>) = Ret () b1"
    by (simp add: wsect_def sector_data b0_def b1_def nmeta_eq)
  obtain b2 where 2: "mk_ialloc T_DIR b1 = Ret 1 b2" "mk_state 2 b2"
    using mk_ialloc_ok[OF blank_state, of T_DIR] by (auto simp: b1_def numeral_2_eq_2)
  obtain b3 b4 b5 where 3: "iappend 1 (de_bytes 1 [46]) b2 = Ret () b3" "iappend 1 (de_bytes 1 [46, 46]) b3 = Ret () b4"
      "add_files host 1 files b4 = Ret () b5" "fix_root 1 b5 = Ret () s"
    using e unfolding mkfs_main_def list.case b0_def[symmetric]
    by (simp only: w 1 2(1) bnd.simps split: if_splits) (auto simp: res_simps)
  have "mk_state 2 b3" by (rule iappend_ok[OF 2(2), where i = 1]) (use 3(1) in simp_all)
  then have "mk_state 2 b4" by (rule iappend_ok[where i = 1]) (use 3(2) in simp_all)
  then have "mk_state (2 + length files) b5" by (rule add_files_ok[OF _ _ 3(3)]) (use n in simp)
  then show ?thesis by (rule fix_root_ok[OF _ 3(4)])
qed

section \<open>An append within the first block\<close>

lemma load_store_size: "d_size (dinode_load (dinode_store din off buf) off) = d_size din"
proof -
  have "ld32 (put_addrs 13 (off + 12) a d) (off + 8) = ld32 d (off + 8)" for a d
    unfolding ld32_def by (simp add: put_addrs_out)
  then show ?thesis by (simp add: dinode_load_def dinode_store_def ld32_st32)
qed

definition disk_inode :: "mkfs \<Rightarrow> nat \<Rightarrow> dinode" where
  "disk_inode s i = dinode_load (img s (ib i)) (64 * (i mod 16))"

lemma iappend_small:
  assumes s: "mk_state n s" and i: "i < 208" and p: "p \<noteq> []" and sz: "unat (d_size (disk_inode s i)) + length p \<le> 1023"
    and room: "unat (freeblock s) < 2000"
  shows "\<exists>s'. iappend (of_nat i) p s = Ret () s' \<and> mk_state n s' \<and> d_size (disk_inode s' i) = d_size (disk_inode s i) + of_nat (length p) \<and>
    unat (freeblock s') \<le> unat (freeblock s) + 1"
proof -
  have ok: "mk_ok (disk_addrs s) s" using s by (simp add: mk_state_def)
  note o = mk_okD[OF ok]
  define din where "din = disk_inode s i"
  define off where "off = d_size din"
  have len: "unat off + length p \<le> 1023" using sz by (simp add: off_def din_def)
  have f: "off div 1024 = 0" using len by (simp add: word_unat_eq_iff unat_div)
  obtain d1 s1 where n: "new_addr 0 din s = (d1, s1)" by (cases "new_addr 0 din s")
  have ns: "nsect s1 = 2000" "unat (freeblock s1) \<le> unat (freeblock s) + 1" "d_size d1 = off"
    using n o(1) freeblock_up[OF o(3)] by (auto simp: new_addr_def off_def split: if_splits)
  have x: "unat (d_addrs d1 0) < 2000"
  proof (cases "d_addrs din 0 = 0")
    case True
    then show ?thesis using n room by (auto simp: new_addr_def)
  next
    case False
    have "addr (disk_addrs s) (img s) i 0 = d_addrs din 0" by (simp add: addr_def disk_addrs_def din_def disk_inode_def)
    then have "unat (d_addrs din 0) < unat (freeblock s)" using ok_refsD(2)[OF o(6) i, of 0] False by simp
    then show ?thesis using n False room by (auto simp: new_addr_def)
  qed
  have sec: "sector (d_addrs d1 0) = d_addrs d1 0" by (rule sector_data[OF x])
  have r: "min (length p) (room off) = length p" using len by (simp add: room_eq)
  obtain s2 where s2: "iappend_loop p din off s = Ret (d1, off + of_nat (length p)) s2" "nsect s2 = 2000" "freeblock s2 = freeblock s1"
    using p f x sec ns n iappend_loop.simps[of p din off s]
    by (simp add: iappend_block_def rsect_def wsect_def Let_def r iappend_loop.simps[of "[]"])
  define s3 where "s3 = s2\<lparr>img := (img s2)(ib i := dinode_store (d1\<lparr>d_size := off + of_nat (length p)\<rparr>) (64 * (i mod 16)) (img s2 (ib i)))\<rparr>"
  have e: "iappend (of_nat i) p s = Ret () s3"
    using s2(1) winode_eq[OF i s2(2)] rinode_eq[OF i o(1)]
    by (simp add: iappend_def s3_def disk_inode_def[symmetric] din_def[symmetric] off_def[symmetric])
  have "d_size (disk_inode s3 i) = off + of_nat (length p)" by (simp add: disk_inode_def s3_def load_store_size)
  moreover have "unat (freeblock s3) \<le> unat (freeblock s) + 1" using ns(2) s2(3) by (simp add: s3_def)
  ultimately show ?thesis using e iappend_ok[OF s i e] by (auto simp: off_def din_def)
qed

lemma mk_balloc_runs: "mk_ok D s \<Longrightarrow> \<exists>s'. mk_balloc (freeblock s) s = Ret () s'"
proof -
  assume ok: "mk_ok D s"
  have "sint (freeblock s) < 8192" unfolding freeblock_sint[OF ok] using mk_okD(3)[OF ok] by linarith
  then show ?thesis by (simp add: mk_balloc_def wsect_def)
qed

text \<open>With no files, \<^verbatim>\<open>mkfs\<close> succeeds.\<close>

lemma mkfs_empty: "\<exists>s. mkfs_main (\<lambda>_. True) host [fsimg] = Ret () s"
proof -
  define b0 where "b0 = \<lparr>img = (\<lambda>_ _. 0 :: u8), nsect = 0, freeinode = 1, freeblock = of_nat nmeta\<rparr>"
  define b1 where "b1 = \<lparr>img = (\<lambda>_ _. 0)(1 := sb_block mkfs_sb), nsect = 2000, freeinode = 1, freeblock = 46\<rparr>"
  have w: "wzero [0..<FSSIZE] b0 = Ret () (b0\<lparr>nsect := 2000\<rparr>)" by (rule wzero_eq) (simp_all add: b0_def)
  have 1: "wsect 1 (sb_block mkfs_sb) (b0\<lparr>nsect := 2000\<rparr>) = Ret () b1"
    by (simp add: wsect_def sector_data b0_def b1_def nmeta_eq)
  define din where "din = \<lparr>d_type = T_DIR, d_major = 0, d_minor = 0, d_nlink = 1, d_size = 0, d_addrs = (\<lambda>_. 0 :: u32)\<rparr>"
  define b2 where "b2 = b1\<lparr>freeinode := 2, img := (img b1)(ib 1 := dinode_store din 64 (img b1 (ib 1)))\<rparr>"
  have 2: "mk_ialloc T_DIR b1 = Ret 1 b2"
    using winode_eq[of 1 "b1\<lparr>freeinode := 2\<rparr>" din] by (simp add: mk_ialloc_def b1_def b2_def din_def Let_def)
  have s2: "mk_state 2 b2"
    using mk_ialloc_ok[OF blank_state, of T_DIR] 2 by (auto simp: b1_def numeral_2_eq_2)
  have z2: "d_size (disk_inode b2 1) = 0" "unat (freeblock b2) = 46"
    by (simp_all add: disk_inode_def b2_def load_store_size din_def) (simp add: b1_def)
  have l: "length (de_bytes 1 n) = 16" "de_bytes 1 n \<noteq> []" for n by (simp_all add: de_bytes_def)
  obtain b3 where 3: "iappend (of_nat 1) (de_bytes 1 [46]) b2 = Ret () b3" "mk_state 2 b3" "d_size (disk_inode b3 1) = 16" "unat (freeblock b3) \<le> 47"
    using iappend_small[OF s2, of 1 "de_bytes 1 [46]"] z2 l by auto
  obtain b4 where 4: "iappend (of_nat 1) (de_bytes 1 [46, 46]) b3 = Ret () b4" "mk_state 2 b4"
    using iappend_small[OF 3(2), of 1 "de_bytes 1 [46, 46]"] 3(3,4) l by auto
  have ok4: "mk_ok (disk_addrs b4) b4" using 4(2) by (simp add: mk_state_def)
  define d4 where "d4 = (disk_inode b4 1)\<lparr>d_size := (d_size (disk_inode b4 1) div 1024 + 1) * 1024\<rparr>"
  define b5 where "b5 = b4\<lparr>img := (img b4)(ib 1 := dinode_store d4 64 (img b4 (ib 1)))\<rparr>"
  have "d_addrs d4 = disk_addrs b4 1" by (simp add: d4_def disk_inode_def disk_addrs_def)
  then have "(disk_addrs b4)(1 := d_addrs d4) = disk_addrs b4" by (simp add: fun_upd_idem)
  then have "mk_ok (disk_addrs b5) b5" using winode_ok[of 1 b4 d4 b5] ok4 by (simp add: b5_def)
  then obtain b6 where 6: "mk_balloc (freeblock b5) b5 = Ret () b6" using mk_balloc_runs by blast
  have r: "rinode 1 b4 = Ret (disk_inode b4 1) b4" "winode 1 d4 b4 = Ret () b5"
    using rinode_eq[of 1 b4] winode_eq[of 1 b4 d4] mk_okD(1)[OF ok4] by (simp_all add: disk_inode_def b5_def)
  have "fix_root 1 b4 = Ret () b6" using r 6 by (simp add: fix_root_def Let_def d4_def)
  then show ?thesis using w 1 2 3(1) 4(1) by (simp add: mkfs_main_def b0_def[symmetric])
qed

section \<open>The kernel on the image\<close>

lemma sb_block_read:
  "\<lparr>magic = ld32 (sb_block x) 0, sb_size = ld32 (sb_block x) 4, nblocks = ld32 (sb_block x) 8, ninodes = ld32 (sb_block x) 12,
    nlog = ld32 (sb_block x) 16, logstart = ld32 (sb_block x) 20, inodestart = ld32 (sb_block x) 24, bmapstart = ld32 (sb_block x) 28\<rparr> = x"
  by (cases x) (simp add: sb_block_def bytes_simps)

lemma fsq_sb: "fsq pid H (s\<lparr>sb := x\<rparr>) = fsq pid H s"
  by (simp add: fsq_def fview_def lset_def)

lemma readsb_ok:
  assumes q: "fsq (wpid c) Map.empty s" and u: "used s < 30" and b: "bcontent s 1 = sb_block x"
  shows "\<exists>t. readsb c ROOTDEV s = Ret () t \<and> fsq (wpid c) Map.empty t \<and> sb t = x \<and> bcontent t = bcontent s"
proof -
  have u0: "used s + int (card (dom Map.empty)) < 30" using u by simp
  obtain bp s1 s2 where 1: "fbread c ROOTDEV 1 s = Ret bp s1" "fsq (wpid c) [1 \<mapsto> bp] s1" "same_store s s1"
      "bp_data s1 bp = bcontent s 1" "fbrelse c bp s1 = Ret () s2" "fsq (wpid c) Map.empty s2" "same_store s s2"
    by (rule bs.rd_rel[OF q _ u0]) simp_all
  have H: "([1 \<mapsto> bp])(1 := None) = Map.empty" by auto
  obtain t where t: "fbrelse c bp (s1\<lparr>sb := x\<rparr>) = Ret () t" "fsq (wpid c) Map.empty t" "same_store (s1\<lparr>sb := x\<rparr>) t"
    using fbrelse_ok[of c "[1 \<mapsto> bp]" "s1\<lparr>sb := x\<rparr>" 1 bp] 1(2) unfolding H by (auto simp: fsq_sb elim!: runsE)
  have "readsb c ROOTDEV s = Ret () t" using 1(1,4) t(1) by (simp add: readsb_def Let_def b sb_block_read)
  moreover have "bcontent (s1\<lparr>sb := x\<rparr>) = bcontent s1" by (simp add: bcontent_def fun_eq_iff)
  then have "sb t = x" "bcontent t = bcontent s" using t(3) 1(3) by (auto simp: same_store_def same_rest_def)
  ultimately show ?thesis using t(2) by blast
qed

lemma mk_done_boot:
  assumes d: "mk_done s"
  shows "\<exists>t. readsb c ROOTDEV (boot_fs (img s)) = Ret () t \<and> fsq (wpid c) Map.empty t \<and> sb t = mkfs_sb \<and> bcontent t = img s \<and>
    in_use_set t = {b. b < unat (freeblock s)} \<and> map_in_use t"
proof -
  have ok: "mk_ok (disk_addrs s) s" and bm: "img s 45 = set_bits [0..<unat (freeblock s)] (\<lambda>_. 0)"
    using d by (simp_all add: mk_done_def)
  note o = mk_okD[OF ok]
  obtain t where t: "readsb c ROOTDEV (boot_fs (img s)) = Ret () t" "fsq (wpid c) Map.empty t" "sb t = mkfs_sb" "bcontent t = img s"
    using readsb_ok[of c "boot_fs (img s)" mkfs_sb] o(4) by (auto simp: boot_fs_store)
  have n: "nblk t = 2000" by (simp add: nblk_def t(3))
  have mb: "map_block t x = 45" if "x < 2000" for x using that by (simp add: map_block_def t(3))
  have use: "in_use t x \<longleftrightarrow> x < unat (freeblock s)" if "x < 2000" for x
    using that by (simp add: in_use_def mb t(4) bm bitmap_bit)
  have "in_use_set t = {b. b < unat (freeblock s)}" using use o(3) by (auto simp: in_use_set_def n)
  moreover have "map_in_use t" unfolding map_in_use_def n
  proof (intro allI impI)
    fix b x :: nat assume b: "b < 2000" "x < 2000" "of_nat b = map_block t x"
    have "unat (of_nat b :: u32) = b" using b(1) by (intro unat_of_nat_u32) simp
    then have "b = 45" unfolding b(3) mb[OF b(2)] by simp
    then show "in_use t b" using use[of 45] o(2) by simp
  qed
  ultimately show ?thesis using t by blast
qed

end
