(* ===== verification/Fs_Read.thy ===== *)
theory Fs_Read
  imports Fs_Store Fs_Content
begin

text \<open>
  Reading a file: \<^verbatim>\<open>readi\<close> with \<^verbatim>\<open>bmap\<close>, of \<^verbatim>\<open>fs.c\<close>, against the content of the file as a sequence of bytes.
\<close>

section \<open>The content of a file\<close>

text \<open>Block \<open>k\<close> of the file of inode \<open>ip\<close>, through the direct addresses and the indirect block, and byte \<open>k\<close> of its content.\<close>

definition fblock :: "fs \<Rightarrow> nat \<Rightarrow> nat \<Rightarrow> u32" where
  "fblock s ip k = (if k < NDIRECT then i_addrs (itable s ip) k else ld32 (bcontent s (i_addrs (itable s ip) NDIRECT)) (4 * (k - NDIRECT)))"

definition file_byte :: "fs \<Rightarrow> nat \<Rightarrow> nat \<Rightarrow> u8" where
  "file_byte s ip k = bcontent s (fblock s ip (k div 1024)) (k mod 1024)"

text \<open>Every block below the size is allocated.\<close>

definition allocated_upto :: "fs \<Rightarrow> nat \<Rightarrow> bool" where
  "allocated_upto s ip \<longleftrightarrow> i_dev (itable s ip) = ROOTDEV \<and> unat (i_size (itable s ip)) \<le> 268 * 1024 \<and>
     (\<forall>k. k * 1024 < unat (i_size (itable s ip)) \<longrightarrow> fblock s ip k \<noteq> 0 \<and> (NDIRECT \<le> k \<longrightarrow> i_addrs (itable s ip) NDIRECT \<noteq> 0))"

lemma allocated_uptoD:
  assumes "allocated_upto s ip"
  shows "i_dev (itable s ip) = ROOTDEV" "unat (i_size (itable s ip)) \<le> 274432"
    "k * 1024 < unat (i_size (itable s ip)) \<Longrightarrow> fblock s ip k \<noteq> 0"
    "k * 1024 < unat (i_size (itable s ip)) \<Longrightarrow> 12 \<le> k \<Longrightarrow> i_addrs (itable s ip) 12 \<noteq> 0"
  using assms unfolding allocated_upto_def by simp_all

lemma content_same_store:
  assumes "same_store s s'"
  shows "fblock s' ip = fblock s ip" "file_byte s' ip = file_byte s ip" "allocated_upto s' ip = allocated_upto s ip"
    "itable s' = itable s" "used s' = used s"
proof -
  have e: "itable s' = itable s" "bcontent s' = bcontent s" using assms by (simp_all add: same_store_def same_rest_def)
  show f: "fblock s' ip = fblock s ip" by (rule ext) (simp add: fblock_def e)
  show "file_byte s' ip = file_byte s ip" by (rule ext) (simp add: file_byte_def e f)
  show "allocated_upto s' ip = allocated_upto s ip" using e f by (simp add: allocated_upto_def)
  show "itable s' = itable s" "used s' = used s" using assms e by (simp_all add: same_store_def)
qed

lemma bmap_ok:
  assumes q: "fsq (wpid c) Map.empty s" and u: "used s < 30" and a: "allocated_upto s ip"
    and k: "unat bn * 1024 < unat (i_size (itable s ip))"
  shows "runs (bmap c ip bn s) (\<lambda>r s'. r = fblock s ip (unat bn) \<and> fsq (wpid c) Map.empty s' \<and> same_store s s')"
proof (cases "unat bn < 12")
  case True
  then show ?thesis using q allocated_uptoD(3)[OF a k] by (simp add: bmap_def Let_def fblock_def)
next
  case False
  define b where "b = i_addrs (itable s ip) 12"
  have b0: "b \<noteq> 0" using allocated_uptoD(4)[OF a k] False by (simp add: b_def)
  have n: "unat bn - 12 < 256" using k allocated_uptoD(2)[OF a] by linarith
  have u0: "used s + int (card (dom Map.empty)) < 30" using u by simp
  obtain bp s1 s2 where 1: "fbread c ROOTDEV b s = Ret bp s1" "fsq (wpid c) [b \<mapsto> bp] s1" "same_store s s1"
      "bp_data s1 bp = bcontent s b" "fbrelse c bp s1 = Ret () s2" "fsq (wpid c) Map.empty s2" "same_store s s2"
    by (rule bs.rd_rel[OF q _ u0]) simp_all
  have f: "ld32 (bcontent s b) (4 * (unat bn - 12)) = fblock s ip (unat bn)" using False by (simp add: fblock_def b_def)
  have "bmap c ip bn s = Ret (fblock s ip (unat bn)) s2"
    using False n b0 1(1,4,5) allocated_uptoD(1,3)[OF a] k by (simp add: bmap_def Let_def b_def[symmetric] f)
  then show ?thesis using 1(6,7) by simp
qed

section \<open>The loop\<close>

lemma chunk_unat:
  assumes "0 < n"
  shows "unat (chunk off n) = min (unat n) (1024 - unat off mod 1024)"
proof -
  have m: "unat (off mod 1024) < 1024" by (simp add: unat_mod)
  have d: "unat (1024 - off mod 1024) = 1024 - unat (off mod 1024)"
    using m by (subst unat_sub) (simp_all add: word_le_nat_alt)
  then show ?thesis by (simp add: chunk_def min_def word_le_nat_alt unat_mod)
qed

lemma put_at_join:
  assumes "\<And>k. k < m \<Longrightarrow> src k = g k" "\<And>k. src' k = g (m + k)"
  shows "put_at (put_at f i src m) (i + m) src' r = put_at f i g (m + r)"
proof
  fix k
  consider "k < i" | "i \<le> k" "k < i + m" | "i + m \<le> k" by linarith
  then show "put_at (put_at f i src m) (i + m) src' r k = put_at f i g (m + r) k"
  proof cases
    case 2
    then show ?thesis using assms(1)[of "k - i"] by (simp add: put_at_def)
  next
    case 3
    then show ?thesis using assms(2)[of "k - (i + m)"] by (simp add: put_at_def)
  qed (simp add: put_at_def)
qed

lemma block_offset:
  assumes "a mod 1024 + k < (1024 :: nat)"
  shows "(a + k) div 1024 = a div 1024 \<and> (a + k) mod 1024 = a mod 1024 + k"
proof -
  have e: "a + k = (a mod 1024 + k) + a div 1024 * 1024" using div_mult_mod_eq[of a 1024] by linarith
  have "((a mod 1024 + k) + a div 1024 * 1024) div 1024 = a div 1024" "((a mod 1024 + k) + a div 1024 * 1024) mod 1024 = a mod 1024 + k"
    using assms by (simp_all only: div_mult_self1 mod_mult_self1 div_less mod_less)
  then show ?thesis unfolding e[symmetric] by blast
qed

text \<open>One turn of the loop copies the part of a block that is asked for.\<close>

lemma readi_turn:
  assumes q: "fsq (wpid c) Map.empty s" "used s < 30" "allocated_upto s ip" and lt: "tot < n" and off: "unat off < unat (i_size (itable s ip))"
    and m: "m = chunk off (n - tot)"
  obtains s' where "fsq (wpid c) Map.empty s'" "same_store s s'" "readi_loop c ip (ToLocal f i) off tot n s =
    readi_loop c ip (ToLocal (put_at f i (\<lambda>j. file_byte s ip (unat off + j)) (unat m)) (i + unat m)) (off + m) (tot + m) n s'"
proof -
  have div: "unat (off div 1024) = unat off div 1024" by (simp add: unat_div)
  have k: "unat (off div 1024) * 1024 < unat (i_size (itable s ip))" using off unfolding div by linarith
  define b where "b = fblock s ip (unat off div 1024)"
  obtain s1 where s1: "bmap c ip (off div 1024) s = Ret b s1" "fsq (wpid c) Map.empty s1" "same_store s s1"
    using bmap_ok[OF q k] unfolding div b_def[symmetric] by (auto elim!: runsE)
  have b0: "b \<noteq> 0" using allocated_uptoD(3)[OF q(3)] k unfolding b_def div by blast
  note c1 = content_same_store[OF s1(3)]
  have u0: "used s1 + int (card (dom Map.empty)) < 30" using q(2) c1(5) by simp
  obtain bp s2 s3 where 2: "fbread c ROOTDEV b s1 = Ret bp s2" "bp_data s2 bp = bcontent s1 b" "fbrelse c bp s2 = Ret () s3"
      "fsq (wpid c) Map.empty s3" "same_store s1 s3"
    by (rule bs.rd_rel[OF s1(2) _ u0]) simp_all
  define src where "src = (\<lambda>j. bcontent s b (unat (off mod 1024) + j))"
  have bc: "bcontent s1 = bcontent s" using s1(3) by (simp add: same_store_def)
  have um64: "unat (ucast m :: u64) = unat m" using unat_less_u32[of m] by (simp add: unsigned_ucast_eq take_bit_nat_eq_self_iff)
  have step: "readi_loop c ip (ToLocal f i) off tot n s =
      readi_loop c ip (ToLocal (put_at f i src (unat m)) (i + unat m)) (off + m) (tot + m) n s3"
    using lt s1(1) b0 2(1-3) allocated_uptoD(1)[OF q(3)]
    by (subst readi_loop.simps) (simp add: c1(4) m[symmetric] Let_def on_mem_def either_copyout_def src_def bc um64)
  have pos: "0 < n - tot" using lt by (simp add: word_less_nat_alt unat_sub word_le_nat_alt)
  have "put_at f i src (unat m) = put_at f i (\<lambda>j. file_byte s ip (unat off + j)) (unat m)"
  proof
    fix k
    have "src j = file_byte s ip (unat off + j)" if "j < unat m" for j
    proof -
      have "unat off mod 1024 + j < 1024" using that unfolding m chunk_unat[OF pos] by linarith
      from block_offset[OF this] show ?thesis by (simp add: src_def file_byte_def b_def unat_mod)
    qed
    then show "put_at f i src (unat m) k = put_at f i (\<lambda>j. file_byte s ip (unat off + j)) (unat m) k" by (auto simp: put_at_def)
  qed
  then show thesis using that[OF 2(4) same_store_trans[OF s1(3) 2(5)]] step by simp
qed

lemma readi_loop_ok:
  assumes "fsq (wpid c) Map.empty s" "used s < 30" "allocated_upto s ip" "tot \<le> n"
    "unat off + unat (n - tot) \<le> unat (i_size (itable s ip))"
  shows "runs (readi_loop c ip (ToLocal f i) off tot n s) (\<lambda>(r, dst) s'. r = n \<and>
    local_of dst = put_at f i (\<lambda>k. file_byte s ip (unat off + k)) (unat (n - tot)) \<and> fsq (wpid c) Map.empty s' \<and> same_store s s')"
  using assms
proof (induction "unat (n - tot)" arbitrary: f i off tot s rule: less_induct)
  case less
  show ?case
  proof (cases "tot < n")
    case False
    then have "tot = n" using less(5) by simp
    moreover have "put_at f i (\<lambda>k. file_byte s ip (unat off + k)) 0 = f" by (rule ext) (auto simp: put_at_def)
    ultimately show ?thesis using less(2) by (simp add: readi_loop.simps[of c ip _ off n n])
  next
    case True
    define m where "m = chunk off (n - tot)"
    have pos: "0 < n - tot" using True by (simp add: word_less_nat_alt unat_sub word_le_nat_alt)
    have mle: "m \<le> n - tot" and mpos: "0 < unat m"
      unfolding m_def using chunk_bounds[OF pos, of off] by (simp_all add: word_less_nat_alt)
    then have um: "unat m \<le> unat (n - tot)" by (simp add: word_le_nat_alt)
    have nm: "unat (n - (tot + m)) = unat (n - tot) - unat m" using mle by (simp add: diff_diff_eq[symmetric] unat_sub)
    have "unat off + unat m < 2 ^ 32" using um less(6) unat_less_u32[of "i_size (itable s ip)"] by linarith
    then have om: "unat (off + m) = unat off + unat m" by (simp add: unat_word_ariths)
    have off: "unat off < unat (i_size (itable s ip))" using less(6) pos by (simp add: word_less_nat_alt)
    obtain s' where s': "fsq (wpid c) Map.empty s'" "same_store s s'" and step: "readi_loop c ip (ToLocal f i) off tot n s =
        readi_loop c ip (ToLocal (put_at f i (\<lambda>j. file_byte s ip (unat off + j)) (unat m)) (i + unat m)) (off + m) (tot + m) n s'"
      by (rule readi_turn[OF less(2-4) True off m_def])
    note same = content_same_store[OF s'(2)]
    let ?f = "put_at f i (\<lambda>j. file_byte s ip (unat off + j)) (unat m)"
    have ih: "runs (readi_loop c ip (ToLocal ?f (i + unat m)) (off + m) (tot + m) n s') (\<lambda>(r, dst) t. r = n \<and>
        local_of dst = put_at ?f (i + unat m) (\<lambda>k. file_byte s' ip (unat (off + m) + k)) (unat (n - (tot + m))) \<and>
        fsq (wpid c) Map.empty t \<and> same_store s' t)"
    proof (rule less(1))
      show "unat (n - (tot + m)) < unat (n - tot)" using nm mpos um by simp
      have "unat (n - tot) = unat n - unat tot" "unat tot \<le> unat n" using less(5) by (simp_all add: unat_sub word_le_nat_alt)
      then have "unat tot + unat m \<le> unat n" using um by simp
      then show "tot + m \<le> n" by (simp add: word_le_nat_alt unat_word_ariths order_trans[OF mod_less_eq_dividend])
      show "unat (off + m) + unat (n - (tot + m)) \<le> unat (i_size (itable s' ip))" using less(6) om nm um same(4) by simp
    qed (use s'(1) less(3,4) same in simp_all)
    have "put_at ?f (i + unat m) (\<lambda>k. file_byte s' ip (unat (off + m) + k)) (unat (n - (tot + m))) =
        put_at f i (\<lambda>k. file_byte s ip (unat off + k)) (unat m + (unat (n - tot) - unat m))"
      unfolding om nm same(2) by (rule put_at_join) (simp_all add: add.assoc)
    also have "unat m + (unat (n - tot) - unat m) = unat (n - tot)" using um by simp
    finally have e: "put_at ?f (i + unat m) (\<lambda>k. file_byte s' ip (unat (off + m) + k)) (unat (n - (tot + m))) =
        put_at f i (\<lambda>k. file_byte s ip (unat off + k)) (unat (n - tot))" .
    show ?thesis unfolding step
      by (rule runs_mono[OF ih[unfolded e]]) (use same_store_trans[OF s'(2)] in \<open>simp split: prod.splits\<close>)
  qed
qed

section \<open>Property\<close>


text \<open>A file of six bytes in block 60.\<close>

definition demo_rfs :: fs where
  "demo_rfs = (boot_fs (\<lambda>b k. if b = 60 then of_nat k else 0))\<lparr>itable := (\<lambda>_. boot_inode\<lparr>i_dev := ROOTDEV, i_size := 6, i_addrs := (\<lambda>_. 60)\<rparr>)\<rparr>"


end
