(* ===== verification/Vm_Tree.thy ===== *)
theory Vm_Tree
  imports Vm
begin

text \<open>
  The page tables of \<^verbatim>\<open>kernel/vm.c\<close> as trees. \<open>tree m l pt\<close> says that the page at \<open>pt\<close> is the root
  of a table of \<open>l + 1\<close> levels whose table pages, \<open>tables m l pt\<close>, are aligned, not null and
  pairwise distinct; \<open>pte_of m l pt va\<close> is the entry the hardware finds for \<open>va\<close>. The lemmas say
  how the entry function and the set of table pages change when \<open>walk\<close> hangs a new page into the
  tree and when an entry is written.
\<close>

section \<open>Entries of a table page\<close>

lemma unat_and_mask9: "unat (x AND 0x1FF :: u64) = unat x mod 512"
proof -
  have "x AND 0x1FF = take_bit 9 x"
    by (simp add: take_bit_eq_mask mask_eq_exp_minus_1)
  then show ?thesis by (simp add: unat_mod take_bit_eq_mod)
qed

definition px :: "nat \<Rightarrow> u64 \<Rightarrow> nat" where
  "px l va = unat (PX l va)"

lemma px_less: "px l va < 512"
  by (simp add: px_def PX_def unat_and_mask9)

definition slot :: "u64 \<Rightarrow> nat \<Rightarrow> u64" where
  "slot pt i = pt + 8 * of_nat i"

lemma slot_px: "pt + 8 * PX l va = slot pt (px l va)"
  by (simp add: slot_def px_def)

lemma unat_slot:
  assumes "aligned pt" "i < 512"
  shows "unat (slot pt i) = unat pt + 8 * i"
proof -
  have "unat (8 * of_nat i :: u64) = 8 * i"
    using assms(2) by (simp add: unat_mult_lem[THEN iffD1] unat_word_ariths unat_of_nat)
  moreover have "unat pt + 8 * i < 2 ^ 64"
  proof -
    obtain k where "unat pt = 4096 * k" using assms(1) by (auto simp: aligned_iff)
    then show ?thesis using unat_less_u64[of pt] assms(2) by simp
  qed
  ultimately show ?thesis
    unfolding slot_def by (subst unat_plus_if_size) (simp add: word_size)
qed

lemma slot_cell: "aligned pt \<Longrightarrow> i < 512 \<Longrightarrow> unat (slot pt i) mod 8 = 0"
  using aligned_cell[of pt] by (simp add: unat_slot mod_add_left_eq[symmetric])

lemma pfn_slot:
  assumes "aligned pt" "i < 512"
  shows "pfn (slot pt i) = pfn pt"
proof -
  obtain k where "unat pt = 4096 * k" using assms(1) by (auto simp: aligned_iff)
  then show ?thesis using assms by (simp add: pfn_def unat_slot)
qed

lemma slot_eq_iff:
  "aligned pt \<Longrightarrow> i < 512 \<Longrightarrow> j < 512 \<Longrightarrow> slot pt i = slot pt j \<longleftrightarrow> i = j"
  by (auto simp: word_unat_eq_iff unat_slot)

lemma bit_4095: "bit (4095 :: int) n \<longleftrightarrow> n < 12"
  using bit_mask_iff[of 12 n, where ?'a = int] by (simp add: mask_eq_exp_minus_1)

lemma bit_1023: "bit (1023 :: int) n \<longleftrightarrow> n < 10"
  using bit_mask_iff[of 10 n, where ?'a = int] by (simp add: mask_eq_exp_minus_1)

lemma aligned_bits: "aligned p \<longleftrightarrow> (\<forall>n < 12. \<not> bit p n)"
proof -
  have lt: "n < 64" if "n < 12" for n :: nat using that by simp
  show ?thesis
    by (auto simp: aligned_def bit_eq_iff bit_and_iff bit_4095) (meson lt)
qed

lemma PTE2PA_aligned: "aligned (PTE2PA e)"
  by (simp add: aligned_bits PTE2PA_def bit_simps)

lemma PTE2PA_PA2PTE:
  assumes "aligned r" "drop_bit 10 f = 0"
  shows "PTE2PA (PA2PTE r OR f) = r"
proof (rule bit_word_eqI)
  fix n :: nat
  assume n: "n < LENGTH(64)"
  have lo: "\<not> bit r n" if "n < 12"
    using assms(1) that by (simp add: aligned_bits)
  have hi: "\<not> bit f k" if "10 \<le> k" "k < 64" for k
    using assms(2) that bit_drop_bit_eq[of 10 f] by (auto simp: fun_eq_iff dest: spec[of _ "k - 10"])
  show "bit (PTE2PA (PA2PTE r OR f)) n = bit r n"
  proof (cases "n < 12")
    case True
    then show ?thesis using lo by (simp add: PTE2PA_def bit_simps)
  next
    case False
    then have "n = 12 + (n - 12)" "10 \<le> n - 2" "n - 2 < 64" using n by simp_all
    then show ?thesis
      using False n hi[of "n - 2"] by (simp add: PTE2PA_def PA2PTE_def bit_simps)
  qed
qed

lemma PA2PTE_valid: "(PA2PTE r OR f OR 1) AND 1 \<noteq> 0"
proof
  assume "(PA2PTE r OR f OR 1) AND 1 = 0"
  then have "bit ((PA2PTE r OR f OR 1) AND 1) 0 = bit (0 :: u64) 0" by simp
  then show False by (simp add: bit_simps)
qed

section \<open>Table trees\<close>

definition ent :: "mem \<Rightarrow> u64 \<Rightarrow> nat \<Rightarrow> u64" where
  "ent m pt i = ld64 m (slot pt i)"

abbreviation (input) valid :: "u64 \<Rightarrow> bool" where
  "valid e \<equiv> e AND 1 \<noteq> 0"

primrec tables :: "mem \<Rightarrow> nat \<Rightarrow> u64 \<Rightarrow> u64 set" where
  "tables m 0 pt = {pt}"
| "tables m (Suc l) pt =
     insert pt (\<Union>i \<in> {i. i < 512 \<and> valid (ent m pt i)}. tables m l (PTE2PA (ent m pt i)))"

primrec tree :: "mem \<Rightarrow> nat \<Rightarrow> u64 \<Rightarrow> bool" where
  "tree m 0 pt \<longleftrightarrow> aligned pt \<and> pt \<noteq> 0"
| "tree m (Suc l) pt \<longleftrightarrow> aligned pt \<and> pt \<noteq> 0 \<and>
     (\<forall>i < 512. valid (ent m pt i) \<longrightarrow>
        tree m l (PTE2PA (ent m pt i)) \<and> pt \<notin> tables m l (PTE2PA (ent m pt i))) \<and>
     (\<forall>i < 512. \<forall>j < 512. i \<noteq> j \<longrightarrow> valid (ent m pt i) \<longrightarrow> valid (ent m pt j) \<longrightarrow>
        tables m l (PTE2PA (ent m pt i)) \<inter> tables m l (PTE2PA (ent m pt j)) = {})"

primrec ptw :: "mem \<Rightarrow> nat \<Rightarrow> u64 \<Rightarrow> u64 \<Rightarrow> u64 option" where
  "ptw m 0 pt va = Some (slot pt (px 0 va))"
| "ptw m (Suc l) pt va =
     (let e = ent m pt (px (Suc l) va) in if valid e then ptw m l (PTE2PA e) va else None)"

definition pte_of :: "mem \<Rightarrow> nat \<Rightarrow> u64 \<Rightarrow> u64 \<Rightarrow> u64" where
  "pte_of m l pt va = (case ptw m l pt va of None \<Rightarrow> 0 | Some a \<Rightarrow> ld64 m a)"

definition agree_on :: "u64 set \<Rightarrow> mem \<Rightarrow> mem \<Rightarrow> bool" where
  "agree_on P m m' \<longleftrightarrow> (\<forall>p \<in> P. \<forall>x. pfn x = pfn p \<longrightarrow> m' x = m x)"

definition changes_only :: "u64 set \<Rightarrow> mem \<Rightarrow> mem \<Rightarrow> bool" where
  "changes_only P m m' \<longleftrightarrow> (\<forall>x. (\<forall>p \<in> P. pfn x \<noteq> pfn p) \<longrightarrow> m' x = m x)"

lemma agree_on_subset: "agree_on P m m' \<Longrightarrow> Q \<subseteq> P \<Longrightarrow> agree_on Q m m'"
  by (auto simp: agree_on_def)

lemma changes_agree:
  assumes "changes_only P m m'" "P \<inter> Q = {}"
    "\<And>p. p \<in> P \<Longrightarrow> aligned p" "\<And>q. q \<in> Q \<Longrightarrow> aligned q"
  shows "agree_on Q m m'"
  unfolding agree_on_def
proof (intro ballI allI impI)
  fix q x
  assume q: "q \<in> Q" and x: "pfn x = pfn q"
  have "pfn x \<noteq> pfn p" if "p \<in> P" for p
  proof
    assume "pfn x = pfn p"
    then have "p = q" using aligned_same_page[of p q] assms(3,4) that q x by metis
    then show False using assms(2) that q by auto
  qed
  then show "m' x = m x" using assms(1) by (simp add: changes_only_def)
qed

lemma tables_root: "pt \<in> tables m l pt"
  by (cases l) auto

lemma tree_aligned: "tree m l pt \<Longrightarrow> p \<in> tables m l pt \<Longrightarrow> aligned p \<and> p \<noteq> 0"
proof (induction l arbitrary: pt)
  case 0
  then show ?case by simp
next
  case (Suc l)
  then show ?case by fastforce
qed

lemma ent_agree:
  assumes "agree_on {pt} m m'" "aligned pt" "i < 512"
  shows "ent m' pt i = ent m pt i"
  unfolding ent_def
proof (rule ld64_page_cong)
  show "unat (slot pt i) mod 8 = 0" using assms(2,3) by (rule slot_cell)
  show "m' x = m x" if "pfn x = pfn (slot pt i)" for x
    using assms that by (simp add: agree_on_def pfn_slot)
qed

lemma tree_agree:
  assumes "tree m l pt" "agree_on (tables m l pt) m m'"
  shows "tree m' l pt \<and> tables m' l pt = tables m l pt \<and> (\<forall>va. ptw m' l pt va = ptw m l pt va)"
  using assms
proof (induction l arbitrary: pt)
  case 0
  then show ?case by simp
next
  case (Suc l)
  have al: "aligned pt" using Suc.prems(1) by simp
  have e: "ent m' pt i = ent m pt i" if "i < 512" for i
    using Suc.prems(2) al that by (intro ent_agree) (auto elim: agree_on_subset)
  have IH: "tree m' l (PTE2PA (ent m pt i)) \<and>
      tables m' l (PTE2PA (ent m pt i)) = tables m l (PTE2PA (ent m pt i)) \<and>
      (\<forall>va. ptw m' l (PTE2PA (ent m pt i)) va = ptw m l (PTE2PA (ent m pt i)) va)"
    if "i < 512" "valid (ent m pt i)" for i
    using Suc.prems that by (intro Suc.IH) (auto elim!: agree_on_subset)
  have set: "{i. i < 512 \<and> valid (ent m' pt i)} = {i. i < 512 \<and> valid (ent m pt i)}"
    using e by auto
  have "tables m' (Suc l) pt = tables m (Suc l) pt"
    using IH e unfolding tables.simps set by auto
  moreover have "ptw m' (Suc l) pt va = ptw m (Suc l) pt va" for va
    using IH e px_less by (simp add: Let_def)
  moreover have "tree m' (Suc l) pt"
    using Suc.prems(1) IH e by simp
  ultimately show ?case by blast
qed


lemma pte_of_0: "pte_of m 0 pt va = ent m pt (px 0 va)"
  by (simp add: pte_of_def ent_def)

lemma pte_of_Suc:
  "pte_of m (Suc l) pt va =
     (let e = ent m pt (px (Suc l) va) in if valid e then pte_of m l (PTE2PA e) va else 0)"
  by (simp add: pte_of_def Let_def)

lemma ptw_slot:
  "tree m l pt \<Longrightarrow> ptw m l pt va = Some a \<Longrightarrow> \<exists>p \<in> tables m l pt. a = slot p (px 0 va)"
proof (induction l arbitrary: pt)
  case 0
  then show ?case by simp
next
  case (Suc l)
  let ?e = "ent m pt (px (Suc l) va)"
  have v: "valid ?e" "ptw m l (PTE2PA ?e) va = Some a"
    using Suc.prems(2) by (auto simp: Let_def split: if_splits)
  then have "tree m l (PTE2PA ?e)" using Suc.prems(1) px_less by simp
  then obtain p where "p \<in> tables m l (PTE2PA ?e)" "a = slot p (px 0 va)"
    using Suc.IH v(2) by blast
  then show ?case using v(1) px_less by auto
qed

lemma ptw_aligned:
  assumes "tree m l pt" "ptw m l pt va = Some a"
  shows "unat a mod 8 = 0 \<and> a \<noteq> 0 \<and> (\<exists>p \<in> tables m l pt. pfn a = pfn p)"
proof -
  obtain p where p: "p \<in> tables m l pt" "a = slot p (px 0 va)"
    using ptw_slot[OF assms] by blast
  then have "aligned p" "p \<noteq> 0" using tree_aligned[OF assms(1)] by auto
  then show ?thesis
    using p(1) px_less[of 0 va] slot_cell[of p] pfn_slot[of p] unat_slot[of p]
    unfolding p(2) word_unat_eq_iff by auto
qed

lemma pte_of_agree:
  assumes "tree m l pt" "agree_on (tables m l pt) m m'"
  shows "pte_of m' l pt va = pte_of m l pt va"
proof (cases "ptw m l pt va")
  case None
  then show ?thesis using tree_agree[OF assms] by (simp add: pte_of_def)
next
  case (Some a)
  have "ld64 m' a = ld64 m a"
  proof (rule ld64_page_cong)
    show "unat a mod 8 = 0" using ptw_aligned[OF assms(1) Some] by simp
    show "m' x = m x" if "pfn x = pfn a" for x
      using ptw_aligned[OF assms(1) Some] assms(2) that by (auto simp: agree_on_def)
  qed
  then show ?thesis using Some tree_agree[OF assms] by (simp add: pte_of_def)
qed

text \<open>The tables below entry \<open>i\<close> of the table at \<open>pt\<close>.\<close>

definition below :: "mem \<Rightarrow> nat \<Rightarrow> u64 \<Rightarrow> nat \<Rightarrow> u64 set" where
  "below m l pt i = (if valid (ent m pt i) then tables m l (PTE2PA (ent m pt i)) else {})"

lemma tables_Suc: "tables m (Suc l) pt = insert pt (\<Union>i < 512. below m l pt i)"
  by (auto simp: below_def split: if_splits)

lemma tree_Suc:
  "tree m (Suc l) pt \<longleftrightarrow> aligned pt \<and> pt \<noteq> 0 \<and>
     (\<forall>i < 512. valid (ent m pt i) \<longrightarrow> tree m l (PTE2PA (ent m pt i))) \<and>
     (\<forall>i < 512. pt \<notin> below m l pt i) \<and>
     (\<forall>i < 512. \<forall>j < 512. i \<noteq> j \<longrightarrow> below m l pt i \<inter> below m l pt j = {})"
  unfolding below_def tree.simps by (simp; blast)

declare tables.simps(2) [simp del] tree.simps(2) [simp del]

lemma tree_child:
  assumes "tree m (Suc l) pt" "i < 512" "valid (ent m pt i)"
  shows "tree m l (PTE2PA (ent m pt i))" "below m l pt i = tables m l (PTE2PA (ent m pt i))"
    "pt \<notin> tables m l (PTE2PA (ent m pt i))"
    "tables m l (PTE2PA (ent m pt i)) \<subseteq> tables m (Suc l) pt"
proof -
  show b: "below m l pt i = tables m l (PTE2PA (ent m pt i))" using assms by (simp add: below_def)
  show "tree m l (PTE2PA (ent m pt i))" using assms by (simp add: tree_Suc)
  show "pt \<notin> tables m l (PTE2PA (ent m pt i))" using assms b by (auto simp: tree_Suc)
  show "tables m l (PTE2PA (ent m pt i)) \<subseteq> tables m (Suc l) pt"
    using assms(2) b by (auto simp: tables_Suc)
qed

lemma tree_root_aligned: "tree m l pt \<Longrightarrow> aligned pt"
  by (cases l) (auto simp: tree_Suc)

lemma below_agree:
  assumes "tree m (Suc l) pt" "j < 512" "ent m' pt j = ent m pt j" "agree_on (below m l pt j) m m'"
  shows "below m' l pt j = below m l pt j"
    and "valid (ent m pt j) \<Longrightarrow> tree m' l (PTE2PA (ent m pt j))"
    and "valid (ent m pt j) \<Longrightarrow> ptw m' l (PTE2PA (ent m pt j)) va = ptw m l (PTE2PA (ent m pt j)) va"
    and "valid (ent m pt j) \<Longrightarrow>
      pte_of m' l (PTE2PA (ent m pt j)) va = pte_of m l (PTE2PA (ent m pt j)) va"
proof -
  have *: "tree m l (PTE2PA (ent m pt j))" "agree_on (tables m l (PTE2PA (ent m pt j))) m m'"
    if "valid (ent m pt j)"
    using assms that by (auto simp: tree_Suc below_def)
  show "below m' l pt j = below m l pt j"
    using tree_agree[OF *] assms(3) by (simp add: below_def)
  show "valid (ent m pt j) \<Longrightarrow> tree m' l (PTE2PA (ent m pt j))"
    "valid (ent m pt j) \<Longrightarrow> ptw m' l (PTE2PA (ent m pt j)) va = ptw m l (PTE2PA (ent m pt j)) va"
    using tree_agree[OF *] by simp_all
  show "valid (ent m pt j) \<Longrightarrow>
      pte_of m' l (PTE2PA (ent m pt j)) va = pte_of m l (PTE2PA (ent m pt j)) va"
    using pte_of_agree[OF *] by simp
qed

text \<open>
  One entry of a table is redirected or the tree below it changes, with the new table pages
  \<open>U\<close>, while the other entries and the trees below them stay: the result is a tree again.
\<close>

lemma tree_update:
  assumes t: "tree m (Suc l) pt" and i: "i < 512"
    and e: "\<And>j. j < 512 \<Longrightarrow> j \<noteq> i \<Longrightarrow> ent m' pt j = ent m pt j"
    and v: "valid (ent m' pt i)" "tree m' l (PTE2PA (ent m' pt i))"
    and b: "below m' l pt i = below m l pt i \<union> U" "U \<inter> tables m (Suc l) pt = {}"
    and c: "changes_only ({pt} \<union> below m l pt i \<union> U) m m'" "\<And>u. u \<in> U \<Longrightarrow> aligned u"
  shows "tree m' (Suc l) pt" "tables m' (Suc l) pt = tables m (Suc l) pt \<union> U"
    and "\<And>j. j < 512 \<Longrightarrow> j \<noteq> i \<Longrightarrow> agree_on (below m l pt j) m m'"
proof -
  have al: "aligned p" if "p \<in> tables m (Suc l) pt" for p using tree_aligned[OF t that] by simp
  have sub: "below m l pt j \<subseteq> tables m (Suc l) pt" if "j < 512" for j
    using that by (auto simp: tables_Suc)
  have dis: "pt \<notin> below m l pt j" "j \<noteq> k \<Longrightarrow> below m l pt j \<inter> below m l pt k = {}"
    if "j < 512" "k < 512" for j k
    using t that by (auto simp: tree_Suc)
  show ag: "agree_on (below m l pt j) m m'" if "j < 512" "j \<noteq> i" for j
  proof (rule changes_agree[OF c(1)])
    show "({pt} \<union> below m l pt i \<union> U) \<inter> below m l pt j = {}"
      using dis[OF that(1) i] dis(2)[OF that(1) i that(2)] b(2) sub[OF that(1)] by blast
    show "aligned p" if "p \<in> {pt} \<union> below m l pt i \<union> U" for p
      using that al[of p] sub[OF i] c(2) tables_root by blast
    show "aligned q" if "q \<in> below m l pt j" for q
      using that al sub[OF \<open>j < 512\<close>] by blast
  qed
  note same = below_agree[OF t _ e ag]
  have "below m' l pt j = (if j = i then below m l pt i \<union> U else below m l pt j)" if "j < 512" for j
    using same(1)[of j] b(1) that by auto
  note b' = this
  show "tables m' (Suc l) pt = tables m (Suc l) pt \<union> U"
    using b' i by (auto simp: tables_Suc split: if_splits)
  have ptU: "pt \<notin> U" using b(2) tables_root by blast
  have Ub: "U \<inter> below m l pt j = {}" if "j < 512" for j using b(2) sub[OF that] by blast
  have "tree m' l (PTE2PA (ent m' pt j))" if "j < 512" "valid (ent m' pt j)" for j
    using same(2)[of j] v that e[of j] by (cases "j = i") auto
  moreover have "pt \<notin> below m' l pt j" if "j < 512" for j
    using b'[OF that] dis(1)[OF that i] dis(1)[OF i i] ptU by auto
  moreover have "below m' l pt j \<inter> below m' l pt k = {}" if "j < 512" "k < 512" "j \<noteq> k" for j k
    using b'[OF that(1)] b'[OF that(2)] dis(2)[OF that] Ub[OF that(1)] Ub[OF that(2)] that(3)
    by (auto split: if_splits)
  ultimately show "tree m' (Suc l) pt"
    using t by (auto simp: tree_Suc)
qed


section \<open>Walking\<close>

lemma changes_only_mono: "changes_only P m m' \<Longrightarrow> P \<subseteq> Q \<Longrightarrow> changes_only Q m m'"
  unfolding changes_only_def by blast

lemma changes_only_trans:
  "changes_only P m m' \<Longrightarrow> changes_only Q m' m'' \<Longrightarrow> P \<union> Q \<subseteq> R \<Longrightarrow> changes_only R m m''"
  unfolding changes_only_def by (metis UnCI subsetD)

lemma same_but_changes: "same_but p m m' \<Longrightarrow> p \<in> P \<Longrightarrow> changes_only P m m'"
  by (auto simp: same_but_def changes_only_def)

text \<open>A zeroed page is a table without entries.\<close>

lemma zero_page_tree:
  assumes "aligned r" "r \<noteq> 0" "\<And>x. pfn x = pfn r \<Longrightarrow> m x = 0"
  shows "tree m l r" "tables m l r = {r}" "pte_of m l r va = 0"
proof -
  have e: "ent m r i = 0" if "i < 512" for i
  proof -
    have "ld64 m (slot r i) = ld64 (\<lambda>_. 0) (slot r i)"
      using assms that by (intro ld64_page_cong) (auto simp: slot_cell pfn_slot)
    then show ?thesis by (simp add: ent_def ld64_def le64_def le32_def)
  qed
  show "tree m l r" using assms e by (cases l) (auto simp: tree_Suc below_def)
  show "tables m l r = {r}" using e by (cases l) (auto simp: tables_Suc below_def)
  show "pte_of m l r va = 0" using e px_less by (cases l) (auto simp: pte_of_0 pte_of_Suc)
qed

text \<open>The contract of \<open>walk\<close> with allocation, from a state \<open>s\<close> to a state \<open>s'\<close>.\<close>

definition extends :: "nat \<Rightarrow> u64 \<Rightarrow> kmem \<Rightarrow> u64 list \<Rightarrow> kmem \<Rightarrow> u64 list \<Rightarrow> bool" where
  "extends l pt s used s' fl' \<longleftrightarrow>
     kmem_inv s' fl' \<and> kend s' = kend s \<and> tree (phys s') l pt \<and>
     tables (phys s') l pt = tables (phys s) l pt \<union> set used \<and>
     changes_only (tables (phys s) l pt \<union> set used) (phys s) (phys s') \<and>
     (\<forall>va. pte_of (phys s') l pt va = pte_of (phys s) l pt va)"

lemma extends_refl: "kmem_inv s fl \<Longrightarrow> tree (phys s) l pt \<Longrightarrow> extends l pt s [] s fl"
  by (simp add: extends_def changes_only_def)

lemma kmem_inv_phys:
  assumes "kmem_inv s fl" "agree_on (set fl) (phys s) m"
  shows "kmem_inv (s\<lparr>phys := m\<rparr>) fl"
  using assms chain_cong[of fl m "phys s" "freelist s"]
  by (auto simp: kmem_inv_def agree_on_def page_ok_def)

lemma kmem_inv_aligned: "kmem_inv s fl \<Longrightarrow> p \<in> set fl \<Longrightarrow> aligned p \<and> p \<noteq> 0"
  by (auto simp: kmem_inv_def page_ok_def)

lemma extends_child:
  assumes t: "tree (phys s) (Suc l) pt" and i: "i < 512" and v: "valid (ent (phys s) pt i)"
    and x: "extends l (PTE2PA (ent (phys s) pt i)) s used s' fl'"
    and u: "set used \<inter> tables (phys s) (Suc l) pt = {}" "\<And>u. u \<in> set used \<Longrightarrow> aligned u"
  shows "extends (Suc l) pt s used s' fl'" and "ent (phys s') pt i = ent (phys s) pt i"
proof -
  let ?m = "phys s" and ?m' = "phys s'" and ?c = "PTE2PA (ent (phys s) pt i)"
  have al: "aligned pt" and b: "below ?m l pt i = tables ?m l ?c" "pt \<notin> tables ?m l ?c"
    using tree_child[OF t i v] tree_root_aligned[OF t] by simp_all
  have ptu: "pt \<notin> set used" using u(1) tables_root by blast
  note sub = tree_child(4)[OF t i v]
  have ch: "changes_only (tables ?m l ?c \<union> set used) ?m ?m'" using x by (simp add: extends_def)
  have "agree_on {pt} ?m ?m'"
  proof (rule changes_agree[OF ch])
    show "(tables ?m l ?c \<union> set used) \<inter> {pt} = {}" using b(2) ptu by auto
    show "aligned p" if "p \<in> tables ?m l ?c \<union> set used" for p
      using that sub u(2) tree_aligned[OF t] by blast
  qed (simp add: al)
  then have e: "ent ?m' pt j = ent ?m pt j" if "j < 512" for j
    using ent_agree al that by blast
  show ei: "ent ?m' pt i = ent ?m pt i" using e i by blast
  have b': "below ?m' l pt i = below ?m l pt i \<union> set used" and ti: "tree ?m' l (PTE2PA (ent ?m' pt i))"
    using x v ei b(1) by (simp_all add: below_def extends_def)
  have ch': "changes_only ({pt} \<union> below ?m l pt i \<union> set used) ?m ?m'"
    using ch b(1) by (auto simp: changes_only_def)
  have vi: "valid (ent ?m' pt i)" using v ei by simp
  have eo: "ent ?m' pt j = ent ?m pt j" if "j < 512" "j \<noteq> i" for j using e that(1) .
  note up = tree_update[OF t i eo vi ti b' u(1) ch' u(2), simplified]
  have "pte_of ?m' (Suc l) pt va = pte_of ?m (Suc l) pt va" for va
  proof (cases "px (Suc l) va = i")
    case True
    then show ?thesis using x ei by (simp add: pte_of_Suc extends_def Let_def)
  next
    case False
    then show ?thesis
      using below_agree(4)[OF t px_less e up(3)[OF px_less False]] e px_less by (simp add: pte_of_Suc Let_def)
  qed
  moreover have "changes_only (tables ?m (Suc l) pt \<union> set used) ?m ?m'"
    using ch sub by (blast intro: changes_only_mono)
  ultimately show "extends (Suc l) pt s used s' fl'"
    using x up(1,2) by (simp add: extends_def)
qed


lemma ent_st64:
  assumes "aligned pt" "i < 512" "j < 512"
  shows "ent (st64 m (slot pt i) v) pt j = (if j = i then v else ent m pt j)"
  using assms slot_cell[of pt] slot_eq_iff[of pt i j] by (auto simp: ent_def ld64_st64 ld64_st64_other)

text \<open>Hanging a fresh zeroed page under an entry that is not valid.\<close>

lemma tree_new_child:
  assumes t: "tree m (Suc l) pt" and i: "i < 512" and nv: "\<not> valid (ent m pt i)"
    and r: "aligned r" "r \<noteq> 0" "r \<notin> tables m (Suc l) pt" and sb: "same_but r m m1"
    and m': "m' = st64 (memset m1 r 0 4096) (slot pt i) (PA2PTE r OR 1)"
  shows "tree m' (Suc l) pt" "tables m' (Suc l) pt = insert r (tables m (Suc l) pt)"
    "changes_only {pt, r} m m'" "changes_only {pt, r} m1 m'"
    "pte_of m' (Suc l) pt va = pte_of m (Suc l) pt va"
    "ent m' pt i = PA2PTE r OR 1"
proof -
  let ?m2 = "memset m1 r 0 4096"
  have al: "aligned pt" and ne: "pt \<noteq> r" using t r tables_root by (auto simp: tree_Suc)
  have pf: "pfn pt \<noteq> pfn r" using ne al r(1) aligned_same_page by blast
  have sb2: "same_but r m ?m2" using sb same_but_memset[OF r(1)] by (rule same_but_trans)
  have sb3: "same_but pt ?m2 m'"
    unfolding m' using al i by (intro same_but_st64) (auto simp: slot_cell pfn_slot)
  show ch: "changes_only {pt, r} m m'"
    using same_but_changes[OF sb2, of "{pt, r}"] same_but_changes[OF sb3, of "{pt, r}"]
    by (auto intro: changes_only_trans)
  show "changes_only {pt, r} m1 m'"
    using same_but_changes[OF same_but_memset[OF r(1), of m1 0], of "{pt, r}"]
      same_but_changes[OF sb3, of "{pt, r}"] by (auto intro: changes_only_trans)
  have "agree_on {pt} m ?m2" using sb2 pf by (auto simp: agree_on_def same_but_def)
  then have e2: "ent ?m2 pt j = ent m pt j" if "j < 512" for j using ent_agree al that by blast
  have e: "ent m' pt j = (if j = i then PA2PTE r OR 1 else ent m pt j)" if "j < 512" for j
    unfolding m' using e2 that by (simp add: ent_st64[OF al i])
  show ei: "ent m' pt i = PA2PTE r OR 1" using e i by simp
  have vi: "valid (ent m' pt i)" using PA2PTE_valid[of r 0] ei by simp
  have c: "PTE2PA (ent m' pt i) = r" using PTE2PA_PA2PTE[OF r(1), of 1] ei by simp
  have z: "m' x = 0" if "pfn x = pfn r" for x
    using sb3 that pf memset_page[OF r(1), of m1 0] by (auto simp: same_but_def)
  note zt = zero_page_tree[OF r(1,2) z]
  have b0: "below m l pt i = {}" using nv by (simp add: below_def)
  have b: "below m' l pt i = below m l pt i \<union> {r}" using vi c zt(2) b0 by (simp add: below_def)
  have ti: "tree m' l (PTE2PA (ent m' pt i))" using c zt(1) by simp
  have ch': "changes_only ({pt} \<union> below m l pt i \<union> {r}) m m'" using ch b0 by (simp add: insert_commute)
  have eo: "ent m' pt j = ent m pt j" if "j < 512" "j \<noteq> i" for j using e that by simp
  have ru: "{r} \<inter> tables m (Suc l) pt = {}" "\<And>u. u \<in> {r} \<Longrightarrow> aligned u" using r by auto
  note up = tree_update[OF t i eo vi ti b ru(1) ch' ru(2), simplified]
  show "tree m' (Suc l) pt" "tables m' (Suc l) pt = insert r (tables m (Suc l) pt)"
    using up(1,2) by auto
  show "pte_of m' (Suc l) pt va = pte_of m (Suc l) pt va"
  proof (cases "px (Suc l) va = i")
    case True
    then show ?thesis using nv zt(3) c by (simp add: pte_of_Suc Let_def)
  next
    case False
    then show ?thesis
      using below_agree(4)[OF t px_less eo up(3)[OF px_less False]] eo px_less
      by (simp add: pte_of_Suc Let_def)
  qed
qed

lemma extends_trans:
  assumes "extends l pt s us s1 fl1" "extends l pt s1 us' s2 fl2"
  shows "extends l pt s (us @ us') s2 fl2"
  using assms
  by (auto simp: extends_def intro: changes_only_trans)

definition walked :: "nat \<Rightarrow> u64 \<Rightarrow> u64 \<Rightarrow> kmem \<Rightarrow> u64 list \<Rightarrow> u64 \<Rightarrow> kmem \<Rightarrow> bool" where
  "walked l pt va s fl a s' \<longleftrightarrow>
     (\<exists>used fl'. fl = used @ fl' \<and> extends l pt s used s' fl' \<and>
        (if a = 0 then fl' = [] else ptw (phys s') l pt va = Some a))"

lemma walkedI:
  assumes "extends l pt s used s' fl'" "a = 0 \<Longrightarrow> fl' = []"
    "a \<noteq> 0 \<Longrightarrow> ptw (phys s') l pt va = Some a"
  shows "walked l pt va s (used @ fl') a s'"
  unfolding walked_def using assms by (intro exI[of _ used] exI[of _ fl']) simp

lemma walked_trans:
  assumes "extends l pt s us s1 fl1" "walked l pt va s1 fl1 a s2"
  shows "walked l pt va s (us @ fl1) a s2"
proof -
  obtain us' fl2 where w: "fl1 = us' @ fl2" "extends l pt s1 us' s2 fl2"
      "if a = 0 then fl2 = [] else ptw (phys s2) l pt va = Some a"
    using assms(2) unfolding walked_def by blast
  show ?thesis
    unfolding w(1) append_assoc[symmetric]
    using w(3) by (intro walkedI[OF extends_trans[OF assms(1) w(2)]]) (simp_all split: if_splits)
qed

lemma walk_loop_alloc:
  assumes "kmem_inv s fl" "tree (phys s) l pt" "tables (phys s) l pt \<inter> set fl = {}"
  shows "runs (walk_loop l pt va True s) (walked l pt va s fl)"
  using assms
proof (induction l arbitrary: pt s fl)
  case 0
  then have "extends 0 pt s [] s fl" by (intro extends_refl)
  moreover have "slot pt (px 0 va) \<noteq> 0" using ptw_aligned[OF 0(2), of va] by simp
  ultimately show ?case
    by (simp add: walked_def slot_px) (rule exI[of _ "[]"], simp)
next
  case (Suc l)
  let ?i = "px (Suc l) va" and ?e = "ent (phys s) pt (px (Suc l) va)"
  have i: "?i < 512" by (rule px_less)
  have pte: "pt + 8 * PX (Suc l) va = slot pt ?i" by (simp add: slot_px)
  have child: "runs (walk_loop l (PTE2PA (ent (phys s1) pt ?i)) va True s1)
      (walked (Suc l) pt va s1 fl1)"
    if "kmem_inv s1 fl1" "tree (phys s1) (Suc l) pt" "tables (phys s1) (Suc l) pt \<inter> set fl1 = {}"
      "valid (ent (phys s1) pt ?i)" for s1 fl1
  proof -
    let ?c = "PTE2PA (ent (phys s1) pt ?i)"
    have c: "tree (phys s1) l ?c" "tables (phys s1) l ?c \<subseteq> tables (phys s1) (Suc l) pt"
      using tree_child[OF that(2) i that(4)] by simp_all
    have "runs (walk_loop l ?c va True s1) (walked l ?c va s1 fl1)"
      using that c by (intro Suc.IH) auto
    then show ?thesis
    proof (rule runs_mono)
      fix a s2
      assume "walked l ?c va s1 fl1 a s2"
      then obtain us fl2 where w: "fl1 = us @ fl2" "extends l ?c s1 us s2 fl2"
          "if a = 0 then fl2 = [] else ptw (phys s2) l ?c va = Some a"
        unfolding walked_def by blast
      have u: "set us \<inter> tables (phys s1) (Suc l) pt = {}" "u \<in> set us \<Longrightarrow> aligned u" for u
        using that(1,3) w(1) kmem_inv_aligned[of s1 fl1] by auto
      note xc = extends_child[OF that(2) i that(4) w(2) u]
      show "walked (Suc l) pt va s1 fl1 a s2"
        unfolding w(1) using w(3) that(4) xc(2)
        by (intro walkedI[OF xc(1)]) (simp_all add: Let_def split: if_splits)
    qed
  qed
  show ?case
  proof (cases "valid ?e")
    case True
    then show ?thesis using child[OF Suc.prems True] pte by (simp add: ent_def Let_def)
  next
    case False
    show ?thesis
    proof (cases fl)
      case Nil
      then have "kalloc s = Ret 0 s" using Suc.prems(1) kalloc_empty by simp
      then show ?thesis
        using False pte Nil extends_refl[OF Suc.prems(1,2)] by (simp add: ent_def Let_def walked_def)
    next
      case (Cons r fl1)
      then obtain s1 where s1: "kalloc s = Ret r s1" "kmem_inv s1 fl1"
          "same_but r (phys s) (phys s1)" "kend s1 = kend s"
        using kalloc_ok[of s r fl1] Suc.prems(1) by (auto elim!: runsE)
      let ?m = "st64 (memset (phys s1) r 0 4096) (slot pt ?i) (PA2PTE r OR 1)"
      let ?s2 = "s1\<lparr>phys := ?m\<rparr>"
      have r: "aligned r" "r \<noteq> 0" "r \<notin> tables (phys s) (Suc l) pt" "r \<notin> set fl1"
        using kmem_inv_aligned[OF Suc.prems(1)] Suc.prems(1,3) Cons by (auto simp: kmem_inv_def)
      note nc = tree_new_child[OF Suc.prems(2) i False r(1-3) s1(3) refl]
      have "pt \<notin> set fl" "aligned pt"
        using Suc.prems(2,3) tables_root[of pt "phys s" "Suc l"] by (auto simp: tree_Suc)
      then have "agree_on (set fl1) (phys s1) ?m"
        using r(1,4) Cons kmem_inv_aligned[OF s1(2)] by (intro changes_agree[OF nc(4)]) auto
      then have inv: "kmem_inv ?s2 fl1" by (rule kmem_inv_phys[OF s1(2)])
      have x: "extends (Suc l) pt s [r] ?s2 fl1"
        using inv nc s1(4) tables_root[of pt "phys s" "Suc l"]
          changes_only_trans[OF nc(3), of "{}" ?m]
        by (auto simp: extends_def changes_only_def)
      have "runs (walk_loop l (PTE2PA (ent ?m pt ?i)) va True ?s2) (walked (Suc l) pt va ?s2 fl1)"
        using child[of ?s2 fl1] inv nc r(4) Suc.prems(3) Cons PA2PTE_valid[of r 0] by simp
      moreover have "PTE2PA (ent ?m pt ?i) = r"
        using nc(6) PTE2PA_PA2PTE[OF r(1), of 1] by simp
      ultimately have "runs (walk_loop l r va True ?s2) (walked (Suc l) pt va s fl)"
        using walked_trans[OF x] Cons by (auto elim!: runs_mono)
      then show ?thesis
        using False s1(1) r(2) pte by (simp add: ent_def Let_def)
    qed
  qed
qed


lemma walk_loop_no_alloc:
  "walk_loop l pt va False s = Ret (case ptw (phys s) l pt va of None \<Rightarrow> 0 | Some a \<Rightarrow> a) s"
  by (induction l arbitrary: pt) (auto simp: slot_px ent_def Let_def)

section \<open>Writing an entry\<close>

definition same_path :: "nat \<Rightarrow> u64 \<Rightarrow> u64 \<Rightarrow> bool" where
  "same_path l va va' \<longleftrightarrow> (\<forall>k \<le> l. px k va = px k va')"

lemma same_path_Suc: "same_path (Suc l) va va' \<longleftrightarrow> px (Suc l) va = px (Suc l) va' \<and> same_path l va va'"
  by (auto simp: same_path_def le_Suc_eq)

lemma leaf_update:
  assumes "tree m l pt" "ptw m l pt va = Some a"
  shows "tree (st64 m a v) l pt \<and> tables (st64 m a v) l pt = tables m l pt \<and>
    ptw (st64 m a v) l pt va' = ptw m l pt va' \<and>
    changes_only (tables m l pt) m (st64 m a v) \<and>
    pte_of (st64 m a v) l pt va' = (if same_path l va va' then v else pte_of m l pt va')"
  using assms
proof (induction l arbitrary: pt)
  case 0
  have a: "a = slot pt (px 0 va)" and al: "aligned pt" using 0 by simp_all
  have "same_but pt m (st64 m a v)"
    using al px_less by (auto simp: a slot_cell pfn_slot intro: same_but_st64)
  then show ?case
    using 0 ent_st64[OF al px_less px_less, of m 0 va v 0 va'] 
    by (auto simp: pte_of_0 a same_path_def same_but_def changes_only_def)
next
  case (Suc l)
  let ?m' = "st64 m a v" and ?i = "px (Suc l) va"
  let ?c = "PTE2PA (ent m pt ?i)"
  have v: "valid (ent m pt ?i)" "ptw m l ?c va = Some a"
    using Suc.prems(2) by (auto simp: Let_def split: if_splits)
  note tc = tree_child[OF Suc.prems(1) px_less v(1)]
  have t: "tree m l ?c" "aligned pt" "pt \<notin> tables m l ?c" and b: "below m l pt ?i = tables m l ?c"
    using tc tree_root_aligned[OF Suc.prems(1)] by simp_all
  note IH = Suc.IH[OF t(1) v(2)]
  have "agree_on {pt} m ?m'"
    using IH t tree_aligned[OF t(1)] by (intro changes_agree[of "tables m l ?c"]) auto
  then have e: "ent ?m' pt j = ent m pt j" if "j < 512" for j using ent_agree t(2) that by blast
  have vi: "valid (ent ?m' pt ?i)" "tree ?m' l (PTE2PA (ent ?m' pt ?i))"
    using v(1) e[OF px_less] IH by simp_all
  have b': "below ?m' l pt ?i = below m l pt ?i \<union> {}" using IH b e[OF px_less] v(1) by (simp add: below_def)
  note sub = tc(4)
  have ch: "changes_only ({pt} \<union> below m l pt ?i \<union> {}) m ?m'"
    using IH b by (auto simp: changes_only_def)
  have eo: "ent ?m' pt j = ent m pt j" if "j < 512" "j \<noteq> ?i" for j using e that(1) .
  note up = tree_update[OF Suc.prems(1) px_less eo vi b' _ ch, simplified]
  have "ptw ?m' (Suc l) pt va' = ptw m (Suc l) pt va' \<and>
     pte_of ?m' (Suc l) pt va' = (if same_path (Suc l) va va' then v else pte_of m (Suc l) pt va')"
  proof (cases "px (Suc l) va' = ?i")
    case True
    then show ?thesis using IH v(1) e[OF px_less] by (simp add: pte_of_Suc Let_def same_path_Suc)
  next
    case False
    then show ?thesis
      using below_agree(3,4)[OF Suc.prems(1) px_less eo up(3)[OF px_less False]] e px_less False
      by (auto simp: pte_of_Suc Let_def same_path_Suc)
  qed
  moreover have "changes_only (tables m (Suc l) pt) m ?m'"
    using IH sub by (blast intro: changes_only_mono)
  ultimately show ?case using up(1,2) by simp
qed

end
