(* ===== verification/Vm_Map.thy ===== *)
theory Vm_Map
  imports Vm_Tree
begin

text \<open>
  What \<^verbatim>\<open>mappages\<close> and \<^verbatim>\<open>uvmunmap\<close> of \<^verbatim>\<open>kernel/vm.c\<close> do to the entries of a page table, to its
  table pages and to the free list. \<open>vm s fl pt\<close> is the invariant, \<open>remaps\<close> the frame condition of
  a routine that maps pages.
\<close>

lemma px_div: "px l va = unat va div 2 ^ (12 + 9 * l) mod 512"
  by (simp add: px_def PX_def unat_and_mask9 unat_drop_bit_eq) (simp add: drop_bit_eq_div)

lemma digits_eq:
  fixes q q' :: nat
  assumes "q < 512 * 512 * 512" "q' < 512 * 512 * 512"
    and "q mod 512 = q' mod 512" "q div 512 mod 512 = q' div 512 mod 512"
    and "q div 512 div 512 mod 512 = q' div 512 div 512 mod 512"
  shows "q = q'"
proof -
  have "q div 512 div 512 < 512" "q' div 512 div 512 < 512"
    using assms(1,2) by (simp_all add: div_mult2_eq[symmetric])
  then have "q div 512 div 512 = q' div 512 div 512" using assms(5) by simp
  then have "q div 512 = q' div 512" using assms(4) by (metis div_mult_mod_eq)
  then show ?thesis using assms(3) by (metis div_mult_mod_eq)
qed

lemma same_path_page:
  assumes "va < MAXVA" "va' < MAXVA"
  shows "same_path 2 va va' \<longleftrightarrow> pfn va = pfn va'"
proof -
  have lt: "unat va div 4096 < 512 * 512 * 512" "unat va' div 4096 < 512 * 512 * 512"
    using assms by (auto simp: word_less_nat_alt unat_MAXVA)
  have p: "px 0 w = unat w div 4096 mod 512" "px 1 w = unat w div 4096 div 512 mod 512"
    "px 2 w = unat w div 4096 div 512 div 512 mod 512" for w
    by (simp_all add: px_div div_mult2_eq[symmetric])
  have "same_path 2 va va' \<longleftrightarrow> px 0 va = px 0 va' \<and> px 1 va = px 1 va' \<and> px 2 va = px 2 va'"
    by (auto simp: same_path_def numeral_2_eq_2 le_Suc_eq)
  then show ?thesis
    unfolding p pfn_def using digits_eq[OF lt] by auto
qed


section \<open>The view of a user or kernel page table\<close>

text \<open>
  \<open>vm s fl pt\<close>: the allocator is well formed with free list \<open>fl\<close>, and \<open>pt\<close> is the root of a
  three-level tree none of whose table pages is free.
\<close>

definition vm :: "kmem \<Rightarrow> u64 list \<Rightarrow> u64 \<Rightarrow> bool" where
  "vm s fl pt \<longleftrightarrow> kmem_inv s fl \<and> tree (phys s) 2 pt \<and> tables (phys s) 2 pt \<inter> set fl = {}"

abbreviation pte :: "kmem \<Rightarrow> u64 \<Rightarrow> u64 \<Rightarrow> u64" where
  "pte s pt va \<equiv> pte_of (phys s) 2 pt va"

abbreviation tbl :: "kmem \<Rightarrow> u64 \<Rightarrow> u64 set" where
  "tbl s pt \<equiv> tables (phys s) 2 pt"

lemma walk_alloc:
  assumes "vm s fl pt" "va < MAXVA"
  shows "runs (walk pt va True s) (walked 2 pt va s fl)"
  using assms walk_loop_alloc[of s fl 2 pt va] by (simp add: walk_def vm_def)

lemma walk_no_alloc:
  "va < MAXVA \<Longrightarrow> walk pt va False s = Ret (case ptw (phys s) 2 pt va of None \<Rightarrow> 0 | Some a \<Rightarrow> a) s"
  by (simp add: walk_def walk_loop_no_alloc)

text \<open>What a routine that maps pages may do: take pages from the front of the free list for
  new tables, write table pages, change entries as \<open>f\<close> says.\<close>

definition remaps :: "u64 \<Rightarrow> kmem \<Rightarrow> u64 list \<Rightarrow> kmem \<Rightarrow> u64 list \<Rightarrow> (u64 \<Rightarrow> u64) \<Rightarrow> bool" where
  "remaps pt s fl s' fl' f \<longleftrightarrow>
     (\<exists>used. fl = used @ fl' \<and> tbl s' pt = tbl s pt \<union> set used \<and>
        changes_only (tbl s pt \<union> set used) (phys s) (phys s')) \<and>
     vm s' fl' pt \<and> kend s' = kend s \<and> (\<forall>va. va < MAXVA \<longrightarrow> pte s' pt va = f va)"

lemma remaps_trans:
  assumes "remaps pt s fl s1 fl1 f" "remaps pt s1 fl1 s2 fl2 g"
  shows "remaps pt s fl s2 fl2 g"
proof -
  obtain us us' where
    u: "fl = us @ fl1" "tbl s1 pt = tbl s pt \<union> set us" "changes_only (tbl s pt \<union> set us) (phys s) (phys s1)"
      "fl1 = us' @ fl2" "tbl s2 pt = tbl s1 pt \<union> set us'"
      "changes_only (tbl s1 pt \<union> set us') (phys s1) (phys s2)"
    using assms unfolding remaps_def by blast
  have "changes_only (tbl s pt \<union> set (us @ us')) (phys s) (phys s2)"
    using changes_only_trans[OF u(3,6), of "tbl s pt \<union> set (us @ us')"] u(2) by auto
  moreover have "fl = (us @ us') @ fl2" "tbl s2 pt = tbl s pt \<union> set (us @ us')"
    using u by auto
  ultimately show ?thesis
    using assms unfolding remaps_def by auto
qed

lemma walked_remaps:
  assumes "vm s fl pt" "walked 2 pt va s fl a s'"
  shows "\<exists>fl'. remaps pt s fl s' fl' (pte s pt) \<and>
    (if a = 0 then fl' = [] else ptw (phys s') 2 pt va = Some a)"
proof -
  obtain used fl' where w: "fl = used @ fl'" "extends 2 pt s used s' fl'"
      "if a = 0 then fl' = [] else ptw (phys s') 2 pt va = Some a"
    using assms(2) unfolding walked_def by blast
  have "set used \<inter> set fl' = {}" using assms(1) w(1) by (auto simp: vm_def kmem_inv_def)
  then have "vm s' fl' pt"
    using assms(1) w(1,2) by (auto simp: vm_def extends_def)
  then have "remaps pt s fl s' fl' (pte s pt)"
    using w(1,2) by (auto simp: remaps_def extends_def)
  then show ?thesis using w(3) by blast
qed

text \<open>Writing an entry that a walk has found.\<close>

lemma entry_write:
  assumes "vm s fl pt" "ptw (phys s) 2 pt va = Some a" "va < MAXVA"
  shows "remaps pt s fl (s\<lparr>phys := st64 (phys s) a v\<rparr>) fl
    (\<lambda>va'. if pfn va' = pfn va then v else pte s pt va')"
proof -
  let ?m = "st64 (phys s) a v"
  have t: "tree (phys s) 2 pt" and d: "tbl s pt \<inter> set fl = {}" and inv: "kmem_inv s fl"
    using assms(1) by (auto simp: vm_def)
  note up = leaf_update[OF t assms(2), of v]
  have "agree_on (set fl) (phys s) ?m"
    using up d tree_aligned[OF t] kmem_inv_aligned[OF inv] by (intro changes_agree[of "tbl s pt"]) auto
  then have "kmem_inv (s\<lparr>phys := ?m\<rparr>) fl" by (rule kmem_inv_phys[OF inv])
  then show ?thesis
    using up d same_path_page[OF assms(3)] by (auto simp: remaps_def vm_def)
qed

section \<open>Mapping pages\<close>

text \<open>The entries after \<open>n\<close> pages at \<open>a\<close> have been mapped to the pages at \<open>pa\<close>.\<close>

definition map_range :: "(u64 \<Rightarrow> u64) \<Rightarrow> u64 \<Rightarrow> nat \<Rightarrow> u64 \<Rightarrow> u64 \<Rightarrow> u64 \<Rightarrow> u64" where
  "map_range f a n pa perm va =
     (if unat a \<le> unat va \<and> unat va < unat a + n * 4096
      then PA2PTE (pa + (PGROUNDDOWN va - a)) OR perm OR PTE_V else f va)"

lemma map_range_0 [simp]: "map_range f a 0 pa perm = f"
  by (auto simp: map_range_def fun_eq_iff)

lemma map_range_Suc:
  assumes "aligned a" "unat a + 4096 < 2 ^ 64"
  shows "map_range f a (Suc n) pa perm =
    map_range (\<lambda>va. if pfn va = pfn a then PA2PTE pa OR perm OR PTE_V else f va)
      (a + 4096) n (pa + 4096) perm"
proof
  fix va :: u64
  have n: "unat (a + 4096) = unat a + 4096"
    using assms(2) by (subst unat_plus_if_size) (simp add: word_size)
  obtain k where k: "unat a = 4096 * k" using assms(1) by (auto simp: aligned_iff)
  consider "unat va < unat a" | "unat va div 4096 = k" | "unat a + 4096 \<le> unat va"
    using k by linarith
  then show "map_range f a (Suc n) pa perm va = map_range (\<lambda>va. if pfn va = pfn a then PA2PTE pa OR perm OR PTE_V else f va)
      (a + 4096) n (pa + 4096) perm va"
  proof cases
    case 1
    then show ?thesis using n k by (auto simp: map_range_def pfn_def)
  next
    case 2
    then have "PGROUNDDOWN va = a" using k by (simp add: word_unat_eq_iff unat_PGROUNDDOWN)
    then show ?thesis using 2 n k by (auto simp: map_range_def pfn_def)
  next
    case 3
    then have "unat va div 4096 \<noteq> k" using k by auto
    then show ?thesis using 3 n k by (auto simp: map_range_def pfn_def algebra_simps)
  qed
qed

lemma map_step:
  assumes "vm s fl pt" "a < MAXVA" "\<not> valid (pte s pt a)"
  shows "runs (walk pt a True s) (\<lambda>p s1.
    if p = 0 then remaps pt s fl s1 [] (pte s pt)
    else \<not> valid (ld64 (phys s1) p) \<and> (\<exists>fl1. remaps pt s fl (s1\<lparr>phys := st64 (phys s1) p v\<rparr>) fl1
           (\<lambda>va. if pfn va = pfn a then v else pte s pt va)))"
proof (rule runs_mono[OF walk_alloc[OF assms(1,2)]])
  fix p s1
  assume "walked 2 pt a s fl p s1"
  then obtain fl1 where r: "remaps pt s fl s1 fl1 (pte s pt)"
      and p: "if p = 0 then fl1 = [] else ptw (phys s1) 2 pt a = Some p"
    using walked_remaps[OF assms(1)] by blast
  show "if p = 0 then remaps pt s fl s1 [] (pte s pt)
    else \<not> valid (ld64 (phys s1) p) \<and> (\<exists>fl1. remaps pt s fl (s1\<lparr>phys := st64 (phys s1) p v\<rparr>) fl1
           (\<lambda>va. if pfn va = pfn a then v else pte s pt va))"
  proof (cases "p = 0")
    case True
    then show ?thesis using r p by simp
  next
    case False
    then have w: "ptw (phys s1) 2 pt a = Some p" using p by simp
    have same: "pte s1 pt va = pte s pt va" if "va < MAXVA" for va
      using r that by (simp add: remaps_def)
    have "ld64 (phys s1) p = pte s pt a"
      using same[OF assms(2)] w by (simp add: pte_of_def)
    moreover have "vm s1 fl1 pt" using r by (simp add: remaps_def)
    then have "remaps pt s1 fl1 (s1\<lparr>phys := st64 (phys s1) p v\<rparr>) fl1
        (\<lambda>va. if pfn va = pfn a then v else pte s1 pt va)"
      by (rule entry_write[OF _ w assms(2)])
    then have "remaps pt s1 fl1 (s1\<lparr>phys := st64 (phys s1) p v\<rparr>) fl1
        (\<lambda>va. if pfn va = pfn a then v else pte s pt va)"
      using same by (simp add: remaps_def)
    ultimately show ?thesis
      using False assms(3) remaps_trans[OF r] by auto
  qed
qed

lemma remaps_cong:
  "remaps pt s fl s' fl' f \<Longrightarrow> (\<And>va. va < MAXVA \<Longrightarrow> f va = g va) \<Longrightarrow> remaps pt s fl s' fl' g"
  by (simp add: remaps_def)

lemma map_range_cong:
  "(\<And>va. va < MAXVA \<Longrightarrow> f va = g va) \<Longrightarrow> va < MAXVA \<Longrightarrow>
   map_range f a n pa perm va = map_range g a n pa perm va"
  by (simp add: map_range_def)

lemma remaps_map_range:
  assumes "remaps pt s fl s1 fl1 f" "remaps pt s1 fl1 s2 fl2 (map_range (pte s1 pt) a n pa perm)"
  shows "remaps pt s fl s2 fl2 (map_range f a n pa perm)"
proof (rule remaps_cong[OF remaps_trans[OF assms]])
  show "map_range (pte s1 pt) a n pa perm va = map_range f a n pa perm va" if "va < MAXVA" for va
    using assms(1) that by (intro map_range_cong) (auto simp: remaps_def)
qed

lemma mappages_loop_ok:
  assumes "vm s fl pt" "aligned a" "unat a + Suc n * 4096 \<le> unat MAXVA"
    and "\<And>va. unat a \<le> unat va \<Longrightarrow> unat va < unat a + Suc n * 4096 \<Longrightarrow> \<not> valid (pte s pt va)"
  shows "runs (mappages_loop pt a (a + of_nat n * 4096) pa perm s) (\<lambda>r s'. \<exists>fl'.
     r = 0 \<and> remaps pt s fl s' fl' (map_range (pte s pt) a (Suc n) pa perm) \<or>
     r = -1 \<and> fl' = [] \<and> (\<exists>k \<le> n. remaps pt s fl s' fl' (map_range (pte s pt) a k pa perm)))"
  using assms
proof (induction n arbitrary: a pa s fl)
  case 0
  let ?v = "PA2PTE pa OR perm OR PTE_V"
  have a: "a < MAXVA" using "0.prems"(3) by (simp add: word_less_nat_alt)
  have "map_range (pte s pt) a (Suc 0) pa perm = (\<lambda>va. if pfn va = pfn a then ?v else pte s pt va)"
    using "0.prems"(2,3) by (subst map_range_Suc) (simp_all add: unat_MAXVA)
  then show ?case
    using map_step[OF "0.prems"(1) a "0.prems"(4), of ?v]
    by (subst mappages_loop.simps) (auto simp: runs_bnd split: if_splits elim!: runs_mono)
next
  case (Suc n)
  let ?v = "PA2PTE pa OR perm OR PTE_V" and ?lst = "a + of_nat (Suc n) * 4096"
  let ?f = "\<lambda>va. if pfn va = pfn a then ?v else pte s pt va"
  have a: "a < MAXVA" using Suc.prems(3) by (simp add: word_less_nat_alt)
  have na: "unat (a + 4096) = unat a + 4096" using a by (simp add: unat_next_va word_less_nat_alt)
  have lst: "?lst = (a + 4096) + of_nat n * 4096" by (simp add: algebra_simps)
  have ne: "a \<noteq> ?lst"
  proof
    assume "a = ?lst"
    then have "of_nat (Suc n * 4096) = (0 :: u64)" by simp
    then have "2 ^ LENGTH(64) dvd Suc n * 4096" by (simp only: word_of_nat_eq_0_iff)
    then have "2 ^ LENGTH(64) \<le> Suc n * 4096" by (rule dvd_imp_le) simp
    then show False using Suc.prems(3) by (simp add: unat_MAXVA)
  qed
  have mr: "map_range (pte s pt) a (Suc k) pa perm = map_range ?f (a + 4096) k (pa + 4096) perm" for k
    using Suc.prems(2) na a by (intro map_range_Suc) (simp_all add: unat_MAXVA word_less_nat_alt)
  have nv0: "\<not> valid (pte s pt a)" using Suc.prems(4)[of a] by simp
  show ?case
  proof (subst mappages_loop.simps, subst runs_bnd, rule runs_mono[OF map_step[OF Suc.prems(1) a nv0, of ?v]], goal_cases)
    case (1 p s1)
    show ?case
    proof (cases "p = 0")
      case True
      then show ?thesis using 1 by (auto intro!: exI[of _ 0])
    next
      case False
      let ?s2 = "s1\<lparr>phys := st64 (phys s1) p ?v\<rparr>"
      obtain fl1 where r: "remaps pt s fl ?s2 fl1 ?f" and nv: "\<not> valid (ld64 (phys s1) p)"
        using 1 False by auto
      have vm2: "vm ?s2 fl1 pt" and f: "\<And>va. va < MAXVA \<Longrightarrow> pte ?s2 pt va = ?f va"
        using r by (simp_all add: remaps_def)
      have "\<not> valid (pte ?s2 pt va)"
        if "unat (a + 4096) \<le> unat va" "unat va < unat (a + 4096) + Suc n * 4096" for va
        using that na Suc.prems(2,3) Suc.prems(4)[of va] f[of va]
        by (auto simp: word_less_nat_alt pfn_def aligned_iff elim!: dvdE)
      moreover have "aligned (a + 4096)" using Suc.prems(2) na by (simp add: aligned_iff)
      moreover have "unat (a + 4096) + Suc n * 4096 \<le> unat MAXVA" using Suc.prems(3) na by simp
      ultimately have "runs (mappages_loop pt (a + 4096) ?lst (pa + 4096) perm ?s2) (\<lambda>r s'. \<exists>fl'.
         r = 0 \<and> remaps pt ?s2 fl1 s' fl' (map_range (pte ?s2 pt) (a + 4096) (Suc n) (pa + 4096) perm) \<or>
         r = -1 \<and> fl' = [] \<and>
           (\<exists>k \<le> n. remaps pt ?s2 fl1 s' fl' (map_range (pte ?s2 pt) (a + 4096) k (pa + 4096) perm)))"
        unfolding lst using Suc.IH[OF vm2] by blast
      then have "runs (mappages_loop pt (a + 4096) ?lst (pa + 4096) perm ?s2) (\<lambda>r s'. \<exists>fl'.
         r = 0 \<and> remaps pt s fl s' fl' (map_range (pte s pt) a (Suc (Suc n)) pa perm) \<or>
         r = -1 \<and> fl' = [] \<and> (\<exists>k \<le> Suc n. remaps pt s fl s' fl' (map_range (pte s pt) a k pa perm)))"
      proof (rule runs_mono, elim exE disjE conjE, goal_cases)
        case (1 q s' fl')
        then show ?case using remaps_map_range[OF r 1(3)] by (simp only: mr) blast
      next
        case (2 q s' fl' k)
        then have "remaps pt s fl s' fl' (map_range (pte s pt) a (Suc k) pa perm)"
          using remaps_map_range[OF r 2(5)] by (simp only: mr)
        then show ?case using 2 by (intro exI[of _ fl'] disjI2 conjI exI[of _ "Suc k"]) simp_all
      qed
      then show ?thesis using False nv ne by (simp add: Let_def)
    qed
  qed
qed


section \<open>Removing mappings\<close>

lemma vm_other_page:
  assumes "vm s fl pt" "same_but p (phys s) (phys s')" "aligned p" "p \<notin> tbl s pt"
    "kmem_inv s' fl'" "set fl' \<subseteq> insert p (set fl)"
  shows "vm s' fl' pt" "tbl s' pt = tbl s pt" "pte s' pt va = pte s pt va"
    "ptw (phys s') 2 pt va = ptw (phys s) 2 pt va"
proof -
  have t: "tree (phys s) 2 pt" using assms(1) by (simp add: vm_def)
  have ag: "agree_on (tbl s pt) (phys s) (phys s')"
    using assms(3,4) tree_aligned[OF t] same_but_changes[OF assms(2), of "{p}"]
    by (intro changes_agree[of "{p}"]) auto
  note ta = tree_agree[OF t ag]
  show "tbl s' pt = tbl s pt" "ptw (phys s') 2 pt va = ptw (phys s) 2 pt va" using ta by simp_all
  show "pte s' pt va = pte s pt va" by (rule pte_of_agree[OF t ag])
  show "vm s' fl' pt" using ta assms by (auto simp: vm_def)
qed

lemma vm_kfree:
  assumes "vm s fl pt" "page_ok (kend s) p" "p \<notin> set fl" "p \<notin> tbl s pt"
  shows "runs (kfree p s) (\<lambda>_ s'. vm s' (p # fl) pt \<and> tbl s' pt = tbl s pt \<and> kend s' = kend s \<and>
    (\<forall>va. pte s' pt va = pte s pt va \<and> ptw (phys s') 2 pt va = ptw (phys s) 2 pt va))"
proof -
  have "kmem_inv s fl" using assms(1) by (simp add: vm_def)
  then obtain s' where s': "kfree p s = Ret () s'" "kmem_inv s' (p # fl)"
      "same_but p (phys s) (phys s')" "kend s' = kend s"
    using kfree_ok[OF _ assms(2,3)] by (auto elim!: runsE)
  show ?thesis
    using vm_other_page[OF assms(1) s'(3) page_okD[OF assms(2)] assms(4) s'(2)] s'(1,4) by simp
qed

definition frames :: "kmem \<Rightarrow> u64 \<Rightarrow> u64 \<Rightarrow> nat \<Rightarrow> u64 list" where
  "frames s pt a n = map (\<lambda>i. PTE2PA (pte s pt (a + of_nat i * 4096))) [0..<n]"

definition in_range :: "u64 \<Rightarrow> nat \<Rightarrow> u64 \<Rightarrow> bool" where
  "in_range a n va \<longleftrightarrow> unat a \<le> unat va \<and> unat va < unat a + n * 4096"

definition leaf :: "u64 \<Rightarrow> bool" where
  "leaf e \<longleftrightarrow> valid e \<and> PTE_FLAGS e \<noteq> PTE_V"

text \<open>The pages to be freed are allocated, distinct and no table of this page table.\<close>

definition owned :: "kmem \<Rightarrow> u64 list \<Rightarrow> u64 \<Rightarrow> u64 list \<Rightarrow> bool" where
  "owned s fl pt ps \<longleftrightarrow> distinct ps \<and> (\<forall>p \<in> set ps. page_ok (kend s) p) \<and>
     set ps \<inter> (set fl \<union> tbl s pt) = {}"

lemma frames_Suc: "frames s pt a (Suc n) = PTE2PA (pte s pt a) # frames s pt (a + 4096) n"
  by (auto simp: frames_def upt_conv_Cons map_Suc_upt[symmetric] algebra_simps simp del: upt_Suc)

lemma frames_cong:
  "(\<And>i. i < n \<Longrightarrow> pte s pt (a + of_nat i * 4096) = pte s' pt (a + of_nat i * 4096)) \<Longrightarrow>
   frames s pt a n = frames s' pt a n"
  by (simp add: frames_def)

lemma unat_page_i:
  "unat a + n * 4096 \<le> unat MAXVA \<Longrightarrow> i < n \<Longrightarrow> unat (a + of_nat i * 4096 :: u64) = unat a + i * 4096"
  by (simp add: unat_MAXVA unat_word_ariths unat_of_nat)

lemma in_range_Suc:
  assumes "aligned a" "unat a < unat MAXVA"
  shows "in_range a (Suc n) va \<longleftrightarrow> pfn va = pfn a \<or> in_range (a + 4096) n va"
  using assms unat_next_va[OF assms(2)]
  by (auto simp: in_range_def pfn_def aligned_iff elim!: dvdE)

lemma uvmunmap_loop_ok:
  assumes "vm s fl pt" "aligned a" "unat a + n * 4096 \<le> unat MAXVA"
    and "\<And>i. i < n \<Longrightarrow> leaf (pte s pt (a + of_nat i * 4096))"
    and "do_free \<Longrightarrow> owned s fl pt (frames s pt a n)"
  shows "runs (uvmunmap_loop pt a (a + of_nat n * 4096) do_free s) (\<lambda>_ s'.
    vm s' (if do_free then rev (frames s pt a n) @ fl else fl) pt \<and> tbl s' pt = tbl s pt \<and>
    kend s' = kend s \<and>
    (\<forall>va. va < MAXVA \<longrightarrow> pte s' pt va = (if in_range a n va then 0 else pte s pt va)))"
  using assms
proof (induction n arbitrary: a s fl)
  case 0
  then show ?case by (subst uvmunmap_loop.simps) (auto simp: frames_def in_range_def)
next
  case (Suc n)
  let ?stop = "a + of_nat (Suc n) * 4096" and ?e = "pte s pt a"
  have a: "a < MAXVA" using Suc.prems(3) by (simp add: word_less_nat_alt)
  have na: "unat (a + 4096) = unat a + 4096" using a by (simp add: unat_next_va word_less_nat_alt)
  have stop: "?stop = (a + 4096) + of_nat n * 4096" by (simp add: algebra_simps)
  have us: "unat ?stop = unat a + Suc n * 4096"
    using Suc.prems(3) unat_next_va[of "a + of_nat n * 4096"] unat_page_i[OF Suc.prems(3), of n]
    by (simp add: algebra_simps)
  then have lt: "a < ?stop" by (simp add: word_less_nat_alt)
  have lf: "leaf ?e" using Suc.prems(4)[of 0] by simp
  then obtain p where p: "ptw (phys s) 2 pt a = Some p" "ld64 (phys s) p = ?e"
    by (auto simp: leaf_def pte_of_def split: option.splits)
  then have "p \<noteq> 0" using ptw_aligned[of "phys s" 2 pt a p] Suc.prems(1) by (simp add: vm_def)
  let ?fl = "if do_free then PTE2PA ?e # fl else fl"
  have "runs (if do_free then kfree (PTE2PA ?e) s else Ret () s) (\<lambda>_ s1. vm s1 ?fl pt \<and>
     tbl s1 pt = tbl s pt \<and> kend s1 = kend s \<and> ptw (phys s1) 2 pt a = Some p \<and>
     (\<forall>va. pte s1 pt va = pte s pt va))"
    using Suc.prems(1,5) p(1)
    by (auto simp: frames_Suc owned_def intro!: runs_mono[OF vm_kfree[OF Suc.prems(1)]])
  then obtain s1 where s1: "(if do_free then kfree (PTE2PA ?e) s else Ret () s) = Ret () s1"
      "vm s1 ?fl pt" "tbl s1 pt = tbl s pt" "kend s1 = kend s" "ptw (phys s1) 2 pt a = Some p"
      "\<And>va. pte s1 pt va = pte s pt va"
    by (elim runsE) auto
  let ?s2 = "s1\<lparr>phys := st64 (phys s1) p 0\<rparr>"
  have r: "remaps pt s1 ?fl ?s2 ?fl (\<lambda>va. if pfn va = pfn a then 0 else pte s pt va)"
    by (rule remaps_cong[OF entry_write[OF s1(2,5) a, of 0]]) (simp add: s1(6))
  have pe: "pte ?s2 pt (a + 4096 + of_nat i * 4096) = pte s pt (a + 4096 + of_nat i * 4096)"
    if "i < n" for i
  proof -
    have u: "unat (a + 4096 + of_nat i * 4096) = unat a + 4096 + i * 4096"
      using unat_page_i[of "a + 4096" n i] Suc.prems(3) na that by simp
    then have "pfn (a + 4096 + of_nat i * 4096) \<noteq> pfn a" "a + 4096 + of_nat i * 4096 < MAXVA"
      using Suc.prems(2,3) that by (auto simp: pfn_def aligned_iff word_less_nat_alt elim!: dvdE)
    then show ?thesis using r by (simp add: remaps_def)
  qed
  then have fr: "frames ?s2 pt (a + 4096) n = frames s pt (a + 4096) n" by (intro frames_cong) simp
  have t2: "tbl ?s2 pt = tbl s pt" using r s1(3) by (auto simp: remaps_def)
  have "runs (uvmunmap_loop pt (a + 4096) ?stop do_free ?s2) (\<lambda>_ s'.
    vm s' (if do_free then rev (frames ?s2 pt (a + 4096) n) @ ?fl else ?fl) pt \<and> tbl s' pt = tbl ?s2 pt \<and>
    kend s' = kend ?s2 \<and>
    (\<forall>va. va < MAXVA \<longrightarrow> pte s' pt va = (if in_range (a + 4096) n va then 0 else pte ?s2 pt va)))"
    unfolding stop
  proof (rule Suc.IH)
    show "vm ?s2 ?fl pt" using r by (simp add: remaps_def)
    show "leaf (pte ?s2 pt (a + 4096 + of_nat i * 4096))" if "i < n" for i
      using pe[OF that] Suc.prems(4)[of "Suc i"] that by (simp add: algebra_simps)
    show "owned ?s2 ?fl pt (frames ?s2 pt (a + 4096) n)" if do_free
      using Suc.prems(5)[OF that] that t2 s1(4) by (auto simp: owned_def frames_Suc fr)
  qed (use Suc.prems(2,3) na in \<open>auto simp: aligned_iff\<close>)
  moreover have "pte ?s2 pt va = (if pfn va = pfn a then 0 else pte s pt va)" if "va < MAXVA" for va
    using r that by (simp add: remaps_def)
  ultimately show ?case
    using lt p \<open>p \<noteq> 0\<close> lf s1(1,4) walk_no_alloc[OF a, of pt s] Suc.prems(2) a t2
    by (subst uvmunmap_loop.simps)
       (auto simp: leaf_def frames_Suc fr in_range_Suc word_less_nat_alt elim!: runs_mono)
qed

end
