(* ===== verification/Vm_Copy.thy ===== *)
theory Vm_Copy
  imports Vm_Map
begin

text \<open>
  \<^verbatim>\<open>copyin\<close>, \<^verbatim>\<open>copyout\<close> and \<^verbatim>\<open>copyinstr\<close> of \<^verbatim>\<open>kernel/vm.c\<close> against the translation of single user
  addresses: \<open>readable\<close> and \<open>writable\<close> say which addresses the kernel accepts, \<open>upa\<close> is the
  physical address of a user byte. The routines go page by page; the lemmas split a byte range at
  its first page boundary.
\<close>

section \<open>Translating user addresses\<close>

lemma ptw_path: "same_path l va va' \<Longrightarrow> ptw m l pt va = ptw m l pt va'"
proof (induction l arbitrary: pt)
  case 0
  then show ?case by (simp add: same_path_def)
next
  case (Suc l)
  then show ?case by (simp add: same_path_Suc Let_def)
qed

lemma pfn_PGROUNDDOWN: "pfn (PGROUNDDOWN va) = pfn va"
  by (simp add: pfn_def unat_PGROUNDDOWN)

lemma PGROUNDDOWN_MAXVA: "PGROUNDDOWN va < MAXVA \<longleftrightarrow> va < MAXVA"
proof -
  have "4096 * (unat va div 4096) < 0x4000000000 \<longleftrightarrow> unat va < 0x4000000000"
    using less_mult_imp_div_less[of "unat va" "0x4000000" 4096] div_mult_mod_eq[of "unat va" 4096]
      mod_less_divisor[of 4096 "unat va"] by auto
  then show ?thesis by (simp add: word_less_nat_alt unat_PGROUNDDOWN unat_MAXVA)
qed

lemma pte_same_page:
  assumes "va < MAXVA" "va' < MAXVA" "pfn va = pfn va'"
  shows "pte s pt va = pte s pt va'"
  using ptw_path[of 2 va va'] same_path_page[OF assms(1,2)] assms(3) by (simp add: pte_of_def)

lemma pte_PGROUNDDOWN: "va < MAXVA \<Longrightarrow> pte s pt (PGROUNDDOWN va) = pte s pt va"
  by (rule pte_same_page) (simp_all add: PGROUNDDOWN_MAXVA pfn_PGROUNDDOWN)

definition uva_ok :: "kmem \<Rightarrow> u64 \<Rightarrow> u64 \<Rightarrow> bool" where
  "uva_ok s pt va \<longleftrightarrow> va < MAXVA \<and> valid (pte s pt va) \<and> pte s pt va AND PTE_U \<noteq> 0"

definition upa :: "kmem \<Rightarrow> u64 \<Rightarrow> u64 \<Rightarrow> u64" where
  "upa s pt va = PTE2PA (pte s pt va) + (va - PGROUNDDOWN va)"

definition readable :: "kmem \<Rightarrow> u64 \<Rightarrow> u64 \<Rightarrow> bool" where
  "readable s pt va \<longleftrightarrow> uva_ok s pt va \<and> PTE2PA (pte s pt va) \<noteq> 0"

definition writable :: "kmem \<Rightarrow> u64 \<Rightarrow> u64 \<Rightarrow> bool" where
  "writable s pt va \<longleftrightarrow> uva_ok s pt va \<and> pte s pt va AND PTE_W \<noteq> 0"

lemma walk_entry:
  assumes "vm s fl pt" "va < MAXVA"
  shows "\<exists>a. walk pt va False s = Ret a s \<and> (a = 0 \<longrightarrow> pte s pt va = 0) \<and>
    (a \<noteq> 0 \<longrightarrow> ptw (phys s) 2 pt va = Some a \<and> ld64 (phys s) a = pte s pt va)"
  using assms ptw_aligned[of "phys s" 2 pt va]
  by (auto simp: walk_no_alloc pte_of_def vm_def split: option.splits)

lemma walkaddr_ok:
  assumes "vm s fl pt"
  shows "walkaddr pt va s = Ret (if uva_ok s pt va then PTE2PA (pte s pt va) else 0) s"
proof (cases "va < MAXVA")
  case True
  then show ?thesis
    using walk_entry[OF assms True] by (auto simp: walkaddr_def uva_ok_def not_less Let_def)
qed (auto simp: walkaddr_def uva_ok_def)

lemma walkaddr_page:
  assumes "vm s fl pt"
  shows "walkaddr pt (PGROUNDDOWN va) s = Ret (if readable s pt va then PTE2PA (pte s pt va) else 0) s"
  unfolding walkaddr_ok[OF assms]
  by (auto simp: readable_def uva_ok_def PGROUNDDOWN_MAXVA pte_PGROUNDDOWN)

section \<open>Splitting a byte range at the page boundary\<close>

lemma unat_add_below:
  "unat (va :: u64) + i < 2 ^ 64 \<Longrightarrow> unat (va + of_nat i) = unat va + i"
  by (simp add: unat_word_ariths unat_of_nat)

lemma within_page:
  assumes "va < MAXVA" "i < 4096 - unat va mod 4096"
  shows "unat (va + of_nat i) = unat va + i" "pfn (va + of_nat i) = pfn va" "va + of_nat i < MAXVA"
    "va + of_nat i - PGROUNDDOWN (va + of_nat i) = (va - PGROUNDDOWN va) + of_nat i"
proof -
  have va: "unat va < 0x4000000000" using assms(1) by (simp add: word_less_nat_alt unat_MAXVA)
  show u: "unat (va + of_nat i) = unat va + i" using va assms(2) by (intro unat_add_below) simp
  have "(unat va + i) div 4096 = unat va div 4096"
  proof (rule div_nat_eqI)
    have "unat va mod 4096 + i < 4096" using assms(2) by simp
    then show "4096 * (unat va div 4096) \<le> unat va + i" "unat va + i < 4096 * Suc (unat va div 4096)"
      using div_mult_mod_eq[of "unat va" 4096] unfolding mult_Suc_right by linarith+
  qed
  then show p: "pfn (va + of_nat i) = pfn va" using u by (simp add: pfn_def)
  then have "PGROUNDDOWN (va + of_nat i) = PGROUNDDOWN va"
    by (simp add: word_unat_eq_iff unat_PGROUNDDOWN pfn_def)
  then show "va + of_nat i - PGROUNDDOWN (va + of_nat i) = (va - PGROUNDDOWN va) + of_nat i" by simp
  then show "va + of_nat i < MAXVA"
    using PGROUNDDOWN_MAXVA[of va] PGROUNDDOWN_MAXVA[of "va + of_nat i"] assms(1)
      \<open>PGROUNDDOWN (va + of_nat i) = PGROUNDDOWN va\<close> by simp
qed

lemma next_page:
  assumes "va < MAXVA" "unat (page_left va len) < unat len"
  shows "PGROUNDDOWN va + 4096 = va + page_left va len" "unat (page_left va len) = 4096 - unat va mod 4096"
proof -
  show n: "unat (page_left va len) = 4096 - unat va mod 4096" using assms(2) by (simp add: unat_page_left)
  have "page_left va len = 4096 - (va - PGROUNDDOWN va)"
    using assms(2) by (auto simp: page_left_def Let_def)
  then show "PGROUNDDOWN va + 4096 = va + page_left va len" by simp
qed

lemma all_split:
  assumes "n \<le> (len :: nat)"
  shows "(\<forall>i < len. P i) \<longleftrightarrow> (\<forall>i < n. P i) \<and> (\<forall>i < len - n. P (n + i))"
proof -
  have "\<exists>j. i = n + j \<and> j < len - n" if "i < len" "\<not> i < n" for i
    using that by (intro exI[of _ "i - n"]) simp
  then show ?thesis using assms by (auto; metis)
qed

text \<open>The predicate on the whole range, from the first page and the rest.\<close>

lemma range_split:
  assumes "va < MAXVA" "len > 0"
    and page: "\<And>va' :: u64. va' < MAXVA \<Longrightarrow> pfn va' = pfn va \<Longrightarrow> P va' = P va"
  shows "(\<forall>i < unat len. P (va + of_nat i)) \<longleftrightarrow>
    P va \<and> (\<forall>i < unat (len - page_left va len). P (PGROUNDDOWN va + 4096 + of_nat i))"
proof -
  let ?n = "unat (page_left va len)"
  have n: "?n \<le> unat len" "?n \<le> 4096 - unat va mod 4096" by (simp_all add: unat_page_left)
  have pos: "0 < ?n" using assms(2) by (simp add: unat_page_left word_less_nat_alt)
  have rest: "unat (len - page_left va len) = unat len - ?n"
    using n(1) by (simp add: unat_sub word_le_nat_alt)
  have "P (va + of_nat i) = P va" if "i < ?n" for i
    using within_page[OF assms(1), of i] n(2) that by (intro page) simp_all
  then have "(\<forall>i < ?n. P (va + of_nat i)) \<longleftrightarrow> P va" using pos by auto
  moreover have "PGROUNDDOWN va + 4096 + of_nat i = va + of_nat (?n + i)" if "i < unat len - ?n" for i
    using next_page[OF assms(1)] that by simp
  ultimately show ?thesis
    unfolding all_split[OF n(1), of "\<lambda>i. P (va + of_nat i)"] rest
    by (auto simp: add.assoc)
qed

section \<open>Copying in\<close>

lemma get_bytes_apply:
  "get_bytes n m a dst di j = (if di \<le> j \<and> j < di + n then m (a + of_nat (j - di)) else dst j)"
proof (induction n arbitrary: a dst di)
  case (Suc n)
  have "a + 1 + of_nat (j - Suc di) = a + of_nat (j - di)" if "Suc di \<le> j"
    using that by (simp add: Suc_diff_le of_nat_diff)
  then show ?case using Suc.IH[of "a + 1" _ "Suc di"] by auto
qed auto

lemma readable_page:
  "va < MAXVA \<Longrightarrow> va' < MAXVA \<Longrightarrow> pfn va' = pfn va \<Longrightarrow> readable s pt va' = readable s pt va"
  using pte_same_page[of va va' s pt] by (simp add: readable_def uva_ok_def)

lemma upa_within_page:
  assumes "va < MAXVA" "i < unat (page_left va len)"
  shows "upa s pt (va + of_nat i) = upa s pt va + of_nat i"
proof -
  have "i < 4096 - unat va mod 4096" using assms(2) by (simp add: unat_page_left)
  note w = within_page[OF assms(1) this]
  show ?thesis
    using w(4) pte_same_page[OF w(3) assms(1) w(2)] by (simp add: upa_def)
qed

text \<open>The array after the \<open>n\<close> bytes at user address \<open>va\<close> have been copied to index \<open>di\<close>.\<close>

definition copied_in :: "kmem \<Rightarrow> u64 \<Rightarrow> (nat \<Rightarrow> u8) \<Rightarrow> nat \<Rightarrow> u64 \<Rightarrow> nat \<Rightarrow> (nat \<Rightarrow> u8)" where
  "copied_in s pt dst di va n =
     (\<lambda>j. if di \<le> j \<and> j < di + n then phys s (upa s pt (va + of_nat (j - di))) else dst j)"

lemma copied_in_split:
  assumes "va < MAXVA" "unat (page_left va len) \<le> k" "k \<le> unat len"
  shows "copied_in s pt (get_bytes (unat (page_left va len)) (phys s) (upa s pt va) dst di)
      (di + unat (page_left va len)) (PGROUNDDOWN va + 4096) (k - unat (page_left va len)) =
    copied_in s pt dst di va k"
proof
  fix j
  let ?n = "unat (page_left va len)"
  have "PGROUNDDOWN va + 4096 + of_nat (j - (di + ?n)) = va + of_nat (j - di)"
    if "di + ?n \<le> j" "j < di + k"
  proof -
    have "PGROUNDDOWN va + 4096 = va + page_left va len"
      using next_page(1)[OF assms(1)] that assms(2,3) by simp
    then show ?thesis using that by (simp add: of_nat_diff)
  qed
  moreover have "upa s pt (va + of_nat (j - di)) = upa s pt va + of_nat (j - di)"
    if "di \<le> j" "j < di + ?n"
    using upa_within_page[OF assms(1), of "j - di" len] that by simp
  ultimately show "copied_in s pt (get_bytes ?n (phys s) (upa s pt va) dst di)
      (di + ?n) (PGROUNDDOWN va + 4096) (k - ?n) j = copied_in s pt dst di va k j"
    using assms(2) by (auto simp: copied_in_def get_bytes_apply simp del: of_nat_diff)
qed

lemma unat_rest: "unat (len - page_left va len) = unat len - unat (page_left va len)"
  by (simp add: unat_sub word_le_nat_alt unat_page_left)

lemma copyin_all:
  assumes "vm s fl pt" "\<forall>i < unat len. readable s pt (va + of_nat i)"
  shows "copyin pt dst di va len s = Ret (0, copied_in s pt dst di va (unat len)) s"
  using assms
proof (induction pt dst di va len s rule: copyin.induct)
  case (1 pt dst di va len s)
  show ?case
  proof (cases "len > 0")
    case True
    then have r: "readable s pt va" using "1.prems"(2) by (auto simp: word_less_nat_alt)
    then have va: "va < MAXVA" by (simp add: readable_def uva_ok_def)
    let ?n = "page_left va len"
    have "\<forall>i < unat (len - ?n). readable s pt (PGROUNDDOWN va + 4096 + of_nat i)"
      using range_split[OF va True, of "readable s pt"] readable_page[OF va] "1.prems"(2) by blast
    moreover have "PTE2PA (pte s pt va) \<noteq> 0" using r by (simp add: readable_def)
    ultimately show ?thesis
      using "1.IH"[OF True refl, of "PTE2PA (pte s pt va)" s ?n] "1.prems"(1) r True
        copied_in_split[OF va, of len "unat len" s pt dst di] walkaddr_page[OF "1.prems"(1), of va]
      by (subst copyin.simps) (simp add: Let_def upa_def unat_rest unat_page_left)
  next
    case False
    then have "len = 0" by (simp add: word_gt_0)
    then show ?thesis by (subst copyin.simps) (auto simp: copied_in_def fun_eq_iff)
  qed
qed

lemma copyin_fail:
  assumes "vm s fl pt" "\<not> (\<forall>i < unat len. readable s pt (va + of_nat i))"
  shows "\<exists>dst'. copyin pt dst di va len s = Ret (-1, dst') s"
  using assms
proof (induction pt dst di va len s rule: copyin.induct)
  case (1 pt dst di va len s)
  have True: "len > 0" using "1.prems"(2) by (auto simp: word_less_nat_alt)
  show ?case
  proof (cases "readable s pt va")
    case r: True
    then have va: "va < MAXVA" by (simp add: readable_def uva_ok_def)
    let ?n = "page_left va len"
    have "\<not> (\<forall>i < unat (len - ?n). readable s pt (PGROUNDDOWN va + 4096 + of_nat i))"
      using range_split[OF va True, of "readable s pt"] readable_page[OF va] "1.prems"(2) r by blast
    moreover have "PTE2PA (pte s pt va) \<noteq> 0" using r by (simp add: readable_def)
    ultimately show ?thesis
      using "1.IH"[OF True refl, of "PTE2PA (pte s pt va)" s ?n] "1.prems"(1) r True
        walkaddr_page[OF "1.prems"(1), of va]
      by (subst copyin.simps) (simp add: Let_def)
  next
    case False
    then show ?thesis
      using True walkaddr_page[OF "1.prems"(1), of va] by (subst copyin.simps) (simp add: Let_def)
  qed
qed


section \<open>Copying out\<close>

lemma put_bytes_apply:
  "n \<le> 2 ^ 64 \<Longrightarrow> put_bytes n m d src x = (if unat (x - d) < n then src (unat (x - d)) else m x)"
proof (induction n arbitrary: m d src)
  case (Suc n)
  have IH: "put_bytes n (m(d := src 0)) (d + 1) (\<lambda>i. src (Suc i)) x =
      (if unat (x - (d + 1)) < n then src (Suc (unat (x - (d + 1)))) else (m(d := src 0)) x)"
    using Suc by simp
  show ?case
  proof (cases "x = d")
    case True
    have "unat (x - (d + 1)) = 2 ^ 64 - 1" using True unat_neg_one by simp
    then show ?thesis using IH True Suc.prems by simp
  next
    case False
    then have "x - d \<noteq> 0" by simp
    then have "unat (x - d) = Suc (unat (x - d - 1))"
      using unat_minus_one[of "x - d"] unat_gt_0[of "x - d"] by simp
    then show ?thesis using IH False by (simp add: algebra_simps)
  qed
qed simp

lemma writable_page:
  "va < MAXVA \<Longrightarrow> va' < MAXVA \<Longrightarrow> pfn va' = pfn va \<Longrightarrow> writable s pt va' = writable s pt va"
  using pte_same_page[of va va' s pt] by (simp add: writable_def uva_ok_def)

lemma unat_upa: "unat (upa s pt va) = unat (PTE2PA (pte s pt va)) + unat va mod 4096"
proof -
  obtain k where k: "unat (PTE2PA (pte s pt va)) = 4096 * k"
    using PTE2PA_aligned[of "pte s pt va"] by (auto simp: aligned_iff)
  have "unat va mod 4096 < 4096" by simp
  then have "4096 * k + unat va mod 4096 < 2 ^ 64"
    using unat_less_u64[of "PTE2PA (pte s pt va)"] k by (simp del: mod_less_divisor)
  then show ?thesis
    using unat_page_offset[of va] k unfolding upa_def by (subst unat_plus_if_size) (simp add: word_size)
qed

lemma pfn_upa: "pfn (upa s pt va) = pfn (PTE2PA (pte s pt va))"
  using PTE2PA_aligned[of "pte s pt va"] by (auto simp: pfn_def unat_upa aligned_iff elim!: dvdE)


text \<open>
  The frames behind the writable bytes of a range belong to this process alone: none is a table
  page or free, and different user pages have different frames.
\<close>

definition byte_range :: "u64 \<Rightarrow> nat \<Rightarrow> u64 set" where
  "byte_range va n = (\<lambda>i. va + of_nat i) ` {..<n}"

definition private_to :: "kmem \<Rightarrow> u64 list \<Rightarrow> u64 \<Rightarrow> u64 set \<Rightarrow> bool" where
  "private_to s fl pt A \<longleftrightarrow>
     (\<forall>a \<in> A. writable s pt a \<longrightarrow>
        PTE2PA (pte s pt a) \<notin> tbl s pt \<union> set fl \<and>
        (\<forall>b \<in> A. writable s pt b \<longrightarrow> PTE2PA (pte s pt a) = PTE2PA (pte s pt b) \<longrightarrow> pfn a = pfn b))"

definition wrote :: "kmem \<Rightarrow> u64 list \<Rightarrow> u64 \<Rightarrow> u64 \<Rightarrow> (nat \<Rightarrow> u8) \<Rightarrow> nat \<Rightarrow> int \<Rightarrow> kmem \<Rightarrow> bool" where
  "wrote s fl pt va src n r s' \<longleftrightarrow>
     vm s' fl pt \<and> kend s' = kend s \<and> (\<forall>va. pte s' pt va = pte s pt va) \<and> tbl s' pt = tbl s pt \<and>
     (\<forall>x. (\<forall>i < n. writable s pt (va + of_nat i) \<longrightarrow> x \<noteq> upa s pt (va + of_nat i)) \<longrightarrow>
        phys s' x = phys s x) \<and>
     (if \<forall>i < n. writable s pt (va + of_nat i)
      then r = 0 \<and> (\<forall>i < n. phys s' (upa s pt (va + of_nat i)) = src i)
      else r = -1)"

lemma private_to_mono: "private_to s fl pt A \<Longrightarrow> B \<subseteq> A \<Longrightarrow> private_to s fl pt B"
  unfolding private_to_def by blast

lemma rest_addr:
  assumes "va < MAXVA" "i < unat (len - page_left va len)"
  shows "PGROUNDDOWN va + 4096 + of_nat i = va + of_nat (unat (page_left va len) + i)"
    "unat (page_left va len) + i < unat len"
proof -
  have n: "unat (page_left va len) \<le> unat len" by (simp add: unat_page_left)
  then have "unat (len - page_left va len) = unat len - unat (page_left va len)"
    by (simp add: unat_sub word_le_nat_alt)
  then show "PGROUNDDOWN va + 4096 + of_nat i = va + of_nat (unat (page_left va len) + i)"
    "unat (page_left va len) + i < unat len"
    using next_page(1)[OF assms(1)] assms(2) by simp_all
qed

lemma byte_range_rest:
  assumes "va < MAXVA"
  shows "byte_range (PGROUNDDOWN va + 4096) (unat (len - page_left va len)) \<subseteq> byte_range va (unat len)"
  unfolding byte_range_def using rest_addr[OF assms] by (intro image_subsetI) (metis imageI lessThan_iff)

lemma put_page_vm:
  assumes "vm s fl pt" "private_to s fl pt (byte_range va (unat len))" "writable s pt va" "len > 0"
    and s1_def: "s1 = s\<lparr>phys := put_bytes (unat (page_left va len)) (phys s) (upa s pt va) src\<rparr>"
  shows "vm s1 fl pt" "tbl s1 pt = tbl s pt" "pte s1 pt va' = pte s pt va'"
    "\<And>x. phys s1 x = (if unat (x - upa s pt va) < unat (page_left va len)
       then src (unat (x - upa s pt va)) else phys s x)"
proof -
  let ?p = "PTE2PA (pte s pt va)" and ?n = "unat (page_left va len)"
  show *: "phys s1 x = (if unat (x - upa s pt va) < ?n then src (unat (x - upa s pt va)) else phys s x)" for x
    unfolding s1_def by (simp add: put_bytes_apply unat_page_left)
  have va_in: "va \<in> byte_range va (unat len)"
    using assms(4) by (auto simp: byte_range_def word_less_nat_alt intro!: image_eqI[of _ _ 0])
  have p: "?p \<notin> tbl s pt" "?p \<notin> set fl"
    using assms(2-4) va_in by (auto simp: private_to_def)
  have "pfn x = pfn ?p" if "unat (x - upa s pt va) < ?n" for x
  proof -
    let ?o = "unat va mod 4096 + unat (x - upa s pt va)"
    have o: "?o < 4096" using that unfolding unat_page_left min_less_iff_conj by arith
    obtain k where k: "unat ?p = 4096 * k" using PTE2PA_aligned[of "pte s pt va"] by (auto simp: aligned_iff)
    have "4096 * k + ?o < 2 ^ 64" using unat_less_u64[of ?p] k o by simp
    moreover have "unat x = unat (upa s pt va + (x - upa s pt va))" by simp
    ultimately have "unat x = 4096 * k + ?o"
      using unat_upa[of s pt va] k by (subst (asm) unat_plus_if_size) (simp add: word_size)
    then show ?thesis using k o by (simp add: pfn_def)
  qed
  then have sb: "same_but ?p (phys s) (phys s1)" using * by (auto simp: same_but_def)
  have inv: "kmem_inv s fl" using assms(1) by (simp add: vm_def)
  have "agree_on (set fl) (phys s) (phys s1)"
    using same_but_changes[OF sb, of "{?p}"] p kmem_inv_aligned[OF inv] PTE2PA_aligned
    by (intro changes_agree[of "{?p}"]) auto
  then have "kmem_inv s1 fl" using kmem_inv_phys[OF inv] by (simp add: s1_def)
  note other = vm_other_page[OF assms(1) sb PTE2PA_aligned p(1) this subset_insertI]
  show "vm s1 fl pt" "tbl s1 pt = tbl s pt" "pte s1 pt va' = pte s pt va'" by (rule other)+
qed


lemma upa_inject:
  assumes "private_to s fl pt A" "a \<in> A" "b \<in> A" "writable s pt a" "writable s pt b"
    "pfn (upa s pt a) = pfn (upa s pt b)"
  shows "pfn a = pfn b"
proof -
  have "PTE2PA (pte s pt a) = PTE2PA (pte s pt b)"
    using assms(6) unfolding pfn_upa by (rule aligned_same_page[OF PTE2PA_aligned PTE2PA_aligned])
  then show ?thesis using assms(1)[unfolded private_to_def] assms(2-5) by blast
qed

lemma same_ptes:
  assumes "\<And>va. pte s1 pt va = pte s pt va"
  shows "writable s1 pt a = writable s pt a" "readable s1 pt a = readable s pt a"
    "upa s1 pt a = upa s pt a"
  using assms by (simp_all add: writable_def readable_def uva_ok_def upa_def)

lemma no_wrap:
  assumes "\<forall>i < n. va + of_nat i < MAXVA" "0 < n"
  shows "unat va + n \<le> unat MAXVA"
proof (rule ccontr)
  assume "\<not> unat va + n \<le> unat MAXVA"
  moreover have "unat va < unat MAXVA" using assms by (auto simp: word_less_nat_alt)
  ultimately have "unat MAXVA - unat va < n" by simp
  then have "va + of_nat (unat MAXVA - unat va) < MAXVA" using assms(1) by blast
  moreover have "va + of_nat (unat MAXVA - unat va) = MAXVA"
    using \<open>unat va < unat MAXVA\<close> by (simp add: of_nat_diff)
  ultimately show False by simp
qed

lemma rest_other_page:
  assumes "va < MAXVA" "i < unat (len - page_left va len)" "k < unat (page_left va len)"
    "unat va + unat len \<le> unat MAXVA"
  shows "pfn (va + of_nat k) \<noteq> pfn (va + of_nat (unat (page_left va len) + i))"
proof -
  let ?n = "unat (page_left va len)"
  have lt: "?n + i < unat len" by (rule rest_addr(2)[OF assms(1,2)])
  have n: "?n = 4096 - unat va mod 4096" using lt by (intro next_page(2)[OF assms(1)]) simp
  have k: "pfn (va + of_nat k) = pfn va" using within_page(2)[OF assms(1), of k] assms(3) n by simp
  have u: "unat (va + of_nat (?n + i)) = unat va + (?n + i)"
    using assms(4) lt by (intro unat_add_below) (simp add: unat_MAXVA)
  have "unat va + (?n + i) = 4096 * (unat va div 4096 + 1) + i"
  proof -
    have "q * 4096 + m + (4096 - m + i) = 4096 * (q + 1) + i" if "m < 4096" for q m :: nat
      using that by simp
    from this[of "unat va mod 4096" "unat va div 4096"] show ?thesis
      unfolding n div_mult_mod_eq by simp
  qed
  then have "unat va div 4096 < (unat va + (?n + i)) div 4096" by simp
  then show ?thesis unfolding k using u by (simp add: pfn_def)
qed

lemma copyout_stop:
  assumes "vm s fl pt" "len > 0" "\<not> writable s pt va"
  shows "copyout pt va src len s = Ret (-1) s"
proof (cases "va < MAXVA")
  case True
  then have va0: "PGROUNDDOWN va < MAXVA" by (simp add: PGROUNDDOWN_MAXVA)
  then show ?thesis
    using assms walk_entry[OF assms(1) va0] True
    by (subst copyout.simps) (auto simp: Let_def writable_def uva_ok_def pte_PGROUNDDOWN not_le)
next
  case False
  then have "MAXVA \<le> PGROUNDDOWN va" using PGROUNDDOWN_MAXVA[of va] by simp
  then show ?thesis using assms(2) by (subst copyout.simps) (simp add: Let_def)
qed

lemma copyout_step:
  assumes "vm s fl pt" "len > 0" "writable s pt va"
  shows "copyout pt va src len s =
    copyout pt (PGROUNDDOWN va + 4096) (\<lambda>i. src (unat (page_left va len) + i)) (len - page_left va len)
      (s\<lparr>phys := put_bytes (unat (page_left va len)) (phys s) (upa s pt va) src\<rparr>)"
proof -
  have va: "va < MAXVA" "PGROUNDDOWN va < MAXVA"
    using assms(3) by (simp_all add: writable_def uva_ok_def PGROUNDDOWN_MAXVA)
  obtain a where "walk pt (PGROUNDDOWN va) False s = Ret a s" "a \<noteq> 0" "ld64 (phys s) a = pte s pt va"
    using walk_entry[OF assms(1) va(2)] assms(3) va(1)
    by (auto simp: writable_def uva_ok_def pte_PGROUNDDOWN)
  then show ?thesis
    using assms(2,3) va(2)[THEN less_le_not_le[THEN iffD1], THEN conjunct2]
    by (subst copyout.simps) (auto simp: Let_def writable_def uva_ok_def upa_def)
qed

lemma wrote_step:
  assumes "vm s fl pt" "private_to s fl pt (byte_range va (unat len))" "writable s pt va" "len > 0"
    and s1: "s1 = s\<lparr>phys := put_bytes (unat (page_left va len)) (phys s) (upa s pt va) src\<rparr>"
    and w: "wrote s1 fl pt (PGROUNDDOWN va + 4096) (\<lambda>i. src (unat (page_left va len) + i))
      (unat (len - page_left va len)) r s'"
  shows "wrote s fl pt va src (unat len) r s'"
proof -
  let ?n = "unat (page_left va len)" and ?va = "PGROUNDDOWN va + 4096" and ?rest = "unat (len - page_left va len)"
  have va: "va < MAXVA" using assms(3) by (simp add: writable_def uva_ok_def)
  note p = put_page_vm[OF assms(1-4) s1]
  note e = same_ptes[OF p(3)]
  have w1: "phys s' x = phys s1 x"
    if "\<And>i. i < ?rest \<Longrightarrow> writable s pt (?va + of_nat i) \<Longrightarrow> x \<noteq> upa s pt (?va + of_nat i)" for x
    using w that unfolding wrote_def e by blast
  have w2: "phys s' (upa s pt (?va + of_nat i)) = src (?n + i)"
    if "\<forall>i < ?rest. writable s pt (?va + of_nat i)" "i < ?rest" for i
    using w that unfolding wrote_def e by simp
  have n: "?n \<le> unat len" by (simp add: unat_page_left)
  have rest: "?rest = unat len - ?n" using n by (simp add: unat_sub word_le_nat_alt)
  have page: "upa s pt (va + of_nat k) = upa s pt va + of_nat k" "writable s pt (va + of_nat k)" if "k < ?n" for k
    using upa_within_page[OF va that] within_page[OF va, of k] writable_page[OF va, of "va + of_nat k"] assms(3) that
    by (simp_all add: unat_page_left)
  have frame: "phys s' x = phys s x"
    if x: "\<forall>i < unat len. writable s pt (va + of_nat i) \<longrightarrow> x \<noteq> upa s pt (va + of_nat i)" for x
  proof -
    have "phys s' x = phys s1 x"
    proof (rule w1)
      fix i
      assume i: "i < ?rest" "writable s pt (?va + of_nat i)"
      show "x \<noteq> upa s pt (?va + of_nat i)"
        using x[rule_format, OF rest_addr(2)[OF va i(1)]] i(2) unfolding rest_addr(1)[OF va i(1)] by simp
    qed
    moreover have "\<not> unat (x - upa s pt va) < ?n"
      using x[rule_format, of "unat (x - upa s pt va)"] page[of "unat (x - upa s pt va)"] n by auto
    ultimately show ?thesis by (simp add: p(4))
  qed
  have all: "(\<forall>i < unat len. writable s pt (va + of_nat i)) \<longleftrightarrow> (\<forall>i < ?rest. writable s pt (?va + of_nat i))"
    using range_split[OF va assms(4), of "writable s pt"] writable_page[OF va] assms(3) by blast
  have in_r: "va + of_nat i \<in> byte_range va (unat len)" if "i < unat len" for i
    unfolding byte_range_def using that by (intro imageI) simp
  have content: "phys s' (upa s pt (va + of_nat i)) = src i"
    if i: "i < unat len" and a: "\<forall>i < unat len. writable s pt (va + of_nat i)" for i
  proof (cases "i < ?n")
    case True
    have nw: "unat va + unat len \<le> unat MAXVA"
      using a i by (intro no_wrap) (auto simp: writable_def uva_ok_def)
    have "upa s pt (va + of_nat i) \<noteq> upa s pt (?va + of_nat j)" if "j < ?rest" for j
    proof
      assume "upa s pt (va + of_nat i) = upa s pt (?va + of_nat j)"
      then have "pfn (va + of_nat i) = pfn (va + of_nat (?n + j))"
        using upa_inject[OF assms(2) in_r[OF i] in_r[OF rest_addr(2)[OF va that]]]
          a[rule_format, OF i] a[rule_format, OF rest_addr(2)[OF va that]]
        unfolding rest_addr(1)[OF va that] by simp
      then show False using rest_other_page[OF va that True nw] by simp
    qed
    then have "phys s' (upa s pt (va + of_nat i)) = phys s1 (upa s pt (va + of_nat i))"
      by (intro w1) simp
    moreover have "unat (of_nat i :: u64) = i"
      using i unat_less_u64[of len] by (simp add: unat_of_nat)
    ultimately show ?thesis using True by (simp add: p(4) page(1))
  next
    case False
    then have j: "i - ?n < ?rest" using i rest by simp
    have "?va + of_nat (i - ?n) = va + of_nat i"
      using rest_addr(1)[OF va j] False by simp
    then show ?thesis using w2[OF _ j] a all False by (simp del: of_nat_diff)
  qed
  have "vm s' fl pt" "kend s' = kend s" "\<And>va. pte s' pt va = pte s pt va" "tbl s' pt = tbl s pt"
    "if \<forall>i < ?rest. writable s pt (?va + of_nat i) then r = 0 else r = -1"
    using w p(2,3) s1 unfolding wrote_def e by (simp_all split: if_splits)
  then show ?thesis
    using frame content all unfolding wrote_def by simp
qed

lemma copyout_ok:
  assumes "vm s fl pt" "private_to s fl pt (byte_range va (unat len))"
  shows "runs (copyout pt va src len s) (wrote s fl pt va src (unat len))"
  using assms
proof (induction "unat len" arbitrary: va src len s rule: less_induct)
  case less
  show ?case
  proof (cases "len > 0")
    case False
    then have "len = 0" by (simp add: word_gt_0)
    then show ?thesis using less.prems by (subst copyout.simps) (simp add: wrote_def)
  next
    case len: True
    show ?thesis
    proof (cases "writable s pt va")
      case False
      have "copyout pt va src len s = Ret (-1) s" by (rule copyout_stop[OF less.prems(1) len False])
      moreover have "\<not> (\<forall>i < unat len. writable s pt (va + of_nat i))"
        using False len by (auto simp: word_less_nat_alt intro!: exI[of _ 0])
      ultimately show ?thesis using less.prems(1) by (simp add: wrote_def)
    next
      case w: True
      then have va: "va < MAXVA" by (simp add: writable_def uva_ok_def)
      let ?n = "page_left va len" and ?va = "PGROUNDDOWN va + 4096" and ?src = "\<lambda>i. src (unat (page_left va len) + i)"
      define s1 where "s1 = s\<lparr>phys := put_bytes (unat ?n) (phys s) (upa s pt va) src\<rparr>"
      note p = put_page_vm[OF less.prems w len s1_def]
      have "private_to s fl pt (byte_range ?va (unat (len - ?n)))"
        by (rule private_to_mono[OF less.prems(2) byte_range_rest[OF va]])
      then have "private_to s1 fl pt (byte_range ?va (unat (len - ?n)))"
        unfolding private_to_def same_ptes[OF p(3)] p(2,3) by blast
      then have "runs (copyout pt ?va ?src (len - ?n) s1) (wrote s1 fl pt ?va ?src (unat (len - ?n)))"
        by (rule less.hyps[OF page_left_decreases[OF len] p(1)])
      then show ?thesis
        unfolding copyout_step[OF less.prems(1) len w] s1_def[symmetric]
        by (rule runs_mono) (rule wrote_step[OF less.prems w len s1_def])
    qed
  qed
qed


section \<open>Copying in a string\<close>

lemma copyinstr_page_found:
  "k < n \<Longrightarrow> (\<And>j. j < k \<Longrightarrow> m (p + of_nat j) \<noteq> 0) \<Longrightarrow> m (p + of_nat k) = 0 \<Longrightarrow>
   copyinstr_page n m p dst di = (True, get_bytes (Suc k) m p dst di)"
proof (induction n arbitrary: k p dst di)
  case (Suc n)
  show ?case
  proof (cases k)
    case 0
    then show ?thesis using Suc.prems by (simp add: fun_eq_iff)
  next
    case (Suc k')
    have "m p \<noteq> 0" using Suc.prems(2)[of 0] Suc by simp
    moreover have "m (p + 1 + of_nat j) \<noteq> 0" if "j < k'" for j
      using Suc.prems(2)[of "Suc j"] that Suc by (simp add: add.assoc)
    moreover have "m (p + 1 + of_nat k') = 0" using Suc.prems(3) Suc by (simp add: add.assoc)
    ultimately show ?thesis using Suc.IH[of k' "p + 1"] Suc.prems(1) Suc by simp
  qed
qed simp

lemma copyinstr_page_none:
  "(\<And>j. j < n \<Longrightarrow> m (p + of_nat j) \<noteq> 0) \<Longrightarrow>
   copyinstr_page n m p dst di = (False, get_bytes n m p dst di)"
proof (induction n arbitrary: p dst di)
  case (Suc n)
  have "m p \<noteq> 0" using Suc.prems[of 0] by simp
  moreover have "m (p + 1 + of_nat j) \<noteq> 0" if "j < n" for j
    using Suc.prems[of "Suc j"] that by (simp add: add.assoc)
  ultimately show ?case using Suc.IH[of "p + 1"] by simp
qed simp

text \<open>A string of \<open>k\<close> non-zero bytes and a zero byte stands at the user address \<open>va\<close>.\<close>

definition ubyte :: "kmem \<Rightarrow> u64 \<Rightarrow> u64 \<Rightarrow> u8" where
  "ubyte s pt va = phys s (upa s pt va)"

definition cstring_at :: "kmem \<Rightarrow> u64 \<Rightarrow> u64 \<Rightarrow> nat \<Rightarrow> bool" where
  "cstring_at s pt va k \<longleftrightarrow> (\<forall>i \<le> k. readable s pt (va + of_nat i)) \<and>
     (\<forall>i < k. ubyte s pt (va + of_nat i) \<noteq> 0) \<and> ubyte s pt (va + of_nat k) = 0"

lemma ubyte_page:
  assumes "va < MAXVA" "i < unat (page_left va len)"
  shows "ubyte s pt (va + of_nat i) = phys s (upa s pt va + of_nat i)"
  using upa_within_page[OF assms] by (simp add: ubyte_def)

lemma copied_in_page:
  assumes "va < MAXVA" "n \<le> unat (page_left va len)"
  shows "get_bytes n (phys s) (upa s pt va) dst di = copied_in s pt dst di va n"
proof
  fix j
  show "get_bytes n (phys s) (upa s pt va) dst di j = copied_in s pt dst di va n j"
    using upa_within_page[OF assms(1), of "j - di" len s pt] assms(2)
    by (auto simp: get_bytes_apply copied_in_def)
qed

lemma copyinstr_step:
  assumes "vm s fl pt" "mx > 0" "readable s pt va"
  shows "copyinstr pt dst di va mx s =
    (let n = page_left va mx; (got_null, dst) = copyinstr_page (unat n) (phys s) (upa s pt va) dst di in
     if got_null then Ret (0, dst) s
     else copyinstr pt dst (di + unat n) (PGROUNDDOWN va + 4096) (mx - n) s)"
proof -
  have "PTE2PA (pte s pt va) \<noteq> 0" using assms(3) by (simp add: readable_def)
  then show ?thesis
    using assms walkaddr_page[OF assms(1), of va]
    by (subst copyinstr.simps) (simp add: Let_def upa_def)
qed

lemma page_readable:
  assumes "readable s pt va" "i < unat (page_left va len)"
  shows "readable s pt (va + of_nat i)"
proof -
  have va: "va < MAXVA" using assms(1) by (simp add: readable_def uva_ok_def)
  have "i < 4096 - unat va mod 4096" using assms(2) by (simp add: unat_page_left)
  then show ?thesis using within_page[OF va] readable_page[OF va] assms(1) by blast
qed

lemma cstring_rest:
  assumes "readable s pt va" "k < unat (mx - page_left va mx)"
    and nz: "\<And>i. i < unat (page_left va mx) \<Longrightarrow> ubyte s pt (va + of_nat i) \<noteq> 0"
  shows "cstring_at s pt va (unat (page_left va mx) + k) \<longleftrightarrow> cstring_at s pt (PGROUNDDOWN va + 4096) k"
proof -
  let ?n = "unat (page_left va mx)"
  have va: "va < MAXVA" using assms(1) by (simp add: readable_def uva_ok_def)
  have e: "PGROUNDDOWN va + 4096 = va + page_left va mx"
    using assms(2) by (intro next_page(1)[OF va]) (simp add: unat_rest)
  have split: "(\<forall>i < ?n + j. P i) \<longleftrightarrow> (\<forall>i < ?n. P i) \<and> (\<forall>i < j. P (?n + i))" for j and P :: "nat \<Rightarrow> bool"
    using all_split[of ?n "?n + j" P] by simp
  have "cstring_at s pt va (?n + k) \<longleftrightarrow>
    (\<forall>i < ?n + Suc k. readable s pt (va + of_nat i)) \<and>
    (\<forall>i < ?n + k. ubyte s pt (va + of_nat i) \<noteq> 0) \<and> ubyte s pt (va + of_nat (?n + k)) = 0"
    by (simp add: cstring_at_def less_Suc_eq_le)
  also have "\<dots> \<longleftrightarrow> (\<forall>i < Suc k. readable s pt (va + of_nat (?n + i))) \<and>
    (\<forall>i < k. ubyte s pt (va + of_nat (?n + i)) \<noteq> 0) \<and> ubyte s pt (va + of_nat (?n + k)) = 0"
    unfolding split using nz page_readable[OF assms(1)] by auto
  also have "\<dots> \<longleftrightarrow> cstring_at s pt (PGROUNDDOWN va + 4096) k"
    unfolding cstring_at_def e by (simp add: less_Suc_eq_le add.assoc)
  finally show ?thesis .
qed

lemma copyinstr_found:
  assumes "vm s fl pt" "cstring_at s pt va k" "k < unat mx"
  shows "copyinstr pt dst di va mx s = Ret (0, copied_in s pt dst di va (Suc k)) s"
  using assms
proof (induction "unat mx" arbitrary: va mx k dst di rule: less_induct)
  case less
  let ?n = "page_left va mx"
  have mx: "mx > 0" using less.prems(3) by (simp add: word_less_nat_alt)
  have r: "readable s pt va" using less.prems(2) by (auto simp: cstring_at_def)
  then have va: "va < MAXVA" by (simp add: readable_def uva_ok_def)
  have nz: "ubyte s pt (va + of_nat i) \<noteq> 0" if "i < k" for i using less.prems(2) that by (simp add: cstring_at_def)
  have z: "ubyte s pt (va + of_nat k) = 0" using less.prems(2) by (simp add: cstring_at_def)
  show ?case
  proof (cases "k < unat ?n")
    case True
    have "copyinstr_page (unat ?n) (phys s) (upa s pt va) dst di = (True, get_bytes (Suc k) (phys s) (upa s pt va) dst di)"
      using nz z ubyte_page[OF va, of _ mx s pt] True by (intro copyinstr_page_found) auto
    then show ?thesis
      unfolding copyinstr_step[OF less.prems(1) mx r]
      using copied_in_page[OF va, of "Suc k" mx] True by (simp add: Let_def)
  next
    case False
    have "copyinstr_page (unat ?n) (phys s) (upa s pt va) dst di = (False, get_bytes (unat ?n) (phys s) (upa s pt va) dst di)"
    proof (rule copyinstr_page_none)
      show "phys s (upa s pt va + of_nat j) \<noteq> 0" if "j < unat ?n" for j
        using nz[of j] ubyte_page[OF va that] that False by simp
    qed
    moreover have k: "k - unat ?n < unat (mx - ?n)" using False less.prems(3) by (simp add: unat_rest)
    have "cstring_at s pt (PGROUNDDOWN va + 4096) (k - unat ?n)"
      using cstring_rest[OF r k] nz less.prems(2) False by simp
    note IH = less.hyps[OF page_left_decreases[OF mx] less.prems(1) this k]
    ultimately show ?thesis
      unfolding copyinstr_step[OF less.prems(1) mx r]
      using IH copied_in_split[OF va, of mx "Suc k" s pt dst di] False less.prems(3)
      by (simp add: Let_def Suc_diff_le)
  qed
qed


lemma copyinstr_fail:
  assumes "vm s fl pt" "\<not> (\<exists>k < unat mx. cstring_at s pt va k)"
  shows "\<exists>dst'. copyinstr pt dst di va mx s = Ret (-1, dst') s"
  using assms
proof (induction "unat mx" arbitrary: va mx dst di rule: less_induct)
  case less
  let ?n = "page_left va mx"
  show ?case
  proof (cases "mx > 0 \<and> readable s pt va")
    case False
    then show ?thesis
      using walkaddr_page[OF less.prems(1), of va] by (subst copyinstr.simps) (auto simp: Let_def)
  next
    case True
    then have mx: "mx > 0" and r: "readable s pt va" and va: "va < MAXVA"
      by (auto simp: readable_def uva_ok_def)
    have nz: "ubyte s pt (va + of_nat i) \<noteq> 0" if "i < unat ?n" for i
      using that
    proof (induction i rule: less_induct)
      case (less i)
      show ?case
      proof
        assume "ubyte s pt (va + of_nat i) = 0"
        moreover have "readable s pt (va + of_nat j)" if "j \<le> i" for j
          using page_readable[OF r, of j mx] that less.prems by simp
        ultimately have "cstring_at s pt va i"
          using less by (simp add: cstring_at_def)
        moreover have "i < unat mx" using less.prems by (simp add: unat_page_left)
        ultimately show False using \<open>\<not> (\<exists>k < unat mx. cstring_at s pt va k)\<close> by blast
      qed
    qed
    have "\<not> (\<exists>k < unat (mx - ?n). cstring_at s pt (PGROUNDDOWN va + 4096) k)"
      using cstring_rest[OF r _ nz] less.prems(2) rest_addr(2)[OF va] by blast
    note IH = less.hyps[OF page_left_decreases[OF mx] less.prems(1) this]
    have "copyinstr_page (unat ?n) (phys s) (upa s pt va) dst di = (False, get_bytes (unat ?n) (phys s) (upa s pt va) dst di)"
    proof (rule copyinstr_page_none)
      show "phys s (upa s pt va + of_nat j) \<noteq> 0" if "j < unat ?n" for j
        using nz[OF that] ubyte_page[OF va that] by simp
    qed
    then show ?thesis
      unfolding copyinstr_step[OF less.prems(1) mx r] using IH by (simp add: Let_def)
  qed
qed

end
