(* ===== verification/Vm_Props.thy ===== *)
theory Vm_Props
  imports Vm_Copy
begin

text \<open>
  The properties of \<^verbatim>\<open>kernel/vm.c\<close>, with a small concrete address space for their witnesses.
\<close>

section \<open>An address space for the witnesses\<close>

text \<open>
  One user page: the root table at \<open>0x87FFF000\<close>, the two lower tables below it, and the entry of
  user page 0 pointing at the frame \<open>0x87FFC000\<close>; one page is free.
\<close>

definition demo_root :: u64 where "demo_root = 0x87FFF000"
definition demo_mid :: u64 where "demo_mid = 0x87FFE000"
definition demo_low :: u64 where "demo_low = 0x87FFD000"
definition demo_frame :: u64 where "demo_frame = 0x87FFC000"
definition demo_free :: u64 where "demo_free = 0x87FFB000"

lemmas demo_pages = demo_root_def demo_mid_def demo_low_def demo_frame_def demo_free_def

definition demo_pte :: u64 where "demo_pte = PA2PTE demo_frame OR (PTE_R OR PTE_W OR PTE_U) OR PTE_V"

definition demo_mem :: mem where
  "demo_mem = st64 (st64 (st64 (\<lambda>_. 0) (slot demo_root 0) (PA2PTE demo_mid OR PTE_V))
     (slot demo_mid 0) (PA2PTE demo_low OR PTE_V)) (slot demo_low 0) demo_pte"

definition demo_vm :: kmem where
  "demo_vm = \<lparr>phys = demo_mem, freelist = demo_free, kend = 0x87FF0000\<rparr>"

lemma demo_aligned:
  "aligned demo_root" "aligned demo_mid" "aligned demo_low" "aligned demo_frame" "aligned demo_free"
  by (simp_all add: aligned_def demo_pages)

lemma ent_zero: "ent (\<lambda>_. 0) p i = 0"
  by (simp add: ent_def ld64_def le64_def le32_def)

lemma ent_st64_other:
  assumes "aligned p" "aligned q" "p \<noteq> q" "i < 512" "j < 512"
  shows "ent (st64 m (slot q j) v) p i = ent m p i"
proof -
  have "pfn (slot p i) \<noteq> pfn (slot q j)"
    using assms aligned_same_page by (auto simp: pfn_slot)
  then have "slot p i \<noteq> slot q j" by auto
  then show ?thesis
    using assms by (simp add: ent_def ld64_st64_other slot_cell)
qed

lemma demo_ne: "demo_root \<noteq> demo_mid" "demo_root \<noteq> demo_low" "demo_mid \<noteq> demo_low"
  "demo_mid \<noteq> demo_root" "demo_low \<noteq> demo_root" "demo_low \<noteq> demo_mid"
  "demo_root \<noteq> 0" "demo_mid \<noteq> 0" "demo_low \<noteq> 0" "demo_free \<noteq> 0"
  "demo_free \<noteq> demo_root" "demo_free \<noteq> demo_mid" "demo_free \<noteq> demo_low"
  "demo_frame \<noteq> demo_root" "demo_frame \<noteq> demo_mid" "demo_frame \<noteq> demo_low" "demo_frame \<noteq> demo_free"
  by (simp_all add: demo_pages)

lemma demo_ent:
  assumes "i < 512"
  shows "ent demo_mem demo_root i = (if i = 0 then PA2PTE demo_mid OR PTE_V else 0)"
    "ent demo_mem demo_mid i = (if i = 0 then PA2PTE demo_low OR PTE_V else 0)"
    "ent demo_mem demo_low i = (if i = 0 then demo_pte else 0)"
  using assms demo_aligned demo_ne
  by (simp_all add: demo_mem_def ent_st64 ent_st64_other ent_zero)

lemma demo_children:
  "PTE2PA (PA2PTE demo_mid OR 1) = demo_mid" "PTE2PA (PA2PTE demo_low OR 1) = demo_low"
  "(PA2PTE demo_mid OR 1) AND 1 \<noteq> 0" "(PA2PTE demo_low OR 1) AND 1 \<noteq> 0"
  by (simp_all add: PTE2PA_def PA2PTE_def demo_pages)

lemma demo_below_mid: "i < 512 \<Longrightarrow> below demo_mem 0 demo_mid i = (if i = 0 then {demo_low} else {})"
  by (simp add: below_def demo_ent demo_children)

lemma demo_below_root:
  "i < 512 \<Longrightarrow> below demo_mem (Suc 0) demo_root i = (if i = 0 then {demo_mid, demo_low} else {})"
proof -
  assume i: "i < 512"
  have "tables demo_mem (Suc 0) demo_mid = {demo_mid, demo_low}"
    using demo_below_mid by (auto simp: tables_Suc split: if_splits)
  then show ?thesis using i by (simp add: below_def demo_ent demo_children)
qed

lemma demo_tree: "tree demo_mem 2 demo_root" "tables demo_mem 2 demo_root = {demo_root, demo_mid, demo_low}"
proof -
  have t0: "tree demo_mem 0 demo_low" by (simp add: demo_aligned demo_ne)
  have t1: "tree demo_mem (Suc 0) demo_mid"
    using t0 demo_below_mid by (auto simp: tree_Suc demo_aligned demo_ent demo_children demo_ne split: if_splits)
  show "tree demo_mem 2 demo_root"
    using t1 demo_below_root by (auto simp: numeral_2_eq_2 tree_Suc demo_aligned demo_ent demo_children demo_ne split: if_splits)
  show "tables demo_mem 2 demo_root = {demo_root, demo_mid, demo_low}"
    using demo_below_root by (auto simp: numeral_2_eq_2 tables_Suc split: if_splits)
qed

lemma demo_pte_of:
  "pte_of demo_mem 2 demo_root va = (if px 2 va = 0 \<and> px 1 va = 0 \<and> px 0 va = 0 then demo_pte else 0)"
  using px_less by (simp add: numeral_2_eq_2 pte_of_Suc pte_of_0 demo_ent demo_children)

lemma demo_pte_page0: "va < 4096 \<Longrightarrow> pte demo_vm demo_root va = demo_pte"
  by (simp add: demo_vm_def demo_pte_of px_div word_less_nat_alt)

lemma demo_pte_page1: "unat va div 4096 = 1 \<Longrightarrow> pte demo_vm demo_root va = 0"
  by (simp add: demo_vm_def demo_pte_of px_div)

lemma demo_is_vm: "vm demo_vm [demo_free] demo_root"
proof -
  have "ld64 demo_mem demo_free = ent demo_mem demo_free 0" by (simp add: ent_def slot_def)
  also have "\<dots> = 0"
    using demo_aligned by (simp add: demo_mem_def ent_st64_other ent_zero demo_ne)
  finally have "kmem_inv demo_vm [demo_free]"
    by (simp add: kmem_inv_def demo_vm_def page_ok_def demo_aligned PHYSTOP_def) (simp add: demo_pages)
  then show ?thesis
    using demo_tree by (auto simp: vm_def demo_vm_def demo_ne)
qed

lemma demo_pte_value: "demo_pte = 0x21FFF017"
  by (simp add: demo_pte_def PA2PTE_def demo_pages)

lemma demo_access: "va < 4096 \<Longrightarrow> writable demo_vm demo_root va \<and> readable demo_vm demo_root va"
  by (simp add: writable_def readable_def uva_ok_def demo_pte_page0 demo_pte_value PTE2PA_def)
     (auto simp: MAXVA_def push_bit_eq_mult elim: less_trans)

lemma demo_frame_of: "PTE2PA demo_pte = demo_frame"
  by (simp add: demo_pte_value PTE2PA_def demo_pages)

section \<open>Properties\<close>

text \<open>
  (C6) \<^verbatim>\<open>mappages\<close> on a range of pages that are not mapped does not panic. It either returns 0 and has
  changed exactly the entries of the range, page \<open>i\<close> now pointing at page \<open>i\<close> of the physical range
  with the permissions asked for, or it returns -1, and then the free list is empty and a proper
  prefix of the range has been mapped. In both cases it writes only table pages, and the new table
  pages come from the front of the free list.
\<close>

theorem mappages_maps_range:
  assumes "vm s fl pt" "aligned va" "0 < n" "unat va + n * 4096 \<le> unat MAXVA"
    and "\<And>a. in_range va n a \<Longrightarrow> \<not> valid (pte s pt a)"
  shows "runs (mappages pt va (of_nat n * 4096) pa perm s) (\<lambda>r s'. \<exists>fl'.
     r = 0 \<and> remaps pt s fl s' fl' (map_range (pte s pt) va n pa perm) \<or>
     r = -1 \<and> fl' = [] \<and> (\<exists>k < n. remaps pt s fl s' fl' (map_range (pte s pt) va k pa perm)))"
proof -
  obtain k where k: "n = Suc k" using assms(3) by (cases n) auto
  have n: "unat (of_nat n * 4096 :: u64) = n * 4096"
    using assms(4) by (simp add: unat_word_ariths unat_of_nat unat_MAXVA)
  have "(of_nat n * 4096 :: u64) AND 4095 = 0"
    using n aligned_iff[of "of_nat n * 4096"] by (simp add: aligned_def)
  moreover have "(of_nat n * 4096 :: u64) \<noteq> 0" using n assms(3) by (metis mult_is_0 neq0_conv unat_0 zero_neq_numeral)
  moreover have "va + of_nat n * 4096 - 4096 = va + of_nat k * 4096" by (simp add: k algebra_simps)
  ultimately show ?thesis
    using mappages_loop_ok[of s fl pt va k pa perm] assms
    by (simp add: mappages_def aligned_def k in_range_def less_Suc_eq_le)
qed

theorem mappages_maps_range_witness:
  "vm demo_vm [demo_free] demo_root \<and>
   runs (mappages demo_root 4096 (of_nat 1 * 4096) demo_free (PTE_R OR PTE_U) demo_vm) (\<lambda>r s'. \<exists>fl'.
     r = 0 \<and> remaps demo_root demo_vm [demo_free] s' fl'
       (map_range (pte demo_vm demo_root) 4096 1 demo_free (PTE_R OR PTE_U)) \<or>
     r = -1 \<and> fl' = [] \<and> (\<exists>k < 1. remaps demo_root demo_vm [demo_free] s' fl'
       (map_range (pte demo_vm demo_root) 4096 k demo_free (PTE_R OR PTE_U))))"
proof -
  have "\<not> valid (pte demo_vm demo_root a)" if "in_range 4096 1 a" for a
  proof -
    have "unat a div 4096 = 1" using that by (intro div_nat_eqI) (simp_all add: in_range_def)
    then show ?thesis by (simp add: demo_pte_page1)
  qed
  moreover have "aligned 4096" by (simp add: aligned_def)
  ultimately show ?thesis
    using mappages_maps_range[of demo_vm "[demo_free]" demo_root 4096 1] demo_is_vm by (simp add: unat_MAXVA)
qed


text \<open>
  (C7) \<^verbatim>\<open>uvmunmap\<close> on a range of mapped leaf pages does not panic, clears exactly the entries of the
  range and keeps every table page. With \<^verbatim>\<open>do_free\<close> the frames of the range go to the front of the
  free list, the last page first.
\<close>

theorem uvmunmap_unmaps_range:
  assumes "vm s fl pt" "aligned va" "unat va + n * 4096 \<le> unat MAXVA"
    and "\<And>i. i < n \<Longrightarrow> leaf (pte s pt (va + of_nat i * 4096))"
    and "do_free \<Longrightarrow> owned s fl pt (frames s pt va n)"
  shows "runs (uvmunmap pt va (of_nat n) do_free s) (\<lambda>_ s'.
    vm s' (if do_free then rev (frames s pt va n) @ fl else fl) pt \<and> tbl s' pt = tbl s pt \<and>
    kend s' = kend s \<and>
    (\<forall>a. a < MAXVA \<longrightarrow> pte s' pt a = (if in_range va n a then 0 else pte s pt a)))"
  using uvmunmap_loop_ok[OF assms] assms(2) by (simp add: uvmunmap_def aligned_def)

theorem uvmunmap_unmaps_range_witness:
  "vm demo_vm [demo_free] demo_root \<and> leaf (pte demo_vm demo_root 0) \<and>
   runs (uvmunmap demo_root 0 (of_nat 1) True demo_vm) (\<lambda>_ s'.
     vm s' [demo_frame, demo_free] demo_root \<and>
     (\<forall>a. a < MAXVA \<longrightarrow> pte s' demo_root a = (if in_range 0 1 a then 0 else pte demo_vm demo_root a)))"
proof -
  have p: "pte demo_vm demo_root 0 = demo_pte" by (simp add: demo_pte_page0)
  have lf: "leaf (pte demo_vm demo_root 0)"
    unfolding p by (simp add: leaf_def demo_pte_value PTE_FLAGS_def)
  have fr: "frames demo_vm demo_root 0 1 = [demo_frame]" by (simp add: frames_def p demo_frame_of)
  have own: "owned demo_vm [demo_free] demo_root [demo_frame]"
    using demo_tree(2) by (simp add: owned_def demo_vm_def page_ok_def demo_aligned demo_ne PHYSTOP_def)
      (simp add: demo_pages)
  have al: "aligned 0" by (simp add: aligned_def)
  show ?thesis
    using uvmunmap_unmaps_range[OF demo_is_vm al, of 1 True] lf own demo_is_vm
    unfolding fr by (auto simp: unat_MAXVA elim!: runs_mono)
qed

text \<open>
  (C8) \<^verbatim>\<open>copyin\<close> returns 0 exactly when every byte of the source range is user-readable; then the
  destination holds the bytes the page table translates to, and nothing else changes. Otherwise it
  returns -1. The range may start anywhere and cross any number of pages.
\<close>

theorem copyin_reads_user_bytes:
  assumes "vm s fl pt"
  shows "if \<forall>i < unat len. readable s pt (va + of_nat i)
    then copyin pt dst di va len s = Ret (0, copied_in s pt dst di va (unat len)) s
    else \<exists>dst'. copyin pt dst di va len s = Ret (-1, dst') s"
  using copyin_all[OF assms, of len va dst di] copyin_fail[OF assms, of len va dst di] by presburger

lemma demo_small: "i < 4096 \<Longrightarrow> (of_nat i :: u64) < 4096"
  by (simp add: word_less_nat_alt unat_of_nat)

theorem copyin_reads_user_bytes_witness:
  "vm demo_vm [demo_free] demo_root \<and>
   copyin demo_root (\<lambda>_. 7) 0 8 100 demo_vm = Ret (0, copied_in demo_vm demo_root (\<lambda>_. 7) 0 8 100) demo_vm"
proof -
  have "\<forall>i < unat (100 :: u64). readable demo_vm demo_root (8 + of_nat i)"
    using demo_access demo_small[of "8 + i" for i] by simp
  then show ?thesis
    using copyin_reads_user_bytes[OF demo_is_vm, of 100 8 "\<lambda>_. 7" 0] demo_is_vm by simp
qed



lemma demo_private: "private_to demo_vm [demo_free] demo_root (byte_range 8 (unat (100 :: u64)))"
proof -
  have "pte demo_vm demo_root a = demo_pte" "pfn a = 0" if a: "a \<in> byte_range 8 (unat (100 :: u64))" for a
  proof -
    obtain i where "a = of_nat (8 + i)" "i < 100" using a by (auto simp: byte_range_def)
    then have "a < 4096" using demo_small[of "8 + i"] by simp
    then show "pte demo_vm demo_root a = demo_pte" "pfn a = 0"
      by (simp_all add: demo_pte_page0 pfn_def word_less_nat_alt)
  qed
  then show ?thesis
    using demo_tree(2) demo_ne by (simp add: private_to_def demo_frame_of demo_vm_def)
qed


text \<open>
  (C10) Round trip through user memory: what \<^verbatim>\<open>copyout\<close> stored at a readable, writable and private
  range, \<^verbatim>\<open>copyin\<close> from the same range returns.
\<close>

theorem copyout_copyin_roundtrip:
  assumes "vm s fl pt" "private_to s fl pt (byte_range va (unat len))"
    and "\<And>i. i < unat len \<Longrightarrow> writable s pt (va + of_nat i) \<and> readable s pt (va + of_nat i)"
  shows "runs (bnd (copyout pt va src len s) (\<lambda>_ s. copyin pt dst 0 va len s))
    (\<lambda>(r, d) s'. r = 0 \<and> (\<forall>i < unat len. d i = src i) \<and> (\<forall>i \<ge> unat len. d i = dst i))"
proof -
  obtain r s1 where s1: "copyout pt va src len s = Ret r s1" "wrote s fl pt va src (unat len) r s1"
    by (rule runsE[OF copyout_ok[OF assms(1,2)]])
  have vm1: "vm s1 fl pt" and e: "\<And>a. pte s1 pt a = pte s pt a"
    and b: "\<And>i. i < unat len \<Longrightarrow> phys s1 (upa s pt (va + of_nat i)) = src i"
    using s1(2) assms(3) by (simp_all add: wrote_def)
  have "\<forall>i < unat len. readable s1 pt (va + of_nat i)"
    using assms(3) by (simp add: same_ptes[OF e])
  then have "copyin pt dst 0 va len s1 = Ret (0, copied_in s1 pt dst 0 va (unat len)) s1"
    by (rule copyin_all[OF vm1])
  then show ?thesis
    using s1(1) b by (simp add: copied_in_def same_ptes[OF e])
qed

theorem copyout_copyin_roundtrip_witness:
  "runs (bnd (copyout demo_root 8 (\<lambda>i. of_nat i) 100 demo_vm) (\<lambda>_ s. copyin demo_root (\<lambda>_. 0) 0 8 100 s))
    (\<lambda>(r, d) s'. r = 0 \<and> (\<forall>i < unat (100 :: u64). d i = of_nat i) \<and> (\<forall>i \<ge> unat (100 :: u64). d i = 0))"
proof (rule copyout_copyin_roundtrip[OF demo_is_vm demo_private])
  show "writable demo_vm demo_root (8 + of_nat i) \<and> readable demo_vm demo_root (8 + of_nat i)"
    if "i < unat (100 :: u64)" for i
    using demo_access demo_small[of "8 + i"] that by simp
qed

lemma demo_zero: "pfn x = pfn demo_frame \<Longrightarrow> demo_mem x = 0"
proof -
  assume "pfn x = pfn demo_frame"
  then have "pfn x \<noteq> pfn demo_root" "pfn x \<noteq> pfn demo_mid" "pfn x \<noteq> pfn demo_low"
    by (simp_all add: demo_pages pfn_def)
  then show ?thesis
    using demo_aligned by (simp add: demo_mem_def st64_other_page slot_cell pfn_slot)
qed

text \<open>
  (C11) \<^verbatim>\<open>copyinstr\<close> succeeds exactly when a zero-terminated string of readable bytes that fits into
  \<^verbatim>\<open>max\<close> bytes, its terminator included, stands at the user address; then it copies the string with
  its terminator and nothing more. Otherwise it returns -1.
\<close>

theorem copyinstr_copies_string:
  assumes "vm s fl pt"
  shows "if \<exists>k < unat mx. cstring_at s pt va k
    then \<exists>k < unat mx. cstring_at s pt va k \<and>
           copyinstr pt dst di va mx s = Ret (0, copied_in s pt dst di va (Suc k)) s
    else \<exists>dst'. copyinstr pt dst di va mx s = Ret (-1, dst') s"
  using copyinstr_found[OF assms] copyinstr_fail[OF assms] by auto

theorem copyinstr_copies_string_witness:
  "vm demo_vm [demo_free] demo_root \<and> cstring_at demo_vm demo_root 8 0 \<and>
   (\<exists>k < unat (16 :: u64). cstring_at demo_vm demo_root 8 k \<and>
      copyinstr demo_root (\<lambda>_. 7) 0 8 16 demo_vm = Ret (0, copied_in demo_vm demo_root (\<lambda>_. 7) 0 8 (Suc k)) demo_vm)"
proof -
  have "readable demo_vm demo_root 8" using demo_access by simp
  moreover have "pfn (upa demo_vm demo_root 8) = pfn demo_frame"
    by (simp add: pfn_upa demo_pte_page0 demo_frame_of)
  then have "ubyte demo_vm demo_root 8 = 0"
    using demo_zero by (simp add: ubyte_def demo_vm_def)
  ultimately have "cstring_at demo_vm demo_root 8 0" by (simp add: cstring_at_def)
  moreover have "\<exists>k < unat (16 :: u64). cstring_at demo_vm demo_root 8 k" using calculation by (intro exI[of _ 0]) simp
  ultimately show ?thesis
    using copyinstr_copies_string[OF demo_is_vm, of 16 8 "\<lambda>_. 7" 0] demo_is_vm by simp
qed

end
