(* ===== verification/Spinlock.thy ===== *)
theory Spinlock
  imports Prelude
begin

text \<open>
  Spin locks and the nesting of interrupt disabling, \<^verbatim>\<open>kernel/spinlock.c\<close>. The rest of the development takes
  the sections between \<^verbatim>\<open>acquire\<close> and \<^verbatim>\<open>release\<close> as atomic; this theory shows what that rests on:
  a lock is held by at most one processor, and by a processor only with its interrupts off.
\<close>

section \<open>State and operations\<close>

text \<open>A processor's nesting depth, its saved interrupt flag and its interrupt flag (the bit of \<^verbatim>\<open>sstatus\<close>).\<close>

record cpu =
  noff :: int
  intena :: bool
  intr :: bool

record spinlock =
  lk_locked :: bool
  lk_cpu :: "nat option"

text \<open>The processors and the locks, by their addresses.\<close>

record locks =
  cpus :: "nat \<Rightarrow> cpu"
  lks :: "nat \<Rightarrow> spinlock"

definition upd_cpu :: "nat \<Rightarrow> (cpu \<Rightarrow> cpu) \<Rightarrow> locks \<Rightarrow> locks" where
  "upd_cpu c f s = s\<lparr>cpus := (cpus s)(c := f (cpus s c))\<rparr>"

definition upd_lk :: "nat \<Rightarrow> (spinlock \<Rightarrow> spinlock) \<Rightarrow> locks \<Rightarrow> locks" where
  "upd_lk l f s = s\<lparr>lks := (lks s)(l := f (lks s l))\<rparr>"

definition initlock :: "nat \<Rightarrow> locks \<Rightarrow> locks" where
  "initlock l s = upd_lk l (\<lambda>_. \<lparr>lk_locked = False, lk_cpu = None\<rparr>) s"

definition push_off :: "nat \<Rightarrow> locks \<Rightarrow> locks" where
  "push_off c s =
     (let old = intr (cpus s c);
          s = upd_cpu c (intr_update (\<lambda>_. False)) s;
          s = (if noff (cpus s c) = 0 then upd_cpu c (intena_update (\<lambda>_. old)) s else s)
      in upd_cpu c (noff_update (\<lambda>n. n + 1)) s)"

definition pop_off :: "nat \<Rightarrow> locks \<Rightarrow> (unit, locks) res" where
  "pop_off c s =
     (if intr (cpus s c) then Panic ''pop_off - interruptible''
      else if noff (cpus s c) < 1 then Panic ''pop_off''
      else
        let s = upd_cpu c (noff_update (\<lambda>n. n - 1)) s in
        if noff (cpus s c) = 0 \<and> intena (cpus s c) then Ret () (upd_cpu c (intr_update (\<lambda>_. True)) s)
        else Ret () s)"

definition holding :: "nat \<Rightarrow> nat \<Rightarrow> locks \<Rightarrow> bool" where
  "holding c l s \<longleftrightarrow> lk_locked (lks s l) \<and> lk_cpu (lks s l) = Some c"

text \<open>
  One turn of the loop of \<^verbatim>\<open>acquire\<close>: the atomic swap takes the lock, or the processor has to spin (the
  value \<open>False\<close>). \<open>acquire\<close> is the part before the loop with the first turn.
\<close>

definition acquire_turn :: "nat \<Rightarrow> nat \<Rightarrow> locks \<Rightarrow> bool \<times> locks" where
  "acquire_turn c l s =
     (if lk_locked (lks s l) then (False, s)
      else (True, upd_lk l (\<lambda>_. \<lparr>lk_locked = True, lk_cpu = Some c\<rparr>) s))"

definition acquire :: "nat \<Rightarrow> nat \<Rightarrow> locks \<Rightarrow> (bool, locks) res" where
  "acquire c l s =
     (let s = push_off c s in
      if holding c l s then Panic ''acquire''
      else let (got, s) = acquire_turn c l s in Ret got s)"

definition release :: "nat \<Rightarrow> nat \<Rightarrow> locks \<Rightarrow> (unit, locks) res" where
  "release c l s =
     (if \<not> holding c l s then Panic ''release''
      else pop_off c (upd_lk l (\<lambda>_. \<lparr>lk_locked = False, lk_cpu = None\<rparr>) s))"

section \<open>Processors competing for locks\<close>

text \<open>
  A history: \<open>held c\<close> lists the locks that processor \<open>c\<close> has acquired and not released, \<open>spin c\<close> the lock it
  spins on. Interrupt handlers run on the same processor and follow the same discipline, so their steps are
  steps of the processor; the processor may also switch its own interrupts while its depth is zero.
\<close>

record history =
  ls :: locks
  held :: "nat \<Rightarrow> nat set"
  spin :: "nat \<Rightarrow> nat option"

inductive lock_step :: "history \<Rightarrow> history \<Rightarrow> bool" where
  takes: "spin h c = None \<Longrightarrow> acquire c l (ls h) = Ret True s \<Longrightarrow>
     lock_step h (h\<lparr>ls := s, held := (held h)(c := insert l (held h c))\<rparr>)"
| spins: "spin h c = None \<Longrightarrow> acquire c l (ls h) = Ret False s \<Longrightarrow>
     lock_step h (h\<lparr>ls := s, spin := (spin h)(c := Some l)\<rparr>)"
| gets: "spin h c = Some l \<Longrightarrow> acquire_turn c l (ls h) = (True, s) \<Longrightarrow>
     lock_step h (h\<lparr>ls := s, held := (held h)(c := insert l (held h c)), spin := (spin h)(c := None)\<rparr>)"
| gives: "spin h c = None \<Longrightarrow> l \<in> held h c \<Longrightarrow> release c l (ls h) = Ret () s \<Longrightarrow>
     lock_step h (h\<lparr>ls := s, held := (held h)(c := held h c - {l})\<rparr>)"
| switches: "noff (cpus (ls h) c) = 0 \<Longrightarrow> lock_step h (h\<lparr>ls := upd_cpu c (intr_update (\<lambda>_. b)) (ls h)\<rparr>)"

inductive lock_reach :: "history \<Rightarrow> bool" where
  start: "(\<And>l. \<not> lk_locked (lks s l)) \<Longrightarrow> (\<And>c. noff (cpus s c) = 0) \<Longrightarrow> lock_reach \<lparr>ls = s, held = (\<lambda>_. {}), spin = (\<lambda>_. None)\<rparr>"
| step: "lock_reach h \<Longrightarrow> lock_step h h' \<Longrightarrow> lock_reach h'"

inductive_cases lock_stepE: "lock_step h h'"

definition lock_inv :: "history \<Rightarrow> bool" where
  "lock_inv h \<longleftrightarrow>
     (\<forall>c l. l \<in> held h c \<longleftrightarrow> holding c l (ls h)) \<and>
     (\<forall>c. finite (held h c) \<and> noff (cpus (ls h) c) = int (card (held h c)) + (if spin h c = None then 0 else 1) \<and>
        (held h c \<noteq> {} \<or> spin h c \<noteq> None \<longrightarrow> \<not> intr (cpus (ls h) c)))"

lemma lock_invD:
  assumes "lock_inv h"
  shows "l \<in> held h c \<longleftrightarrow> holding c l (ls h)" "finite (held h c)"
    "noff (cpus (ls h) c) = int (card (held h c)) + (if spin h c = None then 0 else 1)"
    "held h c \<noteq> {} \<or> spin h c \<noteq> None \<Longrightarrow> \<not> intr (cpus (ls h) c)"
  using assms unfolding lock_inv_def by blast+

lemma turn_True:
  assumes "acquire_turn c l s = (True, s')"
  shows "\<not> lk_locked (lks s l)" "lks s' = (lks s)(l := \<lparr>lk_locked = True, lk_cpu = Some c\<rparr>)" "cpus s' = cpus s"
  using assms by (auto simp: acquire_turn_def upd_lk_def split: if_splits)

lemma push_off_cpu:
  "lks (push_off c s) = lks s" "noff (cpus (push_off c s) c) = noff (cpus s c) + 1" "\<not> intr (cpus (push_off c s) c)"
  "d \<noteq> c \<Longrightarrow> cpus (push_off c s) d = cpus s d"
  by (auto simp: push_off_def upd_cpu_def Let_def)

lemma acquire_Ret:
  assumes "acquire c l s = Ret got s'"
  shows "acquire_turn c l (push_off c s) = (got, s')" "\<not> holding c l (push_off c s)"
  using assms by (auto simp: acquire_def Let_def split: if_splits prod.splits)

text \<open>Taking a free lock keeps the invariant, when the depth of the processor already accounts for it.\<close>

lemma turn_inv:
  assumes inv: "lock_inv h" and t: "acquire_turn c l s = (True, s')"
    and s: "lks s = lks (ls h)" "\<And>d. d \<noteq> c \<Longrightarrow> cpus s d = cpus (ls h) d"
      "noff (cpus s c) = int (card (held h c)) + 1" "\<not> intr (cpus s c)"
  shows "lock_inv (h\<lparr>ls := s', held := (held h)(c := insert l (held h c)), spin := (spin h)(c := None)\<rparr>)"
proof -
  note a = turn_True[OF t] and i = lock_invD[OF inv]
  have n: "l \<notin> held h d" for d using i(1)[of l d] a(1) s(1) by (auto simp: holding_def)
  have "holding d m s' \<longleftrightarrow> holding d m (ls h) \<or> (d = c \<and> m = l)" for d m
    using a(1) s(1) by (auto simp: holding_def a(2))
  then have h: "m \<in> ((held h)(c := insert l (held h c))) d \<longleftrightarrow> holding d m s'" for d m
    using i(1)[of m d] by auto
  have "finite (held h c)" by (rule i(2))
  then show ?thesis
    using h i(2,3) s(2-4) n a(3) inv by (auto simp: lock_inv_def)
qed

lemma release_Ret:
  assumes "release c l s = Ret () s'"
  shows "holding c l s" "lks s' = (lks s)(l := \<lparr>lk_locked = False, lk_cpu = None\<rparr>)"
    "noff (cpus s' c) = noff (cpus s c) - 1" "noff (cpus s' c) \<noteq> 0 \<Longrightarrow> \<not> intr (cpus s' c)"
    "c' \<noteq> c \<Longrightarrow> cpus s' c' = cpus s c'"
  using assms by (auto simp: release_def pop_off_def upd_cpu_def upd_lk_def Let_def split: if_splits)

lemma release_inv:
  assumes inv: "lock_inv h" and l: "l \<in> held h c" and r: "release c l (ls h) = Ret () s" and sp: "spin h c = None"
  shows "lock_inv (h\<lparr>ls := s, held := (held h)(c := held h c - {l})\<rparr>)"
proof -
  note r = release_Ret[OF r] and i = lock_invD[OF inv]
  have "holding d m s \<longleftrightarrow> holding d m (ls h) \<and> m \<noteq> l" for d m
    by (auto simp: holding_def r(2))
  moreover have "l \<notin> held h d" if "d \<noteq> c" for d
    using l i(1)[of l d] i(1)[of l c] that by (auto simp: holding_def)
  ultimately have h: "m \<in> ((held h)(c := held h c - {l})) d \<longleftrightarrow> holding d m s" for d m
    using i(1)[of m d] by auto
  have c: "card (held h c) = card (held h c - {l}) + 1" using l i(2)[of c] by (metis Suc_eq_plus1 card_Suc_Diff1)
  have o: "cpus s d = cpus (ls h) d" if "d \<noteq> c" for d using r(5) that .
  have "held h c - {l} \<noteq> {} \<longrightarrow> \<not> intr (cpus s c)"
  proof
    assume "held h c - {l} \<noteq> {}"
    then have "card (held h c - {l}) \<noteq> 0" using i(2)[of c] by (metis card_0_eq finite_Diff)
    then show "\<not> intr (cpus s c)" using r(3,4) i(3)[of c] sp c by simp
  qed
  then show ?thesis using h i(2,3) o r(3) c sp inv by (auto simp: lock_inv_def)
qed

lemma lock_inv_step:
  assumes "lock_step h h'" "lock_inv h"
  shows "lock_inv h'"
  using assms
proof (induction rule: lock_step.induct)
  case (takes h c l s)
  have "h\<lparr>spin := (spin h)(c := None)\<rparr> = h" using takes(1) by (auto simp: fun_upd_idem)
  then have e: "h\<lparr>ls := s, held := (held h)(c := insert l (held h c)), spin := (spin h)(c := None)\<rparr> =
      h\<lparr>ls := s, held := (held h)(c := insert l (held h c))\<rparr>" by (cases h) auto
  show ?case
    using turn_inv[OF takes(3) acquire_Ret(1)[OF takes(2)]] takes(1) lock_invD(3)[OF takes(3), of c]
    by (simp add: push_off_cpu e)
next
  case (spins h c l s)
  have s: "s = push_off c (ls h)"
    using acquire_Ret(1)[OF spins(2)] by (auto simp: acquire_turn_def split: if_splits)
  have "holding d m s = holding d m (ls h)" for d m by (simp add: holding_def s push_off_cpu)
  then show ?case
    using spins(1,3) by (auto simp: lock_inv_def s push_off_cpu)
next
  case (gets h c l s)
  then show ?case
    using turn_inv[OF gets(3,2)] lock_invD(3,4)[OF gets(3), of c] by simp
next
  case (gives h c l s)
  then show ?case using release_inv by blast
next
  case (switches h c b)
  have "held h c = {}" "spin h c = None"
    using lock_invD(2,3)[OF switches(2), of c] switches(1) by (auto split: if_splits)
  then show ?case using switches(2) by (auto simp: lock_inv_def upd_cpu_def holding_def)
qed

lemma lock_reach_inv: "lock_reach h \<Longrightarrow> lock_inv h"
  by (induction rule: lock_reach.induct) (auto simp: lock_inv_def[of "\<lparr>ls = s, held = h, spin = p\<rparr>" for s h p] holding_def intro: lock_inv_step)

section \<open>Properties\<close>

text \<open>
  (C21) Spin locks exclude: in every reachable state a lock is held by at most one processor, and a
  processor that holds a lock has its interrupts off.
\<close>

theorem spinlock_exclusion:
  assumes "lock_reach h" "l \<in> held h c" "l \<in> held h d"
  shows "c = d \<and> \<not> intr (cpus (ls h) c)"
proof -
  note i = lock_invD[OF lock_reach_inv[OF assms(1)]]
  have "c = d" using i(1)[of l c] i(1)[of l d] assms(2,3) by (simp add: holding_def)
  then show ?thesis using i(4)[of c] assms(2) by blast
qed

text \<open>
  (C22) Interrupt nesting: taking any number of locks and releasing as many restores the
  processor's interrupt flag: \<^verbatim>\<open>pop_off\<close> undoes \<^verbatim>\<open>push_off\<close> and re-enables interrupts exactly when they were
  enabled before the outermost \<^verbatim>\<open>push_off\<close>.
\<close>

theorem push_pop_restores:
  assumes "0 \<le> noff (cpus s c)" "noff (cpus s c) > 0 \<longrightarrow> \<not> intr (cpus s c)"
  shows "\<exists>s'. pop_off c (push_off c s) = Ret () s' \<and> noff (cpus s' c) = noff (cpus s c) \<and>
    intr (cpus s' c) = intr (cpus s c) \<and> lks s' = lks s \<and> (noff (cpus s c) > 0 \<longrightarrow> s' = s)"
  using assms by (auto simp: push_off_def pop_off_def upd_cpu_def Let_def comp_def fun_eq_iff intro!: locks.equality cpu.equality)

text \<open>Two processors with interrupts on and no lock held.\<close>

definition demo_locks :: locks where
  "demo_locks = \<lparr>cpus = (\<lambda>_. \<lparr>noff = 0, intena = False, intr = True\<rparr>),
     lks = (\<lambda>_. \<lparr>lk_locked = False, lk_cpu = None\<rparr>)\<rparr>"

theorem push_pop_restores_witness:
  "\<exists>s'. pop_off 0 (push_off 0 demo_locks) = Ret () s' \<and> noff (cpus s' 0) = noff (cpus demo_locks 0) \<and>
    intr (cpus s' 0) = intr (cpus demo_locks 0)"
  using push_pop_restores[of demo_locks 0] by (auto simp: demo_locks_def)

theorem spinlock_exclusion_witness:
  "\<exists>s. acquire 0 7 demo_locks = Ret True s \<and> \<not> intr (cpus s 0)"
proof -
  obtain s where s: "acquire 0 7 demo_locks = Ret True s"
    by (simp add: acquire_def acquire_turn_def demo_locks_def push_off_def upd_cpu_def holding_def Let_def)
  have "lock_step \<lparr>ls = demo_locks, held = (\<lambda>_. {}), spin = (\<lambda>_. None)\<rparr> \<lparr>ls = s, held = (\<lambda>_. {})(0 := {7}), spin = (\<lambda>_. None)\<rparr>"
    using lock_step.takes[of "\<lparr>ls = demo_locks, held = (\<lambda>_. {}), spin = (\<lambda>_. None)\<rparr>" 0 7 s] s by simp
  moreover have "lock_reach \<lparr>ls = demo_locks, held = (\<lambda>_. {}), spin = (\<lambda>_. None)\<rparr>"
    by (rule lock_reach.start) (simp_all add: demo_locks_def)
  ultimately have "lock_reach \<lparr>ls = s, held = (\<lambda>_. {})(0 := {7}), spin = (\<lambda>_. None)\<rparr>" by (rule lock_reach.step[rotated])
  then show ?thesis using spinlock_exclusion[of "\<lparr>ls = s, held = (\<lambda>_. {})(0 := {7}), spin = (\<lambda>_. None)\<rparr>" 7 0 0] s by simp
qed

end
