(* ===== verification/Pipe_Queue.thy ===== *)
theory Pipe_Queue
  imports Pipe Ring Vm_Props
begin

text \<open>
  Pipes are byte queues: \<^verbatim>\<open>pipewrite\<close> appends the caller's bytes and \<^verbatim>\<open>piperead\<close> removes bytes from the front, across any number
  of wrap-arounds of the counters.
\<close>

section \<open>The queue\<close>

definition pq :: "pipe \<Rightarrow> u8 list" where
  "pq p = ring 512 (pdata p) (nread p) (nwrite p)"

definition pipe_inv :: "pipe \<Rightarrow> bool" where
  "pipe_inv p \<longleftrightarrow> unat (nwrite p - nread p) \<le> 512"

lemma length_pq [simp]: "length (pq p) = unat (nwrite p - nread p)"
  by (simp add: pq_def)

lemma unat_mod512: "unat (x mod 512 :: u32) = unat x mod 512"
  by (simp add: unat_mod)

lemma pipe_put_ok:
  assumes "length (pq p) < 512"
  shows "pipe_inv (pipe_put c p)" "pq (pipe_put c p) = pq p @ [c]"
proof -
  have n: "unat (nwrite p - nread p) < 512" using assms by simp
  have d: "(512 :: nat) dvd 2 ^ LENGTH(32)" by simp
  show q: "pq (pipe_put c p) = pq p @ [c]"
    using ring_put[of 512 "nwrite p" "nread p" "pdata p" c, OF d _ n] by (simp add: pq_def pipe_put_def unat_mod512)
  have "unat (nwrite (pipe_put c p) - nread (pipe_put c p)) = length (pq (pipe_put c p))" by simp
  then show "pipe_inv (pipe_put c p)" unfolding pipe_inv_def using n by (simp only: q) simp
qed

lemma pipe_get_ok:
  assumes "pipe_inv p" "pq p \<noteq> []"
  shows "fst (pipe_get p) = hd (pq p)" "pq (snd (pipe_get p)) = tl (pq p)" "pipe_inv (snd (pipe_get p))"
proof -
  have ne: "nread p \<noteq> nwrite p" using assms(2) by (auto simp: pq_def)
  have d: "(512 :: nat) dvd 2 ^ LENGTH(32)" by simp
  have q: "pq p = pdata p (unat (nread p) mod 512) # pq (snd (pipe_get p))"
    using ring_get[of 512 "nread p" "nwrite p" "pdata p", OF d ne] by (simp add: pq_def pipe_get_def)
  then show "fst (pipe_get p) = hd (pq p)" "pq (snd (pipe_get p)) = tl (pq p)"
    by (simp_all add: pipe_get_def unat_mod512)
  have "length (pq p) = Suc (length (pq (snd (pipe_get p))))" by (subst q) simp
  then show "pipe_inv (snd (pipe_get p))" using assms(1) by (simp add: pipe_inv_def)
qed

interpretation pf: fifo pipe_put pipe_get pq pipe_inv 512
proof (unfold_locales, goal_cases)
  case (1 s b)
  then show ?case using pipe_put_ok by blast
next
  case (2 s)
  then show ?case using pipe_get_ok[OF 2] by (metis prod.collapse)
next
  case (3 s)
  then show ?case by (simp add: pipe_inv_def)
qed

lemma pq_empty_iff: "nread p = nwrite p \<longleftrightarrow> pq p = []"
proof -
  have "pq p = [] \<longleftrightarrow> unat (nwrite p - nread p) = 0" by (metis length_0_conv length_pq)
  then show ?thesis by (auto simp: unat_eq_0)
qed

lemma pq_full_iff: "pipe_inv p \<Longrightarrow> nwrite p = nread p + 512 \<longleftrightarrow> \<not> length (pq p) < 512"
proof -
  assume i: "pipe_inv p"
  have "nwrite p = nread p + 512 \<longleftrightarrow> nwrite p - nread p = 512" by (auto simp: algebra_simps)
  also have "\<dots> \<longleftrightarrow> unat (nwrite p - nread p) = 512" by (simp add: word_unat_eq_iff)
  finally show ?thesis using i by (auto simp: pipe_inv_def)
qed

section \<open>Writing\<close>

text \<open>The bytes of user memory that a write takes.\<close>

definition user_bytes :: "kmem \<Rightarrow> u64 \<Rightarrow> u64 \<Rightarrow> nat \<Rightarrow> nat \<Rightarrow> u8 list" where
  "user_bytes m pt addr i n = map (\<lambda>j. ubyte m pt (addr + of_nat j)) [i..<n]"

lemma copyin_byte:
  assumes "vm m fl pt" "readable m pt va"
  shows "copyin pt (\<lambda>_. 0) 0 va 1 m = Ret (0, copied_in m pt (\<lambda>_. 0) 0 va 1) m"
    "copied_in m pt (\<lambda>_. 0) 0 va 1 0 = ubyte m pt va"
  using copyin_all[OF assms(1), of 1 va "\<lambda>_. 0" 0] assms(2) by (simp_all add: copied_in_def ubyte_def)

lemma pipewrite_loop_ok:
  assumes "vm (pmem s) fl pt" "pipe_inv (pp s)" "readopen (pp s)"
    and "\<And>j. j < i + k \<Longrightarrow> readable (pmem s) pt (addr + of_nat j)"
  shows "let m = min k (512 - length (pq (pp s))) in
    runs (pipewrite_loop k i pt pi False addr s) (\<lambda>x s'. pmem s' = pmem s \<and> pipe_inv (pp s') \<and>
      pq (pp s') = pq (pp s) @ user_bytes (pmem s) pt addr i (i + m) \<and>
      x = (if m = k then Done (int (i + k)) else Wait (i + m)))"
  using assms
proof (induction k arbitrary: i s)
  case 0
  then show ?case by (simp add: user_bytes_def pwake_def)
next
  case (Suc k)
  show ?case
  proof (cases "length (pq (pp s)) < 512")
    case False
    then show ?thesis
      using Suc.prems pq_full_iff[OF Suc.prems(2)] by (simp add: user_bytes_def pwake_def Let_def)
  next
    case True
    let ?b = "ubyte (pmem s) pt (addr + of_nat i)"
    let ?s = "s\<lparr>pp := pipe_put ?b (pp s)\<rparr>"
    have cb: "copyin pt (\<lambda>_. 0) 0 (addr + of_nat i) 1 (pmem s) =
        Ret (0, copied_in (pmem s) pt (\<lambda>_. 0) 0 (addr + of_nat i) 1) (pmem s)"
      "copied_in (pmem s) pt (\<lambda>_. 0) 0 (addr + of_nat i) 1 0 = ?b"
      using copyin_byte[OF Suc.prems(1)] Suc.prems(4)[of i] by auto
    have step: "pipewrite_loop (Suc k) i pt pi False addr s = pipewrite_loop k (Suc i) pt pi False addr ?s"
      using Suc.prems(3) True pq_full_iff[OF Suc.prems(2)] by (simp add: on_pmem_def cb(1)) (simp add: cb(2)[simplified])
    note q = pipe_put_ok[OF True, of ?b]
    have m: "min (Suc k) (512 - length (pq (pp s))) = Suc (min k (512 - length (pq (pp ?s))))"
      using True by (simp add: q(2) del: length_pq)
    have ub: "user_bytes (pmem s) pt addr i (i + Suc n) = ?b # user_bytes (pmem s) pt addr (Suc i) (Suc i + n)" for n
      by (simp add: user_bytes_def upt_conv_Cons del: upt_Suc)
    have "readopen (pp ?s)" using Suc.prems(3) by (simp add: pipe_put_def)
    then have "let m = min k (512 - length (pq (pp ?s))) in
      runs (pipewrite_loop k (Suc i) pt pi False addr ?s) (\<lambda>x s'. pmem s' = pmem ?s \<and> pipe_inv (pp s') \<and>
        pq (pp s') = pq (pp ?s) @ user_bytes (pmem ?s) pt addr (Suc i) (Suc i + m) \<and>
        x = (if m = k then Done (int (Suc i + k)) else Wait (Suc i + m)))"
      using Suc.IH[of ?s "Suc i"] Suc.prems(1,4) q(1) by simp
    then show ?thesis
      unfolding step m Let_def ub by (rule runs_mono) (auto simp: q(2) simp del: length_pq)
  qed
qed

section \<open>Reading\<close>

text \<open>Memory \<open>m'\<close> is \<open>m\<close> with the bytes \<open>bs\<close> stored in user memory from \<open>addr + i\<close> on, and nothing else changed.\<close>

definition filled :: "kmem \<Rightarrow> kmem \<Rightarrow> u64 list \<Rightarrow> u64 \<Rightarrow> u64 \<Rightarrow> nat \<Rightarrow> u8 list \<Rightarrow> bool" where
  "filled m m' fl pt addr i bs \<longleftrightarrow> vm m' fl pt \<and> (\<forall>va. pte m' pt va = pte m pt va) \<and> tbl m' pt = tbl m pt \<and>
     (\<forall>j < length bs. phys m' (upa m pt (addr + of_nat (i + j))) = bs ! j) \<and>
     (\<forall>x. (\<forall>j < length bs. x \<noteq> upa m pt (addr + of_nat (i + j))) \<longrightarrow> phys m' x = phys m x)"

lemma upa_distinct:
  assumes "private_to m fl pt (byte_range addr n)" "n \<le> 2 ^ 63" "j < n" "k < n" "j \<noteq> k"
    and "\<And>j. j < n \<Longrightarrow> writable m pt (addr + of_nat j)"
  shows "upa m pt (addr + of_nat j) \<noteq> upa m pt (addr + of_nat k)"
proof
  let ?a = "addr + of_nat j" and ?b = "addr + of_nat k"
  assume e: "upa m pt ?a = upa m pt ?b"
  have "pfn ?a = pfn ?b"
    by (rule upa_inject[OF assms(1)]) (use assms(3,4,6) e in \<open>auto simp: byte_range_def\<close>)
  moreover have "PTE2PA (pte m pt ?a) = PTE2PA (pte m pt ?b)"
    using e by (intro aligned_same_page[OF PTE2PA_aligned PTE2PA_aligned]) (simp flip: pfn_upa)
  then have "unat ?a mod 4096 = unat ?b mod 4096" using e unat_upa[of m pt ?a] unat_upa[of m pt ?b] by simp
  ultimately have "?a = ?b" by (metis pfn_def div_mult_mod_eq word_unat_eq_iff)
  then have "(of_nat j :: u64) = of_nat k" by simp
  then show False using assms(2-5) unat_of_nat_u64[of j] unat_of_nat_u64[of k] by simp
qed

lemma filled_Cons:
  assumes "filled m m1 fl pt addr i [c]" "filled m1 m2 fl pt addr (Suc i) bs"
    and d: "\<And>j. j < length bs \<Longrightarrow> upa m pt (addr + of_nat i) \<noteq> upa m pt (addr + of_nat (Suc i + j))"
  shows "filled m m2 fl pt addr i (c # bs)"
proof -
  have e: "\<And>va. pte m1 pt va = pte m pt va" using assms(1) by (simp add: filled_def)
  note f = assms(1,2)[unfolded filled_def same_ptes(3)[OF e]]
  have "phys m2 (upa m pt (addr + of_nat i)) = phys m1 (upa m pt (addr + of_nat i))" using f d by simp
  then have "phys m2 (upa m pt (addr + of_nat (i + j))) = (c # bs) ! j" if "j < Suc (length bs)" for j
    using f that by (cases j) auto
  moreover have "phys m2 x = phys m x" if "\<forall>j < Suc (length bs). x \<noteq> upa m pt (addr + of_nat (i + j))" for x
  proof -
    have "x \<noteq> upa m pt (addr + of_nat (Suc i + j))" if "j < length bs" for j
      using that \<open>\<forall>j < Suc (length bs). _ j\<close>[rule_format, of "Suc j"] by simp
    then show ?thesis using f that[rule_format, of 0] by simp
  qed
  ultimately show ?thesis using f unfolding filled_def by simp
qed

lemma filled_private:
  assumes "filled m m' fl pt addr i bs"
  shows "private_to m' fl pt A = private_to m fl pt A" "writable m' pt a = writable m pt a"
  using assms same_ptes(1)[of m' pt m] by (simp_all add: filled_def private_to_def)

lemma copyout_byte:
  assumes "vm m fl pt" "private_to m fl pt A" "addr + of_nat i \<in> A" "writable m pt (addr + of_nat i)"
  shows "runs (copyout pt (addr + of_nat i) (\<lambda>_. c) 1 m) (\<lambda>r m'. r = 0 \<and> filled m m' fl pt addr i [c])"
proof -
  have "private_to m fl pt (byte_range (addr + of_nat i) (unat (1 :: u64)))"
    by (rule private_to_mono[OF assms(2)]) (use assms(3) in \<open>auto simp: byte_range_def\<close>)
  then show ?thesis
    using assms(4) by (intro runs_mono[OF copyout_ok[OF assms(1)]]) (auto simp: wrote_def filled_def)
qed

lemma piperead_loop_ok:
  assumes "vm (pmem s) fl pt" "pipe_inv (pp s)" "private_to (pmem s) fl pt (byte_range addr n)" "n \<le> 2 ^ 63" "i + k \<le> n"
    and "\<And>j. j < n \<Longrightarrow> writable (pmem s) pt (addr + of_nat j)"
  shows "let bs = take k (pq (pp s)) in
    runs (piperead_loop k i pt pi addr s) (\<lambda>x s'. x = Done (int (i + length bs)) \<and> pipe_inv (pp s') \<and>
      pq (pp s') = drop k (pq (pp s)) \<and> filled (pmem s) (pmem s') fl pt addr i bs)"
  using assms
proof (induction k arbitrary: i s)
  case 0
  then show ?case by (simp add: pwake_def filled_def)
next
  case (Suc k)
  show ?case
  proof (cases "pq (pp s)")
    case Nil
    then show ?thesis using Suc.prems by (simp add: iffD2[OF pq_empty_iff] pwake_def filled_def)
  next
    case (Cons c cs)
    note g = pipe_get_ok[OF Suc.prems(2), unfolded Cons]
    let ?s = "s\<lparr>pp := snd (pipe_get (pp s))\<rparr>"
    have ne: "nread (pp s) \<noteq> nwrite (pp s)" using Cons by (simp add: pq_empty_iff)
    have "runs (copyout pt (addr + of_nat i) (\<lambda>_. c) 1 (pmem s)) (\<lambda>r m'. r = 0 \<and> filled (pmem s) m' fl pt addr i [c])"
      by (rule copyout_byte[OF Suc.prems(1,3)]) (use Suc.prems(5,6) in \<open>auto simp: byte_range_def\<close>)
    then obtain m1 where m1: "copyout pt (addr + of_nat i) (\<lambda>_. c) 1 (pmem s) = Ret 0 m1" "filled (pmem s) m1 fl pt addr i [c]"
      by (auto elim: runsE)
    let ?t = "?s\<lparr>pmem := m1\<rparr>"
    have step: "piperead_loop (Suc k) i pt pi addr s = piperead_loop k (Suc i) pt pi addr ?t"
      using ne g(1) m1(1) by (simp add: on_pmem_def split_beta Let_def)
    have IH: "let bs = take k (pq (pp ?t)) in
      runs (piperead_loop k (Suc i) pt pi addr ?t) (\<lambda>x s'. x = Done (int (Suc i + length bs)) \<and> pipe_inv (pp s') \<and>
        pq (pp s') = drop k (pq (pp ?t)) \<and> filled (pmem ?t) (pmem s') fl pt addr (Suc i) bs)"
      by (rule Suc.IH) (use Suc.prems g filled_private[OF m1(2)] m1(2) in \<open>auto simp: filled_def\<close>)
    have d: "upa (pmem s) pt (addr + of_nat i) \<noteq> upa (pmem s) pt (addr + of_nat (Suc i + j))" if "j < length (take k cs)" for j
      by (rule upa_distinct[OF Suc.prems(3,4)]) (use that Suc.prems(5,6) in auto)
    have f: "filled (pmem s) m2 fl pt addr i (c # take k cs)" if "filled m1 m2 fl pt addr (Suc i) (take k cs)" for m2
      by (rule filled_Cons[OF m1(2) that d])
    show ?thesis
      using IH g(2) f unfolding step Let_def Cons by (auto elim!: runs_mono)
  qed
qed

section \<open>Properties\<close>

text \<open>
  (C27) While the read end is open, \<^verbatim>\<open>pipewrite\<close> appends the caller's bytes, in order, to what the pipe holds: all of them if they
  fit, in which case it returns the count, and otherwise as many as there is room for, after which the caller waits with that
  progress recorded. No byte is lost, reordered or overwritten, also when the 32-bit counters wrap.
\<close>

theorem pipewrite_appends:
  assumes "vm (pmem s) fl pt" "pipe_inv (pp s)" "readopen (pp s)"
    and "\<And>j. j < nat n \<Longrightarrow> readable (pmem s) pt (addr + of_nat j)"
  shows "let m = min (nat n) (512 - length (pq (pp s))) in
    runs (pipewrite pt pi False addr n s) (\<lambda>x s'. pmem s' = pmem s \<and> pipe_inv (pp s') \<and>
      pq (pp s') = pq (pp s) @ user_bytes (pmem s) pt addr 0 m \<and>
      x = (if m = nat n then Done (int (nat n)) else Wait m))"
  using pipewrite_loop_ok[OF assms(1-3), of 0 "nat n" addr] assms(4) unfolding pipewrite_def add_0 by blast

definition demo_pipe :: pipe where
  "demo_pipe = \<lparr>pdata = (\<lambda>i. of_nat i), nread = - 2, nwrite = 498, readopen = True, writeopen = True\<rparr>"

definition demo_pmem :: pipe_mem where
  "demo_pmem = \<lparr>pp = demo_pipe, pmem = demo_vm, pwakes = []\<rparr>"

lemma demo_pipe_inv: "pipe_inv demo_pipe" "length (pq demo_pipe) = 500"
  by (simp_all add: pipe_inv_def demo_pipe_def)

theorem pipewrite_appends_witness:
  "runs (pipewrite demo_root 0x87FF0000 False 8 100 demo_pmem) (\<lambda>x s'.
     pq (pp s') = pq demo_pipe @ user_bytes demo_vm demo_root 8 0 12 \<and> x = Wait 12)"
proof -
  have "readable demo_vm demo_root (8 + of_nat j)" if "j < nat 100" for j
    using demo_access demo_small[of "8 + j"] that by simp
  then show ?thesis
    using pipewrite_appends[of demo_pmem "[demo_free]" demo_root 100 8 "0x87FF0000"] demo_is_vm demo_pipe_inv
    by (simp add: demo_pmem_def demo_pipe_def del: length_pq) (auto elim!: runs_mono)
qed

text \<open>
  (C28) \<^verbatim>\<open>piperead\<close> from a non-empty pipe, or from one whose writers are gone, takes the oldest bytes of the pipe, at most as many as
  asked for, stores them in order in the caller's buffer and returns their number; the rest of the pipe and every other byte of
  memory stay. An empty pipe with a writer makes the caller wait, or fail when it was killed.
\<close>

theorem piperead_takes_oldest:
  assumes "vm (pmem s) fl pt" "pipe_inv (pp s)" "private_to (pmem s) fl pt (byte_range addr (nat n))" "n \<le> 2 ^ 63"
    and "\<And>j. j < nat n \<Longrightarrow> writable (pmem s) pt (addr + of_nat j)"
  shows "if pq (pp s) = [] \<and> writeopen (pp s) then piperead pt pi kld addr n s = Ret (if kld then Done (-1) else Wait 0) s
    else runs (piperead pt pi kld addr n s) (\<lambda>x s'. x = Done (int (length (take (nat n) (pq (pp s))))) \<and> pipe_inv (pp s') \<and>
      pq (pp s') = drop (nat n) (pq (pp s)) \<and> filled (pmem s) (pmem s') fl pt addr 0 (take (nat n) (pq (pp s))))"
proof -
  have "nat n \<le> 2 ^ 63" using assms(4) by simp
  note l = piperead_loop_ok[OF assms(1-3) this, of 0 "nat n", unfolded Let_def, simplified]
  show ?thesis using l assms(5) by (simp add: piperead_def pq_empty_iff)
qed

theorem piperead_takes_oldest_witness:
  "runs (piperead demo_root 0x87FF0000 False 8 100 demo_pmem) (\<lambda>x s'. x = Done 100 \<and>
     pq (pp s') = drop 100 (pq demo_pipe) \<and> filled demo_vm (pmem s') [demo_free] demo_root 8 0 (take 100 (pq demo_pipe)))"
proof -
  have "writable demo_vm demo_root (8 + of_nat j)" if "j < nat 100" for j
    using demo_access demo_small[of "8 + j"] that by simp
  moreover have "pq demo_pipe \<noteq> []" using demo_pipe_inv(2) by (auto simp del: length_pq)
  ultimately show ?thesis
    using piperead_takes_oldest[of demo_pmem "[demo_free]" demo_root 8 100 "0x87FF0000" False] demo_is_vm demo_pipe_inv demo_private
    by (simp add: demo_pmem_def del: length_pq) (auto elim!: runs_mono)
qed

end
