(* ===== verification/Digits.thy ===== *)
theory Digits
  imports Prelude
begin

text \<open>
  The conversion of a machine word to digits that the two \<^verbatim>\<open>printint\<close> routines, in \<^verbatim>\<open>kernel/printf.c\<close> and \<^verbatim>\<open>user/printf.c\<close>, share:
  how many digits the loop stores, and that they denote the number. It also has the variable arguments of the two \<^verbatim>\<open>printf\<close>.
\<close>

section \<open>Variable arguments and formats\<close>

text \<open>
  The variable arguments of a call are a list. Taking an argument that is missing or of the wrong kind is undefined in C and
  is the outcome \<open>Diverge\<close>. Reading a format past its end gives the terminating zero.
\<close>

datatype arg = Num u64 | Str "string option"

definition with_num :: "arg list \<Rightarrow> (u64 \<Rightarrow> arg list \<Rightarrow> ('a, 's) res) \<Rightarrow> ('a, 's) res" where
  "with_num ap f = (case ap of Num w # ap' \<Rightarrow> f w ap' | _ \<Rightarrow> Diverge)"

definition with_str :: "arg list \<Rightarrow> (string option \<Rightarrow> arg list \<Rightarrow> ('a, 's) res) \<Rightarrow> ('a, 's) res" where
  "with_str ap f = (case ap of Str s # ap' \<Rightarrow> f s ap' | _ \<Rightarrow> Diverge)"

definition peek_fmt :: "string \<Rightarrow> char" where
  "peek_fmt f = (case f of [] \<Rightarrow> CHR 0x00 | c # _ \<Rightarrow> c)"

section \<open>The digit loop\<close>

text \<open>
  What the loop \<^verbatim>\<open>do buf[i++] = digits[x % base]; while((x /= base) != 0)\<close> stores, in the order of the buffer. The routines call it
  with base 10 or 16; with a base below 2 the loop of the source would not end.
\<close>

function digits_loop :: "string \<Rightarrow> 'a::len word \<Rightarrow> 'a word \<Rightarrow> string" where
  "digits_loop tab b x =
     tab ! unat (x mod b) # (if unat b < 2 \<or> x div b = 0 then [] else digits_loop tab b (x div b))"
  by pat_completeness auto

lemma unat_div_less: "2 \<le> unat b \<Longrightarrow> x div b \<noteq> 0 \<Longrightarrow> unat (x div b :: 'a::len word) < unat x"
proof -
  assume b: "2 \<le> unat b" and "x div b \<noteq> 0"
  then have "0 < unat x" by (cases "x = 0") (auto simp: unat_gt_0)
  then show ?thesis using b by (simp add: unat_div div_less_dividend)
qed

termination digits_loop
  by (relation "measure (\<lambda>(tab, b, x). unat x)") (auto intro: unat_div_less)

declare digits_loop.simps [simp del]

lemma length_digits:
  assumes "2 \<le> unat b" "0 < n"
  shows "length (digits_loop tab b x) \<le> n \<longleftrightarrow> unat x < unat b ^ n"
  using assms
proof (induction tab b x arbitrary: n rule: digits_loop.induct)
  case (1 tab b x)
  have z: "x div b = 0 \<longleftrightarrow> unat x < unat b"
    using 1(2) by (simp add: unat_eq_0[symmetric] unat_div div_eq_0_iff)
  obtain m where n: "n = Suc m" using 1(3) by (cases n) auto
  show ?case
  proof (cases "unat x < unat b")
    case True
    have "unat b \<le> unat b ^ n" using 1(2,3) by (simp add: self_le_power)
    then show ?thesis using True z 1(3) by (subst digits_loop.simps) simp
  next
    case False
    have d: "unat x < unat b ^ n \<longleftrightarrow> unat (x div b) < unat b ^ m"
      using 1(2) unfolding n by (simp add: unat_div div_less_iff_less_mult mult.commute)
    have l: "length (digits_loop tab b x) = Suc (length (digits_loop tab b (x div b)))"
      using False z 1(2) by (subst digits_loop.simps) simp
    show ?thesis
    proof (cases "m = 0")
      case True
      have "digits_loop tab b (x div b) \<noteq> []" by (subst digits_loop.simps) simp
      then show ?thesis using False d l n True z by (simp add: unat_eq_0)
    next
      case m: False
      then show ?thesis using 1(1)[of m] 1(2) False z d l n by simp
    qed
  qed
qed

section \<open>Reading digits back\<close>

text \<open>The number that a buffer of digits denotes, the least significant digit first.\<close>

primrec digits_val :: "(char \<Rightarrow> nat) \<Rightarrow> nat \<Rightarrow> string \<Rightarrow> nat" where
  "digits_val f b [] = 0"
| "digits_val f b (c # s) = f c + b * digits_val f b s"

lemma digits_val_digits:
  assumes "2 \<le> unat b" and "\<And>i. i < unat b \<Longrightarrow> f (tab ! i) = i"
  shows "digits_val f (unat b) (digits_loop tab b x) = unat x"
  using assms
proof (induction tab b x rule: digits_loop.induct)
  case (1 tab b x)
  have m: "f (tab ! unat (x mod b)) = unat x mod unat b"
    using 1(2) 1(3)[of "unat x mod unat b"] by (simp add: unat_mod)
  show ?case
  proof (cases "x div b = 0")
    case True
    then have "unat x div unat b = 0" using unat_div[of x b] by simp
    then show ?thesis using True m 1(2) by (subst digits_loop.simps) (simp add: div_eq_0_iff)
  next
    case False
    then have "digits_val f (unat b) (digits_loop tab b (x div b)) = unat x div unat b"
      using 1 by (simp add: unat_div)
    then show ?thesis using False m 1(2) by (subst digits_loop.simps) (simp add: mod_mult_div_eq)
  qed
qed

lemma set_digits: "2 \<le> unat b \<Longrightarrow> set (digits_loop tab b x) \<subseteq> (!) tab ` {..< unat b}"
proof (induction tab b x rule: digits_loop.induct)
  case (1 tab b x)
  then show ?case by (subst digits_loop.simps) (auto simp: unat_mod)
qed

end
