(* ===== verification/Printf.thy ===== *)
theory Printf
  imports Console Digits
begin

text \<open>
  Kernel output, \<^verbatim>\<open>kernel/printf.c\<close>. The characters go to \<^verbatim>\<open>consputc\<close>; the lock \<^verbatim>\<open>pr.lock\<close> makes a call one atomic step. Writing past the
  16 characters of the buffer of \<^verbatim>\<open>printint\<close> is undefined in C and is the outcome \<open>Diverge\<close>; the lemmas say exactly when
  it happens.
\<close>

section \<open>Printing\<close>

definition KDIGITS :: string where
  "KDIGITS = ''0123456789abcdef''"

primrec kputs :: "string \<Rightarrow> console \<Rightarrow> (unit, console) res" where
  "kputs [] s = Ret () s"
| "kputs (c # cs) s = bnd (consputc (of_char c) s) (\<lambda>_ s. kputs cs s)"

definition printint_buf :: "u64 \<Rightarrow> u64 \<Rightarrow> bool \<Rightarrow> string" where
  "printint_buf xx base sg =
     (let neg = (sg \<and> sint xx < 0); x = (if neg then - xx else xx)
      in digits_loop KDIGITS base x @ (if neg then ''-'' else []))"

definition printint :: "u64 \<Rightarrow> u64 \<Rightarrow> bool \<Rightarrow> console \<Rightarrow> (unit, console) res" where
  "printint xx base sg s =
     (let buf = printint_buf xx base sg in
      if length buf > 16 then Diverge else kputs (rev buf) s)"

primrec printptr_loop :: "nat \<Rightarrow> u64 \<Rightarrow> console \<Rightarrow> (unit, console) res" where
  "printptr_loop 0 x s = Ret () s"
| "printptr_loop (Suc n) x s =
     bnd (consputc (of_char (KDIGITS ! unat (drop_bit 60 x))) s) (\<lambda>_ s. printptr_loop n (push_bit 4 x) s)"

definition printptr :: "u64 \<Rightarrow> console \<Rightarrow> (unit, console) res" where
  "printptr x s = bnd (kputs ''0x'' s) (\<lambda>_ s. printptr_loop 16 x s)"

text \<open>An \<^verbatim>\<open>int\<close> argument is sign-extended to the 64-bit parameter of \<^verbatim>\<open>printint\<close>.\<close>

definition va_int :: "u64 \<Rightarrow> u64" where
  "va_int w = scast (ucast w :: u32)"

function (sequential) printf :: "string \<Rightarrow> arg list \<Rightarrow> console \<Rightarrow> (unit, console) res" where
  "printf [] ap s = Ret () s"
| "printf [c] ap s = (if c \<noteq> CHR ''%'' then consputc (of_char c) s else Ret () s)"
| "printf (c # c0 # f) ap s =
     (if c \<noteq> CHR ''%'' then bnd (consputc (of_char c) s) (\<lambda>_ s. printf (c0 # f) ap s)
      else
        let c1 = peek_fmt f; c2 = peek_fmt (tl f) in
        if c0 = CHR ''d'' then
          with_num ap (\<lambda>w ap. bnd (printint (va_int w) 10 True s) (\<lambda>_ s. printf f ap s))
        else if c0 = CHR ''l'' \<and> c1 = CHR ''d'' then
          with_num ap (\<lambda>w ap. bnd (printint w 10 True s) (\<lambda>_ s. printf (drop 1 f) ap s))
        else if c0 = CHR ''l'' \<and> c1 = CHR ''l'' \<and> c2 = CHR ''d'' then
          with_num ap (\<lambda>w ap. bnd (printint w 10 True s) (\<lambda>_ s. printf (drop 2 f) ap s))
        else if c0 = CHR ''u'' then
          with_num ap (\<lambda>w ap. bnd (printint (va_int w) 10 False s) (\<lambda>_ s. printf f ap s))
        else if c0 = CHR ''l'' \<and> c1 = CHR ''u'' then
          with_num ap (\<lambda>w ap. bnd (printint w 10 False s) (\<lambda>_ s. printf (drop 1 f) ap s))
        else if c0 = CHR ''l'' \<and> c1 = CHR ''l'' \<and> c2 = CHR ''u'' then
          with_num ap (\<lambda>w ap. bnd (printint w 10 False s) (\<lambda>_ s. printf (drop 2 f) ap s))
        else if c0 = CHR ''x'' then
          with_num ap (\<lambda>w ap. bnd (printint (va_int w) 16 False s) (\<lambda>_ s. printf f ap s))
        else if c0 = CHR ''l'' \<and> c1 = CHR ''x'' then
          with_num ap (\<lambda>w ap. bnd (printint w 16 False s) (\<lambda>_ s. printf (drop 1 f) ap s))
        else if c0 = CHR ''l'' \<and> c1 = CHR ''l'' \<and> c2 = CHR ''x'' then
          with_num ap (\<lambda>w ap. bnd (printint w 16 False s) (\<lambda>_ s. printf (drop 2 f) ap s))
        else if c0 = CHR ''p'' then
          with_num ap (\<lambda>w ap. bnd (printptr w s) (\<lambda>_ s. printf f ap s))
        else if c0 = CHR ''s'' then
          with_str ap (\<lambda>t ap. bnd (kputs (the_default ''(null)'' t) s) (\<lambda>_ s. printf f ap s))
        else if c0 = CHR ''%'' then bnd (consputc (of_char CHR ''%'') s) (\<lambda>_ s. printf f ap s)
        else bnd (kputs [CHR ''%'', c0] s) (\<lambda>_ s. printf f ap s))"
  by pat_completeness auto

termination
  by (relation "measure (\<lambda>(f, ap, s). length f)") auto

text \<open>What \<^verbatim>\<open>panic\<close> does before its endless loop.\<close>

definition panic_prints :: "string \<Rightarrow> console \<Rightarrow> (unit, console) res" where
  "panic_prints msg s =
     bnd (printf ''panic: '' [] s) (\<lambda>_ s. bnd (printf (''%s'' @ [CHR 0x0A]) [Str (Some msg)] s) (\<lambda>_ s.
       Ret () (s\<lparr>uart := (uart s)\<lparr>panicked := True\<rparr>\<rparr>)))"

section \<open>When the buffer is long enough\<close>

lemma length_kdigits: "length (digits_loop KDIGITS 10 x) \<le> n \<longleftrightarrow> unat x < 10 ^ n" if "0 < n" for x :: u64
  using length_digits[of "10 :: u64" n KDIGITS x] that by simp

text \<open>
  (C40) The 16 characters of the buffer of the kernel's \<^verbatim>\<open>printint\<close> are always enough in base 16, and in base 10 exactly for the
  numbers of at most 16 characters: below \<open>10 ^ 16\<close>, and for negative numbers, which also store a sign, above \<open>- 10 ^ 15\<close>.
\<close>

theorem printint_buffer_bound:
  "length (printint_buf xx 16 False) \<le> 16 \<and>
   (length (printint_buf xx 10 sg) \<le> 16 \<longleftrightarrow>
      (if sg \<and> sint xx < 0 then unat (- xx) < 10 ^ 15 else unat xx < 10 ^ 16))"
proof
  have "unat xx < unat (16 :: u64) ^ 16" using unat_less_u64[of xx] by simp
  then show "length (printint_buf xx 16 False) \<le> 16"
    by (simp add: printint_buf_def length_digits)
  show "length (printint_buf xx 10 sg) \<le> 16 \<longleftrightarrow>
      (if sg \<and> sint xx < 0 then unat (- xx) < 10 ^ 15 else unat xx < 10 ^ 16)"
    using length_kdigits[of 15 "- xx"] length_kdigits[of 16 xx] by (simp add: printint_buf_def Let_def)
qed

end
