(* ===== verification/User.thy ===== *)
theory User
  imports Memory
begin

text \<open>
  User programs and their C library, \<^verbatim>\<open>user/user.h\<close> and \<^verbatim>\<open>user/ulib.c\<close>. A user program sees the kernel only through system
  calls; the kernel together with everything else in the machine is the argument \<open>os\<close> of the programs, a function from a
  call and the state of the environment to the result and the next state. A C string is the list of its characters before the
  terminating zero. \<^verbatim>\<open>exit\<close> is the outcome \<open>Exit\<close>; a loop whose length depends on the environment has fuel and is \<open>Diverge\<close> without it.
\<close>

section \<open>System calls\<close>

record ustat =
  st_dev :: int
  st_ino :: u32
  st_type :: int
  st_nlink :: int
  st_size :: u64

datatype ucall =
    Sys_fork
  | Sys_exit int
  | Sys_wait
  | Sys_pipe
  | Sys_write int string
  | Sys_read int int
  | Sys_close int
  | Sys_kill int
  | Sys_exec string "string list"
  | Sys_open string int
  | Sys_mknod string int int
  | Sys_unlink string
  | Sys_fstat int
  | Sys_link string string
  | Sys_mkdir string
  | Sys_chdir string
  | Sys_dup int
  | Sys_getpid
  | Sys_sbrk int
  | Sys_sleep int
  | Sys_uptime

text \<open>Results: a number; the bytes a successful \<^verbatim>\<open>read\<close> stored; the descriptors of a \<^verbatim>\<open>pipe\<close>; the record \<^verbatim>\<open>fstat\<close> stored.\<close>

datatype sysret = RInt int | RBytes string | RFds int int | RStat ustat

type_synonym 'e os = "ucall \<Rightarrow> 'e \<Rightarrow> sysret \<times> 'e"

primrec ret_int :: "sysret \<Rightarrow> int" where
  "ret_int (RInt i) = i"
| "ret_int (RBytes b) = int (length b)"
| "ret_int (RFds a b) = 0"
| "ret_int (RStat st) = 0"

primrec ret_bytes :: "sysret \<Rightarrow> string" where
  "ret_bytes (RInt i) = []"
| "ret_bytes (RBytes b) = b"
| "ret_bytes (RFds a b) = []"
| "ret_bytes (RStat st) = []"

definition sys :: "'e os \<Rightarrow> ucall \<Rightarrow> 'e \<Rightarrow> (sysret, 'e) res" where
  "sys os c e = (let (r, e') = os c e in Ret r e')"

definition uexit :: "'e os \<Rightarrow> int \<Rightarrow> 'e \<Rightarrow> ('a, 'e) res" where
  "uexit os status e = Exit (snd (os (Sys_exit status) e))"

lemma sys_eq: "os c e = (r, e') \<Longrightarrow> sys os c e = Ret r e'"
  by (simp add: sys_def)

section \<open>\<^verbatim>\<open>ulib.c\<close>\<close>

definition ustart :: "('e \<Rightarrow> ('a, 'e) res) \<Rightarrow> 'e os \<Rightarrow> 'e \<Rightarrow> (unit, 'e) res" where
  "ustart main os e = bnd (main e) (\<lambda>_ e. uexit os 0 e)"

text \<open>Character codes; \<^verbatim>\<open>char\<close> is unsigned on this processor.\<close>

abbreviation code :: "char \<Rightarrow> int" where "code c \<equiv> of_char c"

text \<open>\<^verbatim>\<open>strcpy\<close> to the memory at \<open>s\<close>, with its terminator.\<close>

primrec ustrcpy :: "mem \<Rightarrow> u64 \<Rightarrow> string \<Rightarrow> mem" where
  "ustrcpy m s [] = m(s := 0)"
| "ustrcpy m s (c # t) = ustrcpy (m(s := of_char c)) (s + 1) t"

fun ustrcmp :: "string \<Rightarrow> string \<Rightarrow> int" where
  "ustrcmp (a # p) (b # q) = (if a = b then ustrcmp p q else code a - code b)"
| "ustrcmp (a # p) [] = code a"
| "ustrcmp [] (b # q) = - code b"
| "ustrcmp [] [] = 0"

primrec ustrlen :: "string \<Rightarrow> nat" where
  "ustrlen [] = 0"
| "ustrlen (c # s) = Suc (ustrlen s)"

text \<open>\<^verbatim>\<open>strchr\<close> returns the string from the first occurrence on.\<close>

primrec ustrchr :: "string \<Rightarrow> char \<Rightarrow> string option" where
  "ustrchr [] c = None"
| "ustrchr (a # s) c = (if a = c then Some (a # s) else ustrchr s c)"

definition umemset :: "mem \<Rightarrow> u64 \<Rightarrow> u8 \<Rightarrow> nat \<Rightarrow> mem" where
  "umemset m dst c n = memset_loop n m dst c"

text \<open>\<^verbatim>\<open>gets\<close> with \<open>k\<close> characters still allowed: the characters stored before the terminator.\<close>

primrec gets_loop :: "nat \<Rightarrow> 'e os \<Rightarrow> 'e \<Rightarrow> (string, 'e) res" where
  "gets_loop 0 os e = Ret [] e"
| "gets_loop (Suc k) os e =
     bnd (sys os (Sys_read 0 1) e) (\<lambda>r e.
       if ret_int r < 1 then Ret [] e
       else
         let c = hd (ret_bytes r) in
         if c = CHR 0x0A \<or> c = CHR 0x0D then Ret [c] e
         else bnd (gets_loop k os e) (\<lambda>s e. Ret (c # s) e))"

definition ugets :: "int \<Rightarrow> 'e os \<Rightarrow> 'e \<Rightarrow> (string, 'e) res" where
  "ugets n os e = gets_loop (nat (n - 1)) os e"

definition ustat_call :: "string \<Rightarrow> 'e os \<Rightarrow> 'e \<Rightarrow> (int \<times> sysret, 'e) res" where
  "ustat_call n os e =
     bnd (sys os (Sys_open n 0) e) (\<lambda>fd e.
       if ret_int fd < 0 then Ret (-1, RInt (-1)) e
       else bnd (sys os (Sys_fstat (ret_int fd)) e) (\<lambda>r e.
         bnd (sys os (Sys_close (ret_int fd)) e) (\<lambda>_ e. Ret (ret_int r, r) e)))"

text \<open>\<^verbatim>\<open>atoi\<close>, in 32-bit arithmetic.\<close>

primrec atoi_loop :: "string \<Rightarrow> u32 \<Rightarrow> u32" where
  "atoi_loop [] n = n"
| "atoi_loop (c # s) n =
     (if code CHR ''0'' \<le> code c \<and> code c \<le> code CHR ''9''
      then atoi_loop s (n * 10 + of_char c - of_char CHR ''0'') else n)"

definition atoi :: "string \<Rightarrow> int" where
  "atoi s = sint (atoi_loop s 0)"

definition umemmove :: "mem \<Rightarrow> u64 \<Rightarrow> u64 \<Rightarrow> int \<Rightarrow> mem" where
  "umemmove m dst src n =
     (if src > dst then copy_up (nat n) m dst src
      else copy_down (nat n) m (dst + of_int n) (src + of_int n))"

definition umemcmp :: "(nat \<Rightarrow> u8) \<Rightarrow> (nat \<Rightarrow> u8) \<Rightarrow> nat \<Rightarrow> int" where
  "umemcmp s1 s2 n = memcmp s1 s2 n"

definition umemcpy :: "mem \<Rightarrow> u64 \<Rightarrow> u64 \<Rightarrow> int \<Rightarrow> mem" where
  "umemcpy m dst src n = umemmove m dst src n"

lemma ustrlen_length [simp]: "ustrlen s = length s"
  by (induction s) simp_all

lemma ustrchr_iff: "ustrchr s c \<noteq> None \<longleftrightarrow> c \<in> set s"
  by (induction s) auto

end
