(* ===== verification/Uprintf.thy ===== *)
theory Uprintf
  imports User Digits
begin

text \<open>
  Formatted output of user programs, \<^verbatim>\<open>user/printf.c\<close>. The digits of a number fit the buffer of
  \<^verbatim>\<open>printint\<close>, and \<^verbatim>\<open>atoi\<close> reads them back.
\<close>

section \<open>Printing\<close>

definition uputc :: "int \<Rightarrow> char \<Rightarrow> 'e os \<Rightarrow> 'e \<Rightarrow> (unit, 'e) res" where
  "uputc fd c os e = bnd (sys os (Sys_write fd [c]) e) (\<lambda>_ e. Ret () e)"

primrec uputs :: "int \<Rightarrow> string \<Rightarrow> 'e os \<Rightarrow> 'e \<Rightarrow> (unit, 'e) res" where
  "uputs fd [] os e = Ret () e"
| "uputs fd (c # s) os e = bnd (uputc fd c os e) (\<lambda>_ e. uputs fd s os e)"

definition UDIGITS :: string where
  "UDIGITS = ''0123456789ABCDEF''"

text \<open>The buffer that \<^verbatim>\<open>printint\<close> fills, and \<^verbatim>\<open>printint\<close> itself, which sends it to the descriptor from the end. The buffer has 16 characters.\<close>

definition uprintint_buf :: "u32 \<Rightarrow> u32 \<Rightarrow> bool \<Rightarrow> string" where
  "uprintint_buf xx base sg =
     (let neg = (sg \<and> sint xx < 0); x = (if neg then - xx else xx)
      in digits_loop UDIGITS base x @ (if neg then ''-'' else []))"

definition uprintint :: "int \<Rightarrow> u32 \<Rightarrow> u32 \<Rightarrow> bool \<Rightarrow> 'e os \<Rightarrow> 'e \<Rightarrow> (unit, 'e) res" where
  "uprintint fd xx base sg os e =
     (let buf = uprintint_buf xx base sg in
      if length buf > 16 then Diverge else uputs fd (rev buf) os e)"

primrec uprintptr_loop :: "nat \<Rightarrow> int \<Rightarrow> u64 \<Rightarrow> 'e os \<Rightarrow> 'e \<Rightarrow> (unit, 'e) res" where
  "uprintptr_loop 0 fd x os e = Ret () e"
| "uprintptr_loop (Suc n) fd x os e =
     bnd (uputc fd (UDIGITS ! unat (drop_bit 60 x)) os e) (\<lambda>_ e. uprintptr_loop n fd (push_bit 4 x) os e)"

definition uprintptr :: "int \<Rightarrow> u64 \<Rightarrow> 'e os \<Rightarrow> 'e \<Rightarrow> (unit, 'e) res" where
  "uprintptr fd x os e = bnd (uputs fd ''0x'' os e) (\<lambda>_ e. uprintptr_loop 16 fd x os e)"

function (sequential) vprintf :: "int \<Rightarrow> string \<Rightarrow> arg list \<Rightarrow> 'e os \<Rightarrow> 'e \<Rightarrow> (unit, 'e) res" where
  "vprintf fd [] ap os e = Ret () e"
| "vprintf fd [c] ap os e = (if c \<noteq> CHR ''%'' then uputc fd c os e else Ret () e)"
| "vprintf fd (c # c0 # f) ap os e =
     (if c \<noteq> CHR ''%'' then bnd (uputc fd c os e) (\<lambda>_ e. vprintf fd (c0 # f) ap os e)
      else
        let c1 = peek_fmt f; c2 = peek_fmt (tl f) in
        if c0 = CHR ''d'' then
          with_num ap (\<lambda>w ap. bnd (uprintint fd (ucast w) 10 True os e) (\<lambda>_ e. vprintf fd f ap os e))
        else if c0 = CHR ''l'' \<and> c1 = CHR ''d'' then
          with_num ap (\<lambda>w ap. bnd (uprintint fd (ucast w) 10 True os e) (\<lambda>_ e. vprintf fd (drop 1 f) ap os e))
        else if c0 = CHR ''l'' \<and> c1 = CHR ''l'' \<and> c2 = CHR ''d'' then
          with_num ap (\<lambda>w ap. bnd (uprintint fd (ucast w) 10 True os e) (\<lambda>_ e. vprintf fd (drop 2 f) ap os e))
        else if c0 = CHR ''u'' then
          with_num ap (\<lambda>w ap. bnd (uprintint fd (ucast w) 10 False os e) (\<lambda>_ e. vprintf fd f ap os e))
        else if c0 = CHR ''l'' \<and> c1 = CHR ''u'' then
          with_num ap (\<lambda>w ap. bnd (uprintint fd (ucast w) 10 False os e) (\<lambda>_ e. vprintf fd (drop 1 f) ap os e))
        else if c0 = CHR ''l'' \<and> c1 = CHR ''l'' \<and> c2 = CHR ''u'' then
          with_num ap (\<lambda>w ap. bnd (uprintint fd (ucast w) 10 False os e) (\<lambda>_ e. vprintf fd (drop 2 f) ap os e))
        else if c0 = CHR ''x'' then
          with_num ap (\<lambda>w ap. bnd (uprintint fd (ucast w) 16 False os e) (\<lambda>_ e. vprintf fd f ap os e))
        else if c0 = CHR ''l'' \<and> c1 = CHR ''x'' then
          with_num ap (\<lambda>w ap. bnd (uprintint fd (ucast w) 16 False os e) (\<lambda>_ e. vprintf fd (drop 1 f) ap os e))
        else if c0 = CHR ''l'' \<and> c1 = CHR ''l'' \<and> c2 = CHR ''x'' then
          with_num ap (\<lambda>w ap. bnd (uprintint fd (ucast w) 16 False os e) (\<lambda>_ e. vprintf fd (drop 2 f) ap os e))
        else if c0 = CHR ''p'' then
          with_num ap (\<lambda>w ap. bnd (uprintptr fd w os e) (\<lambda>_ e. vprintf fd f ap os e))
        else if c0 = CHR ''s'' then
          with_str ap (\<lambda>s ap. bnd (uputs fd (the_default ''(null)'' s) os e) (\<lambda>_ e. vprintf fd f ap os e))
        else if c0 = CHR ''%'' then bnd (uputc fd CHR ''%'' os e) (\<lambda>_ e. vprintf fd f ap os e)
        else bnd (uputs fd [CHR ''%'', c0] os e) (\<lambda>_ e. vprintf fd f ap os e))"
  by pat_completeness auto

termination
  by (relation "measure (\<lambda>(fd, f, ap, os, e). length f)") auto

definition ufprintf :: "int \<Rightarrow> string \<Rightarrow> arg list \<Rightarrow> 'e os \<Rightarrow> 'e \<Rightarrow> (unit, 'e) res" where
  "ufprintf fd fmt ap os e = vprintf fd fmt ap os e"

definition uprintf :: "string \<Rightarrow> arg list \<Rightarrow> 'e os \<Rightarrow> 'e \<Rightarrow> (unit, 'e) res" where
  "uprintf fmt ap os e = vprintf 1 fmt ap os e"

section \<open>The digits fit and read back\<close>

lemma length_udigits: "b = 10 \<or> b = 16 \<Longrightarrow> length (digits_loop UDIGITS (b :: u32) y) \<le> 10"
proof -
  assume b: "b = 10 \<or> b = 16"
  have "unat y < 2 ^ 32" by (rule unat_less_u32)
  also have "(2 :: nat) ^ 32 \<le> unat b ^ 10" using b by (elim disjE) simp_all
  finally show ?thesis using b by (subst length_digits) auto
qed

lemma length_uprintint_buf: "b = 10 \<or> b = 16 \<Longrightarrow> length (uprintint_buf x b sg) \<le> 11"
  unfolding uprintint_buf_def Let_def length_append
  using length_udigits[of b x] length_udigits[of b "- x"] by simp

definition dec_val :: "char \<Rightarrow> nat" where
  "dec_val c = of_char c - 48"

lemma UDIGITS_dec: "i < 10 \<Longrightarrow> UDIGITS ! i \<in> set ''0123456789'' \<and> dec_val (UDIGITS ! i) = i"
proof -
  have "\<forall>i \<in> set [0..<10]. UDIGITS ! i \<in> set ''0123456789'' \<and> dec_val (UDIGITS ! i) = i"
    by (simp add: UDIGITS_def dec_val_def upt_rec)
  then show "i < 10 \<Longrightarrow> ?thesis" by simp
qed

text \<open>\<^verbatim>\<open>atoi\<close> on the digits of a buffer, from the end.\<close>

lemma atoi_loop_digit:
  "c \<in> set ''0123456789'' \<Longrightarrow> atoi_loop (c # s) n = atoi_loop s (n * 10 + of_nat (dec_val c))"
  by (auto simp: dec_val_def add.commute)

lemma atoi_loop_rev:
  "set s \<subseteq> set ''0123456789'' \<Longrightarrow> atoi_loop (rev s @ t) n = atoi_loop t (n * 10 ^ length s + of_nat (digits_val dec_val 10 s))"
proof (induction s arbitrary: t)
  case (Cons c s)
  then show ?case
    using atoi_loop_digit[of c t] by (simp add: algebra_simps del: atoi_loop.simps)
qed simp

lemma atoi_digits: "atoi_loop (rev (digits_loop UDIGITS 10 x)) 0 = x"
proof -
  have d: "set (digits_loop UDIGITS (10 :: u32) x) \<subseteq> set ''0123456789''"
    using set_digits[of "10 :: u32" UDIGITS x] UDIGITS_dec by fastforce
  have "digits_val dec_val (unat (10 :: u32)) (digits_loop UDIGITS 10 x) = unat x"
    by (rule digits_val_digits) (use UDIGITS_dec in auto)
  then show ?thesis using atoi_loop_rev[OF d, of "[]" 0] by simp
qed

lemma bnd_Ret: "bnd m Ret = m"
  by (cases m) auto

lemma vprintf_Nil: "vprintf fd [] ap os = Ret ()"
  by (rule ext) simp

lemma uprintf_d: "uprintf ''%d'' [Num w] os e = uputs 1 (rev (uprintint_buf (ucast w) 10 True)) os e"
  using length_uprintint_buf[of 10 "ucast w" True] by (simp add: uprintf_def peek_fmt_def with_num_def uprintint_def Let_def bnd_Ret vprintf_Nil)

text \<open>
  (C39) \<^verbatim>\<open>printf("%d", x)\<close> writes to standard output the characters of \<^verbatim>\<open>x\<close> in decimal: a minus sign exactly for negative numbers,
  then a string that \<^verbatim>\<open>atoi\<close> reads back as the absolute value (as a 32-bit word, which covers the smallest integer).
  The buffer of 16 characters never overflows.
\<close>

theorem printf_atoi_roundtrip:
  "let x = sint (ucast w :: u32) in
   \<exists>s. uprintf ''%d'' [Num w] os e = uputs 1 ((if x < 0 then ''-'' else []) @ s) os e \<and>
     (of_int (atoi s) :: u32) = of_int \<bar>x\<bar> \<and> length s \<le> 10"
proof -
  define x where "x = sint (ucast w :: u32)"
  define y :: u32 where "y = (if x < 0 then - ucast w else ucast w)"
  let ?s = "rev (digits_loop UDIGITS 10 y)"
  have "rev (uprintint_buf (ucast w) 10 True) = (if x < 0 then ''-'' else []) @ ?s"
    by (simp add: uprintint_buf_def y_def x_def Let_def)
  moreover have "(of_int (atoi ?s) :: u32) = y" by (simp add: atoi_def atoi_digits)
  moreover have "y = of_int \<bar>x\<bar>" by (simp add: y_def x_def)
  ultimately show ?thesis
    unfolding uprintf_d Let_def x_def[symmetric] using length_udigits[of 10 y] by (intro exI[of _ ?s]) simp
qed

end
