(* ===== verification/Sh.thy ===== *)
theory Sh
  imports Uprintf
begin

text \<open>
  The shell, \<^verbatim>\<open>user/sh.c\<close>: the tokeniser, the recursive descent parser, \<^verbatim>\<open>nulterminate\<close>, \<^verbatim>\<open>runcmd\<close> and the main loop. The parser works on a
  buffer \<open>b\<close>, the characters before the terminating zero, and a position in it; it returns the position it stops at as
  the state of the outcome, and \<open>Panic\<close> stands for \<^verbatim>\<open>panic\<close>. The parse tree holds for each word the positions of
  its first character and of its end; \<^verbatim>\<open>nulterminate\<close> turns them into C strings. Allocation is taken to succeed.
\<close>

section \<open>Commands\<close>

abbreviation (input) MAXARGS :: nat where "MAXARGS \<equiv> 10"

datatype 'w cmd =
    EXEC "'w list"
  | REDIR "'w cmd" 'w int int
  | PIPE "'w cmd" "'w cmd"
  | LIST "'w cmd" "'w cmd"
  | BACK "'w cmd"

type_synonym span = "nat \<times> nat"

section \<open>Tokens\<close>

definition whitespace :: string where
  "whitespace = [CHR '' '', CHR 0x09, CHR 0x0D, CHR 0x0A, CHR 0x0B]"

definition symbols :: string where
  "symbols = ''<|>&;()''"

definition ch :: "string \<Rightarrow> nat \<Rightarrow> char" where
  "ch b p = (if p < length b then b ! p else CHR 0x00)"

text \<open>The loops \<^verbatim>\<open>while(s < es && strchr(whitespace, *s)) s++\<close> and the one over the characters of a word.\<close>

function skip_ws :: "string \<Rightarrow> nat \<Rightarrow> nat" where
  "skip_ws b p = (if p < length b \<and> ustrchr whitespace (ch b p) \<noteq> None then skip_ws b (Suc p) else p)"
  by pat_completeness auto
termination
  by (relation "measure (\<lambda>(b, p). length b - p)") auto

function word_end :: "string \<Rightarrow> nat \<Rightarrow> nat" where
  "word_end b p =
     (if p < length b \<and> ustrchr whitespace (ch b p) = None \<and> ustrchr symbols (ch b p) = None then word_end b (Suc p) else p)"
  by pat_completeness auto
termination
  by (relation "measure (\<lambda>(b, p). length b - p)") auto

declare skip_ws.simps [simp del] word_end.simps [simp del]

text \<open>\<^verbatim>\<open>gettoken\<close> returns the token, its first position, its end, and the position after the blanks that follow it.\<close>

definition gettoken :: "string \<Rightarrow> nat \<Rightarrow> char \<times> nat \<times> nat \<times> nat" where
  "gettoken b p =
     (let s = skip_ws b p;
          (ret, e) =
            (if ch b s = CHR 0x00 then (CHR 0x00, s)
             else if ch b s \<in> set ''|();&<'' then (ch b s, Suc s)
             else if ch b s = CHR ''>'' then
               (if ch b (Suc s) = CHR ''>'' then (CHR ''+'', Suc (Suc s)) else (CHR ''>'', Suc s))
             else (CHR ''a'', word_end b s))
      in (ret, s, e, skip_ws b e))"

definition peek :: "string \<Rightarrow> nat \<Rightarrow> string \<Rightarrow> nat \<times> bool" where
  "peek b p toks = (let s = skip_ws b p in (s, ch b s \<noteq> CHR 0x00 \<and> ustrchr toks (ch b s) \<noteq> None))"

section \<open>How far the tokeniser moves\<close>

lemma skip_ws_ge: "p \<le> skip_ws b p"
proof (induction b p rule: skip_ws.induct)
  case (1 b p)
  then show ?case by (subst skip_ws.simps) (auto intro: Suc_leD)
qed

lemma skip_ws_le: "p \<le> length b \<Longrightarrow> skip_ws b p \<le> length b"
proof (induction b p rule: skip_ws.induct)
  case (1 b p)
  then show ?case by (subst skip_ws.simps) auto
qed

lemma word_end_le: "p \<le> length b \<Longrightarrow> word_end b p \<le> length b"
proof (induction b p rule: word_end.induct)
  case (1 b p)
  then show ?case by (subst word_end.simps) auto
qed

lemma word_end_ge: "p \<le> word_end b p"
proof (induction b p rule: word_end.induct)
  case (1 b p)
  then show ?case by (subst word_end.simps) (auto intro: Suc_leD)
qed

lemma ch_inside: "ch b p \<noteq> CHR 0x00 \<Longrightarrow> p < length b"
  by (auto simp: ch_def split: if_splits)

lemma peek_pos: "peek b p toks = (s, y) \<Longrightarrow> p \<le> s \<and> (p \<le> length b \<longrightarrow> s \<le> length b) \<and> (y \<longrightarrow> s < length b)"
  using skip_ws_ge[of p b] skip_ws_le[of p b] ch_inside[of b "skip_ws b p"] by (auto simp: peek_def Let_def)

lemma skip_ws_idem: "skip_ws b (skip_ws b p) = skip_ws b p"
proof (induction b p rule: skip_ws.induct)
  case (1 b p)
  show ?case
  proof (cases "p < length b \<and> ustrchr whitespace (ch b p) \<noteq> None")
    case True
    then have "skip_ws b p = skip_ws b (Suc p)" by (subst skip_ws.simps) simp
    then show ?thesis using 1[OF True] by simp
  next
    case False
    then have "skip_ws b p = p" by (subst skip_ws.simps) auto
    then show ?thesis by simp
  qed
qed

lemma gettoken_symbol: "gettoken b p = (t, q, e, p') \<Longrightarrow> ch b (skip_ws b p) \<in> set symbols \<Longrightarrow> p < p'"
  using skip_ws_ge[of p b] skip_ws_ge[of e b]
  by (auto simp: gettoken_def Let_def symbols_def split: if_splits)

lemma peek_token_moves:
  assumes "peek b p toks = (s, True)" "set toks \<subseteq> set symbols" "gettoken b s = (t, q, e, p')"
  shows "s < p'"
proof (rule gettoken_symbol[OF assms(3)])
  have "ustrchr toks (ch b (skip_ws b p)) \<noteq> None" "s = skip_ws b p" using assms(1) by (auto simp: peek_def Let_def)
  then show "ch b (skip_ws b s) \<in> set symbols" using assms(2) ustrchr_iff by (auto simp: skip_ws_idem)
qed

lemma gettoken_ge: "gettoken b p = (t, q, e, p') \<Longrightarrow> p \<le> q \<and> q \<le> e \<and> e \<le> p'"
  using skip_ws_ge[of p b] skip_ws_ge[of e b] word_end_ge[of q b]
  by (auto simp: gettoken_def Let_def split: if_splits)

lemma gettoken_le: "gettoken b p = (t, q, e, p') \<Longrightarrow> p \<le> length b \<Longrightarrow> e \<le> length b \<and> p' \<le> length b"
proof -
  assume g: "gettoken b p = (t, q, e, p')" and p: "p \<le> length b"
  have s: "skip_ws b p \<le> length b" using p by (rule skip_ws_le)
  have "e \<le> length b"
    using g s ch_inside[of b "skip_ws b p"] ch_inside[of b "Suc (skip_ws b p)"] word_end_le[OF s]
    by (auto simp: gettoken_def Let_def split: if_splits)
  then show ?thesis using g skip_ws_le[of e b] by (auto simp: gettoken_def Let_def split: if_splits)
qed

section \<open>The parser\<close>

definition redircmd :: "span cmd \<Rightarrow> char \<Rightarrow> span \<Rightarrow> span cmd" where
  "redircmd c tok f =
     (if tok = CHR ''<'' then REDIR c f 0 0
      else if tok = CHR ''>'' then REDIR c f 0x601 1
      else if tok = CHR ''+'' then REDIR c f 0x201 1
      else c)"

function parseredirs :: "string \<Rightarrow> span cmd \<Rightarrow> nat \<Rightarrow> (span cmd, nat) res" where
  "parseredirs b c p =
     (let (s, y) = peek b p ''<>'' in
      if y then
        let (tok, _, _, p1) = gettoken b s; (t, q, e, p2) = gettoken b p1 in
        if t \<noteq> CHR ''a'' then Panic ''missing file for redirection''
        else parseredirs b (redircmd c tok (q, e)) p2
      else Ret c s)"
  by pat_completeness auto
termination
proof (relation "measure (\<lambda>(b, c, p). length b - p)", goal_cases)
  case (2 b c p x s y x1 tok x2 q0 x3 e0 p1 x4 t x5 q x6 e p2)
  then have pk: "peek b p ''<>'' = (s, True)" and g: "gettoken b s = (tok, q0, e0, p1)" "gettoken b p1 = (t, q, e, p2)" by auto
  have "s < p1" by (rule peek_token_moves[OF pk _ g(1)]) (simp add: symbols_def)
  then have "p < p2" "p < length b" using peek_pos[OF pk] gettoken_ge[OF g(2)] by auto
  then show ?case by simp
qed simp

declare parseredirs.simps [simp del]

text \<open>\<^verbatim>\<open>cmd->argv[argc] = q\<close>: the exec node lies under the redirections parsed so far.\<close>

primrec add_arg :: "'w cmd \<Rightarrow> 'w \<Rightarrow> 'w cmd" where
  "add_arg (EXEC ws) w = EXEC (ws @ [w])"
| "add_arg (REDIR c f m d) w = REDIR (add_arg c w) f m d"
| "add_arg (PIPE l r) w = PIPE l r"
| "add_arg (LIST l r) w = LIST l r"
| "add_arg (BACK c) w = BACK c"

text \<open>The loop of \<^verbatim>\<open>parseexec\<close>; the number of arguments still allowed bounds it.\<close>

primrec parseargs :: "nat \<Rightarrow> string \<Rightarrow> span cmd \<Rightarrow> nat \<Rightarrow> (span cmd, nat) res" where
  "parseargs 0 b ret p = Panic ''too many args''"
| "parseargs (Suc n) b ret p =
     (let (s, y) = peek b p ''|)&;'' in
      if y then Ret ret s
      else
        let (tok, q, e, p1) = gettoken b s in
        if tok = CHR 0x00 then Ret ret p1
        else if tok \<noteq> CHR ''a'' then Panic ''syntax''
        else if n = 0 then Panic ''too many args''
        else bnd (parseredirs b (add_arg ret (q, e)) p1) (\<lambda>ret p. parseargs n b ret p))"

function back_loop :: "string \<Rightarrow> span cmd \<Rightarrow> nat \<Rightarrow> (span cmd, nat) res" where
  "back_loop b c p =
     (let (s, y) = peek b p ''&'' in
      if y then let (_, _, _, p1) = gettoken b s in back_loop b (BACK c) p1
      else Ret c s)"
  by pat_completeness auto
termination
proof (relation "measure (\<lambda>(b, c, p). length b - p)", goal_cases)
  case (2 b c p x s y x1 tok x2 q0 x3 e0 p1)
  then have pk: "peek b p ''&'' = (s, True)" and g: "gettoken b s = (tok, q0, e0, p1)" by auto
  have "s < p1" by (rule peek_token_moves[OF pk _ g]) (simp add: symbols_def)
  then have "p < p1" "p < length b" using peek_pos[OF pk] by auto
  then show ?case by simp
qed simp

declare back_loop.simps [simp del]

text \<open>The mutually recursive procedures; every call takes a unit of fuel.\<close>

function (sequential) parseline :: "nat \<Rightarrow> string \<Rightarrow> nat \<Rightarrow> (span cmd, nat) res"
  and parsepipe :: "nat \<Rightarrow> string \<Rightarrow> nat \<Rightarrow> (span cmd, nat) res"
  and parseexec :: "nat \<Rightarrow> string \<Rightarrow> nat \<Rightarrow> (span cmd, nat) res"
  and parseblock :: "nat \<Rightarrow> string \<Rightarrow> nat \<Rightarrow> (span cmd, nat) res" where
  "parseline 0 b p = Diverge"
| "parseline (Suc k) b p =
     bnd (parsepipe k b p) (\<lambda>c p. bnd (back_loop b c p) (\<lambda>c p.
       let (s, y) = peek b p '';'' in
       if y then
         let (_, _, _, p1) = gettoken b s in
         bnd (parseline k b p1) (\<lambda>r p. Ret (LIST c r) p)
       else Ret c s))"
| "parsepipe 0 b p = Diverge"
| "parsepipe (Suc k) b p =
     bnd (parseexec k b p) (\<lambda>c p.
       let (s, y) = peek b p ''|'' in
       if y then
         let (_, _, _, p1) = gettoken b s in
         bnd (parsepipe k b p1) (\<lambda>r p. Ret (PIPE c r) p)
       else Ret c s)"
| "parseexec 0 b p = Diverge"
| "parseexec (Suc k) b p =
     (let (s, y) = peek b p ''('' in
      if y then parseblock k b s
      else bnd (parseredirs b (EXEC []) s) (\<lambda>ret p. parseargs MAXARGS b ret p))"
| "parseblock 0 b p = Diverge"
| "parseblock (Suc k) b p =
     (let (s, y) = peek b p ''('' in
      if \<not> y then Panic ''parseblock''
      else
        let (_, _, _, p1) = gettoken b s in
        bnd (parseline k b p1) (\<lambda>c p.
          let (s, y) = peek b p '')'' in
          if \<not> y then Panic ''syntax - missing )''
          else let (_, _, _, p1) = gettoken b s in parseredirs b c p1))"
  by pat_completeness auto
termination
  by (relation "measure (case_sum (case_sum fst fst) (case_sum fst fst))") auto

text \<open>\<^verbatim>\<open>nulterminate\<close> on the buffer with its terminating zero.\<close>

primrec nulterminate :: "span cmd \<Rightarrow> string \<Rightarrow> string" where
  "nulterminate (EXEC ws) m = fold (\<lambda>w m. m[snd w := CHR 0x00]) ws m"
| "nulterminate (REDIR c f md fd) m = (nulterminate c m)[snd f := CHR 0x00]"
| "nulterminate (PIPE l r) m = nulterminate r (nulterminate l m)"
| "nulterminate (LIST l r) m = nulterminate r (nulterminate l m)"
| "nulterminate (BACK c) m = nulterminate c m"

definition parse_fuel :: "string \<Rightarrow> nat" where
  "parse_fuel b = 4 * length b + 4"

definition parsecmd :: "string \<Rightarrow> (span cmd, string) res" where
  "parsecmd b =
     (case parseline (parse_fuel b) b 0 of
        Ret c p \<Rightarrow> (if fst (peek b p []) \<noteq> length b then Panic ''syntax'' else Ret c (nulterminate c (b @ [CHR 0x00])))
      | Panic m \<Rightarrow> Panic m
      | _ \<Rightarrow> Diverge)"

text \<open>The C string at a position of the buffer.\<close>

definition cstring :: "string \<Rightarrow> nat \<Rightarrow> string" where
  "cstring m q = takeWhile (\<lambda>c. c \<noteq> CHR 0x00) (drop q m)"

definition cmd_strings :: "string \<Rightarrow> span cmd \<Rightarrow> string cmd" where
  "cmd_strings m c = map_cmd (\<lambda>w. cstring m (fst w)) c"

section \<open>Running commands\<close>

definition upanic :: "string \<Rightarrow> 'e os \<Rightarrow> 'e \<Rightarrow> ('a, 'e) res" where
  "upanic s os e = bnd (ufprintf 2 (''%s'' @ [CHR 0x0A]) [Str (Some s)] os e) (\<lambda>_ e. uexit os 1 e)"

definition fork1 :: "'e os \<Rightarrow> 'e \<Rightarrow> (int, 'e) res" where
  "fork1 os e = bnd (sys os Sys_fork e) (\<lambda>r e. if ret_int r = -1 then upanic ''fork'' os e else Ret (ret_int r) e)"

text \<open>A successful \<^verbatim>\<open>exec\<close> replaces the program; it returns only to report a failure.\<close>

definition uexec :: "string \<Rightarrow> string list \<Rightarrow> 'e os \<Rightarrow> 'e \<Rightarrow> (unit, 'e) res" where
  "uexec path argv os e = bnd (sys os (Sys_exec path argv) e) (\<lambda>r e. if ret_int r < 0 then Ret () e else Exit e)"

definition calls :: "ucall list \<Rightarrow> 'e os \<Rightarrow> 'e \<Rightarrow> (unit, 'e) res" where
  "calls cs os e = Ret () (fold (\<lambda>c e. snd (os c e)) cs e)"

primrec runcmd :: "string cmd \<Rightarrow> 'e os \<Rightarrow> 'e \<Rightarrow> (unit, 'e) res" where
  "runcmd (EXEC argv) os e =
     (if argv = [] then uexit os 1 e
      else bnd (uexec (hd argv) argv os e) (\<lambda>_ e.
        bnd (ufprintf 2 (''exec %s failed'' @ [CHR 0x0A]) [Str (Some (hd argv))] os e) (\<lambda>_ e. uexit os 0 e)))"
| "runcmd (REDIR c f mode fd) os e =
     bnd (calls [Sys_close fd] os e) (\<lambda>_ e. bnd (sys os (Sys_open f mode) e) (\<lambda>r e.
       if ret_int r < 0
       then bnd (ufprintf 2 (''open %s failed'' @ [CHR 0x0A]) [Str (Some f)] os e) (\<lambda>_ e. uexit os 1 e)
       else bnd (runcmd c os e) (\<lambda>_ e. uexit os 0 e)))"
| "runcmd (LIST l r) os e =
     bnd (fork1 os e) (\<lambda>pid e. bnd (if pid = 0 then runcmd l os e else Ret () e) (\<lambda>_ e.
       bnd (calls [Sys_wait] os e) (\<lambda>_ e. bnd (runcmd r os e) (\<lambda>_ e. uexit os 0 e))))"
| "runcmd (PIPE l r) os e =
     bnd (sys os Sys_pipe e) (\<lambda>p e. case p of
       RFds p0 p1 \<Rightarrow>
         bnd (fork1 os e) (\<lambda>pid e.
         bnd (if pid = 0
              then bnd (calls [Sys_close 1, Sys_dup p1, Sys_close p0, Sys_close p1] os e) (\<lambda>_ e. runcmd l os e)
              else Ret () e) (\<lambda>_ e.
         bnd (fork1 os e) (\<lambda>pid e.
         bnd (if pid = 0
              then bnd (calls [Sys_close 0, Sys_dup p0, Sys_close p0, Sys_close p1] os e) (\<lambda>_ e. runcmd r os e)
              else Ret () e) (\<lambda>_ e.
         bnd (calls [Sys_close p0, Sys_close p1, Sys_wait, Sys_wait] os e) (\<lambda>_ e. uexit os 0 e)))))
     | _ \<Rightarrow> upanic ''pipe'' os e)"
| "runcmd (BACK c) os e =
     bnd (fork1 os e) (\<lambda>pid e. bnd (if pid = 0 then runcmd c os e else Ret () e) (\<lambda>_ e. uexit os 0 e))"

definition getcmd :: "int \<Rightarrow> 'e os \<Rightarrow> 'e \<Rightarrow> (int \<times> string, 'e) res" where
  "getcmd nbuf os e =
     bnd (sys os (Sys_write 2 ''$ '') e) (\<lambda>_ e. bnd (ugets nbuf os e) (\<lambda>buf e.
       Ret (if buf = [] \<or> hd buf = CHR 0x00 then -1 else 0, buf) e))"

text \<open>
  Parsing and running one line in the child: a syntax error prints its message and exits, and \<^verbatim>\<open>parsecmd\<close> first prints the text
  that it did not use.
\<close>

definition leftovers :: "string \<Rightarrow> string option" where
  "leftovers b =
     (case parseline (parse_fuel b) b 0 of
        Ret c p \<Rightarrow> let s = fst (peek b p []) in if s \<noteq> length b then Some (drop s b) else None
      | _ \<Rightarrow> None)"

definition run_line :: "string \<Rightarrow> 'e os \<Rightarrow> 'e \<Rightarrow> (unit, 'e) res" where
  "run_line buf os e =
     (case parsecmd (cstring buf 0) of
        Ret c m \<Rightarrow> runcmd (cmd_strings m c) os e
      | Panic msg \<Rightarrow>
          bnd (case leftovers (cstring buf 0) of
                 Some s \<Rightarrow> ufprintf 2 (''leftovers: %s'' @ [CHR 0x0A]) [Str (Some s)] os e
               | None \<Rightarrow> Ret () e) (\<lambda>_ e. upanic msg os e)
      | _ \<Rightarrow> Diverge)"

primrec open_fds :: "nat \<Rightarrow> 'e os \<Rightarrow> 'e \<Rightarrow> (unit, 'e) res" where
  "open_fds 0 os e = Diverge"
| "open_fds (Suc k) os e =
     bnd (sys os (Sys_open ''console'' 2) e) (\<lambda>fd e.
       if ret_int fd < 0 then Ret () e
       else if ret_int fd \<ge> 3 then calls [Sys_close (ret_int fd)] os e
       else open_fds k os e)"

primrec sh_loop :: "nat \<Rightarrow> 'e os \<Rightarrow> 'e \<Rightarrow> (unit, 'e) res" where
  "sh_loop 0 os e = Diverge"
| "sh_loop (Suc k) os e =
     bnd (getcmd 100 os e) (\<lambda>(r, buf) e.
       if r < 0 then Ret () e
       else if take 3 buf = ''cd '' then
         let dir = cstring (butlast (cstring buf 0)) 3 in
         bnd (sys os (Sys_chdir dir) e) (\<lambda>r e.
           bnd (if ret_int r < 0 then ufprintf 2 (''cannot cd %s'' @ [CHR 0x0A]) [Str (Some dir)] os e else Ret () e) (\<lambda>_ e.
             sh_loop k os e))
       else bnd (fork1 os e) (\<lambda>pid e. bnd (if pid = 0 then run_line buf os e else Ret () e) (\<lambda>_ e.
         bnd (calls [Sys_wait] os e) (\<lambda>_ e. sh_loop k os e))))"

definition sh_main :: "nat \<Rightarrow> 'e os \<Rightarrow> 'e \<Rightarrow> (unit, 'e) res" where
  "sh_main k os e = bnd (open_fds k os e) (\<lambda>_ e. bnd (sh_loop k os e) (\<lambda>_ e. uexit os 0 e))"

end
