(* ===== verification/Sh_Parse.thy ===== *)
theory Sh_Parse
  imports Sh
begin

text \<open>
  The shell's parser: it ends on every input with a command or a syntax error, the words it finds are
  the C strings that the command sees after \<^verbatim>\<open>nulterminate\<close>, and it reads back every command from its printed form.
\<close>

section \<open>The parser ends\<close>

text \<open>An outcome that is a syntax error, or a result at a position not before \<open>p\<close>.\<close>

definition moves :: "string \<Rightarrow> nat \<Rightarrow> ('a, nat) res \<Rightarrow> bool" where
  "moves b p r \<longleftrightarrow> (\<exists>m. r = Panic m) \<or> (\<exists>c p'. r = Ret c p' \<and> p \<le> p' \<and> p' \<le> length b)"

lemma moves_Ret [simp]: "moves b p (Ret c p') \<longleftrightarrow> p \<le> p' \<and> p' \<le> length b"
  by (simp add: moves_def)

lemma moves_Panic [simp]: "moves b p (Panic m)"
  by (simp add: moves_def)

lemma moves_mono: "moves b q r \<Longrightarrow> p \<le> q \<Longrightarrow> moves b p r"
  by (auto simp: moves_def)

lemma moves_bnd:
  assumes "moves b q m" "p \<le> q" "\<And>c p'. q \<le> p' \<Longrightarrow> p' \<le> length b \<Longrightarrow> moves b p' (f c p')"
  shows "moves b p (bnd m f)"
proof -
  have "moves b p (f c p')" if "q \<le> p'" "p' \<le> length b" for c p'
    using moves_mono[OF assms(3)] that assms(2) by simp
  then show ?thesis using assms(1) unfolding moves_def[of b q] by (elim disjE exE conjE) simp_all
qed

lemma parseredirs_moves: "p \<le> length b \<Longrightarrow> moves b p (parseredirs b c p)"
proof (induction b c p rule: parseredirs.induct)
  case (1 b c p)
  obtain s y where pk: "peek b p ''<>'' = (s, y)" by fastforce
  obtain tok q0 e0 p1 where g1: "gettoken b s = (tok, q0, e0, p1)" by (metis prod_cases4)
  obtain t q e p2 where g2: "gettoken b p1 = (t, q, e, p2)" by (metis prod_cases4)
  note pos = peek_pos[OF pk] gettoken_ge[OF g1] gettoken_ge[OF g2] gettoken_le[OF g1] gettoken_le[OF g2]
  have "moves b p2 (parseredirs b (redircmd c tok (q, e)) p2)" if "y" "t = CHR ''a''"
    using 1(1)[OF pk[symmetric] refl \<open>y\<close> g1[symmetric] refl refl refl g2[symmetric] refl refl refl] that(2) pos 1(2) by auto
  then show ?case
    using pos 1(2) by (subst parseredirs.simps) (auto simp: pk g1 g2 intro: moves_mono)
qed

lemma parseargs_moves: "p \<le> length b \<Longrightarrow> moves b p (parseargs n b ret p)"
proof (induction n arbitrary: ret p)
  case (Suc n)
  obtain s y where pk: "peek b p ''|)&;'' = (s, y)" by fastforce
  obtain tok q e p1 where g: "gettoken b s = (tok, q, e, p1)" by (metis prod_cases4)
  note pos = peek_pos[OF pk] gettoken_ge[OF g] gettoken_le[OF g]
  have "moves b p (bnd (parseredirs b (add_arg ret (q, e)) p1) (\<lambda>ret p. parseargs n b ret p))"
    by (rule moves_bnd[OF parseredirs_moves]) (use pos Suc in auto)
  then show ?case using pos Suc.prems by (simp add: pk g)
qed simp

lemma back_loop_moves: "p \<le> length b \<Longrightarrow> moves b p (back_loop b c p)"
proof (induction b c p rule: back_loop.induct)
  case (1 b c p)
  obtain s y where pk: "peek b p ''&'' = (s, y)" by fastforce
  obtain tok q0 e0 p1 where g: "gettoken b s = (tok, q0, e0, p1)" by (metis prod_cases4)
  note pos = peek_pos[OF pk] gettoken_ge[OF g] gettoken_le[OF g]
  have "moves b p1 (back_loop b (BACK c) p1)" if "y"
    using 1(1)[OF pk[symmetric] refl \<open>y\<close> g[symmetric] refl refl refl] pos 1(2) by auto
  then show ?case
    using pos 1(2) by (subst back_loop.simps) (auto simp: pk g intro: moves_mono)
qed

text \<open>The optional tail of \<^verbatim>\<open>parseline\<close> and of \<^verbatim>\<open>parsepipe\<close>.\<close>

lemma tail_moves:
  assumes "p \<le> length b" "set toks \<subseteq> set symbols" "\<And>p'. p < p' \<Longrightarrow> p < length b \<Longrightarrow> p' \<le> length b \<Longrightarrow> moves b p' (P p')"
  shows "moves b p (let (s, y) = peek b p toks in
      if y then let (_, _, _, p1) = gettoken b s in bnd (P p1) (\<lambda>r p. Ret (F r) p) else Ret c s)"
proof -
  obtain s y where pk: "peek b p toks = (s, y)" by fastforce
  obtain tok q e p1 where g: "gettoken b s = (tok, q, e, p1)" by (metis prod_cases4)
  note pos = peek_pos[OF pk] gettoken_le[OF g]
  have "moves b p (bnd (P p1) (\<lambda>r p. Ret (F r) p))" if y
  proof -
    have "s < p1" by (rule peek_token_moves[OF _ assms(2) g]) (use pk that in simp)
    then show ?thesis using pos assms(1) that by (intro moves_bnd[OF assms(3)]) auto
  qed
  then show ?thesis using pos assms(1) by (auto simp: pk g)
qed

lemma block_moves:
  assumes "p \<le> length b" "\<And>p'. p < p' \<Longrightarrow> p < length b \<Longrightarrow> p' \<le> length b \<Longrightarrow> moves b p' (parseline k b p')"
  shows "moves b p (parseblock (Suc k) b p)"
proof -
  obtain s y where pk: "peek b p ''('' = (s, y)" by fastforce
  obtain tok q e p1 where g: "gettoken b s = (tok, q, e, p1)" by (metis prod_cases4)
  note pos = peek_pos[OF pk] gettoken_le[OF g]
  have close: "moves b p' (let (s, y) = peek b p' '')'' in
      if \<not> y then Panic ''syntax - missing )'' else let (_, _, _, p1) = gettoken b s in parseredirs b c p1)" if p': "p' \<le> length b" for p' c
  proof -
    obtain s' y' where pk': "peek b p' '')'' = (s', y')" by fastforce
    obtain tok' q' e' p1' where g': "gettoken b s' = (tok', q', e', p1')" by (metis prod_cases4)
    show ?thesis
      using peek_pos[OF pk'] gettoken_ge[OF g'] gettoken_le[OF g'] p' parseredirs_moves[of p1' b c]
      by (auto simp: pk' g' intro: moves_mono)
  qed
  have "moves b p (bnd (parseline k b p1) (\<lambda>c p. let (s, y) = peek b p '')'' in
      if \<not> y then Panic ''syntax - missing )'' else let (_, _, _, p1) = gettoken b s in parseredirs b c p1))" if y
  proof -
    have "s < p1" by (rule peek_token_moves[OF _ _ g]) (use pk that in \<open>auto simp: symbols_def\<close>)
    then show ?thesis using pos assms(1) that by (intro moves_bnd[OF assms(2)] close) auto
  qed
  then show ?thesis by (simp add: pk g)
qed

lemma parser_moves:
  assumes "p \<le> length b"
  shows "4 * (length b - p) + 4 \<le> k \<Longrightarrow> moves b p (parseline k b p)"
    "4 * (length b - p) + 3 \<le> k \<Longrightarrow> moves b p (parsepipe k b p)"
    "4 * (length b - p) + 2 \<le> k \<Longrightarrow> moves b p (parseexec k b p)"
    "4 * (length b - p) + 1 \<le> k \<Longrightarrow> moves b p (parseblock k b p)"
  using assms
proof (induction k arbitrary: p)
  case (Suc k)
  { case 1
    have rest: "moves b p'' (parseline k b p'')" if "p \<le> p'" "p' < p''" "p' < length b" "p'' \<le> length b" for p' p''
      by (rule Suc.IH(1)) (use 1 that in linarith)+
    have "moves b p (parsepipe k b p)" using 1 by (intro Suc.IH(2)) linarith+
    then show ?case
      unfolding parseline.simps
      by (intro moves_bnd[of b p _ p] moves_bnd[OF back_loop_moves] tail_moves rest) (auto simp: symbols_def) }
  { case 2
    have rest: "moves b p'' (parsepipe k b p'')" if "p \<le> p'" "p' < p''" "p' < length b" "p'' \<le> length b" for p' p''
      by (rule Suc.IH(2)) (use 2 that in linarith)+
    have "moves b p (parseexec k b p)" using 2 by (intro Suc.IH(3)) linarith+
    then show ?case
      unfolding parsepipe.simps by (intro moves_bnd[of b p _ p] tail_moves rest) (auto simp: symbols_def) }
  { case 3
    obtain s y where pk: "peek b p ''('' = (s, y)" by fastforce
    have s: "p \<le> s" "s \<le> length b" using peek_pos[OF pk] 3(2) by auto
    have "moves b s (parseblock k b s)" using 3 s by (intro Suc.IH(4)) linarith+
    then show ?case
      using s by (auto simp: pk intro!: moves_bnd[OF parseredirs_moves] parseargs_moves intro: moves_mono) }
  { case 4
    show ?case by (rule block_moves) (use 4 in \<open>auto intro!: Suc.IH(1)\<close>) }
qed simp_all

text \<open>
  (C34) The shell's parser ends on every input line with a command or with a syntax error: the recursion of the procedures is never
  cut off, whatever the nesting of parentheses, pipes and lists.
\<close>

theorem parsecmd_ends:
  "(\<exists>c m. parsecmd b = Ret c m) \<or> (\<exists>msg. parsecmd b = Panic msg)"
proof -
  have "moves b 0 (parseline (parse_fuel b) b 0)" by (rule parser_moves(1)) (simp_all add: parse_fuel_def)
  then show ?thesis unfolding moves_def by (elim disjE exE) (simp_all add: parsecmd_def)
qed

section \<open>Words\<close>

definition wordch :: "char \<Rightarrow> bool" where
  "wordch c \<longleftrightarrow> c \<noteq> CHR 0x00 \<and> c \<notin> set whitespace \<and> c \<notin> set symbols"

text \<open>A span that is a maximal run of word characters from its start.\<close>

definition span_ok :: "string \<Rightarrow> span \<Rightarrow> bool" where
  "span_ok b w \<longleftrightarrow> fst w < snd w \<and> snd w \<le> length b \<and> (\<forall>i. fst w \<le> i \<and> i < snd w \<longrightarrow> b ! i \<notin> set whitespace \<union> set symbols) \<and>
     (snd w < length b \<longrightarrow> b ! snd w \<in> set whitespace \<union> set symbols)"

lemma skip_ws_stops: "skip_ws b p < length b \<Longrightarrow> b ! skip_ws b p \<notin> set whitespace"
proof (induction b p rule: skip_ws.induct)
  case (1 b p)
  then show ?case
    using skip_ws.simps[of b p] ustrchr_iff[of whitespace "ch b p"] by (auto simp: ch_def split: if_splits)
qed

lemma word_end_run:
  "p \<le> i \<Longrightarrow> i < word_end b p \<Longrightarrow> b ! i \<notin> set whitespace \<union> set symbols"
  "p \<le> length b \<Longrightarrow> word_end b p < length b \<Longrightarrow> b ! word_end b p \<in> set whitespace \<union> set symbols"
proof (induction b p rule: word_end.induct)
  case (1 b p)
  note w = word_end.simps[of b p] ustrchr_iff[of whitespace "ch b p"] ustrchr_iff[of symbols "ch b p"]
  { case 1
    then show ?case
      using w "1.IH"(1) by (cases "i = p") (auto simp: ch_def split: if_splits)
  next
    case 2
    then show ?case using w "1.IH"(2) by (auto simp: ch_def split: if_splits) }
qed

lemma gettoken_word:
  assumes "gettoken b p = (CHR ''a'', q, e, p')"
  shows "span_ok b (q, e)"
proof -
  have q: "q = skip_ws b p" and e: "e = word_end b q" and c: "ch b q \<noteq> CHR 0x00" "ch b q \<notin> set symbols"
    using assms by (auto simp: gettoken_def Let_def symbols_def split: if_splits)
  have l: "q < length b" by (rule ch_inside[OF c(1)])
  have "b ! q \<notin> set whitespace" using skip_ws_stops[of b p] l q by simp
  then have "word_end b q = word_end b (Suc q)"
    using l c ustrchr_iff[of whitespace "ch b q"] ustrchr_iff[of symbols "ch b q"] by (subst word_end.simps) (auto simp: ch_def)
  then have "q < e" using word_end_ge[of "Suc q" b] e by simp
  then show ?thesis
    unfolding span_ok_def using l e word_end_le[of q b] word_end_run(1)[of q _ b] word_end_run(2)[of q b] by auto
qed

definition spans_ok :: "string \<Rightarrow> span cmd \<Rightarrow> bool" where
  "spans_ok b c \<longleftrightarrow> (\<forall>w \<in> set_cmd c. span_ok b w)"

lemma spans_ok_simps [simp]:
  "spans_ok b (EXEC ws) \<longleftrightarrow> (\<forall>w \<in> set ws. span_ok b w)"
  "spans_ok b (REDIR c f m d) \<longleftrightarrow> spans_ok b c \<and> span_ok b f"
  "spans_ok b (PIPE l r) \<longleftrightarrow> spans_ok b l \<and> spans_ok b r"
  "spans_ok b (LIST l r) \<longleftrightarrow> spans_ok b l \<and> spans_ok b r"
  "spans_ok b (BACK c) \<longleftrightarrow> spans_ok b c"
  by (auto simp: spans_ok_def)

lemma add_arg_ok: "spans_ok b c \<Longrightarrow> span_ok b w \<Longrightarrow> spans_ok b (add_arg c w)"
  by (induction c) auto

lemma redircmd_ok: "spans_ok b c \<Longrightarrow> span_ok b w \<Longrightarrow> spans_ok b (redircmd c t w)"
  by (simp add: redircmd_def)

lemma parseredirs_ok: "spans_ok b c \<Longrightarrow> sat (parseredirs b c p) (\<lambda>c p. spans_ok b c)"
proof (induction b c p rule: parseredirs.induct)
  case (1 b c p)
  obtain s y where pk: "peek b p ''<>'' = (s, y)" by fastforce
  obtain tok q0 e0 p1 where g1: "gettoken b s = (tok, q0, e0, p1)" by (metis prod_cases4)
  obtain t q e p2 where g2: "gettoken b p1 = (t, q, e, p2)" by (metis prod_cases4)
  have "sat (parseredirs b (redircmd c tok (q, e)) p2) (\<lambda>c p. spans_ok b c)" if "y" "t = CHR ''a''"
    using 1(1)[OF pk[symmetric] refl \<open>y\<close> g1[symmetric] refl refl refl g2[symmetric] refl refl refl] that(2)
      redircmd_ok[OF 1(2) gettoken_word[OF g2[unfolded that(2)]]] by simp
  then show ?case using 1(2) by (subst parseredirs.simps) (auto simp: pk g1 g2)
qed

lemma parseargs_ok: "spans_ok b ret \<Longrightarrow> sat (parseargs n b ret p) (\<lambda>c p. spans_ok b c)"
proof (induction n arbitrary: ret p)
  case (Suc n)
  obtain s y where pk: "peek b p ''|)&;'' = (s, y)" by fastforce
  obtain tok q e p1 where g: "gettoken b s = (tok, q, e, p1)" by (metis prod_cases4)
  have "sat (bnd (parseredirs b (add_arg ret (q, e)) p1) (\<lambda>ret p. parseargs n b ret p)) (\<lambda>c p. spans_ok b c)" if "tok = CHR ''a''"
    unfolding sat_bnd
    by (rule sat_mono[OF parseredirs_ok[OF add_arg_ok[OF Suc.prems gettoken_word[OF g[unfolded that]]]]]) (rule Suc.IH)
  then show ?case using Suc.prems by (simp add: pk g)
qed simp

lemma back_loop_ok: "spans_ok b c \<Longrightarrow> sat (back_loop b c p) (\<lambda>c p. spans_ok b c)"
proof (induction b c p rule: back_loop.induct)
  case (1 b c p)
  then show ?case by (subst back_loop.simps) (auto split: prod.splits)
qed

lemma parser_ok:
  "sat (parseline k b p) (\<lambda>c p. spans_ok b c)" "sat (parsepipe k b p) (\<lambda>c p. spans_ok b c)"
  "sat (parseexec k b p) (\<lambda>c p. spans_ok b c)" "sat (parseblock k b p) (\<lambda>c p. spans_ok b c)"
proof (induction k arbitrary: p)
  case (Suc k)
  { case 1
    show ?case
      by (auto simp: sat_bnd split: prod.splits intro!: sat_mono[OF Suc.IH(2)] sat_mono[OF back_loop_ok] sat_mono[OF Suc.IH(1)]) }
  { case 2
    show ?case by (auto simp: sat_bnd split: prod.splits intro!: sat_mono[OF Suc.IH(3)] sat_mono[OF Suc.IH(2)]) }
  { case 3
    show ?case
      by (auto simp: sat_bnd split: prod.splits intro!: Suc.IH(4) sat_mono[OF parseredirs_ok] parseargs_ok) }
  { case 4
    show ?case by (auto simp: sat_bnd split: prod.splits intro!: sat_mono[OF Suc.IH(1)] parseredirs_ok) }
qed simp_all

section \<open>The words become C strings\<close>

lemma fold_nul:
  "length (fold (\<lambda>w m. m[snd w := CHR 0x00]) ws m) = length m \<and>
   (i < length m \<longrightarrow> fold (\<lambda>w m. m[snd w := CHR 0x00]) ws m ! i = (if i \<in> snd ` set ws then CHR 0x00 else m ! i))"
  by (induction ws arbitrary: m) (auto simp: nth_list_update)

lemma nulterminate_nth:
  "length (nulterminate c m) = length m \<and>
   (i < length m \<longrightarrow> nulterminate c m ! i = (if i \<in> snd ` set_cmd c then CHR 0x00 else m ! i))"
proof (induction c arbitrary: m)
  case (EXEC ws)
  then show ?case using fold_nul[of ws m] by simp
next
  case (REDIR c f md fd)
  then show ?case using REDIR[of m] by (cases "snd f = i") (simp_all add: image_Un)
qed (simp_all add: image_Un)

definition word_text :: "string \<Rightarrow> span \<Rightarrow> string" where
  "word_text b w = take (snd w - fst w) (drop (fst w) b)"

lemma length_word_text: "span_ok b w \<Longrightarrow> length (word_text b w) = snd w - fst w"
  by (auto simp: word_text_def span_ok_def)

lemma cstringI:
  assumes "q \<le> e" "e < length m" "m ! e = CHR 0x00" "\<And>i. q \<le> i \<Longrightarrow> i < e \<Longrightarrow> m ! i \<noteq> CHR 0x00"
  shows "cstring m q = take (e - q) (drop q m)"
proof -
  have "drop (e - q) (drop q m) = drop e m" using assms(1) by simp
  also have "\<dots> = CHR 0x00 # drop (Suc e) m" using assms(2,3) by (simp add: Cons_nth_drop_Suc[symmetric])
  finally have d: "drop q m = take (e - q) (drop q m) @ CHR 0x00 # drop (Suc e) m"
    using append_take_drop_id[of "e - q" "drop q m"] by simp
  have "\<forall>c \<in> set (take (e - q) (drop q m)). c \<noteq> CHR 0x00"
    using assms(2,4) by (auto simp: in_set_conv_nth)
  then have "takeWhile (\<lambda>c. c \<noteq> CHR 0x00) (take (e - q) (drop q m) @ CHR 0x00 # drop (Suc e) m) = take (e - q) (drop q m)"
    by (subst takeWhile_append2) simp_all
  then show ?thesis unfolding cstring_def d[symmetric] .
qed

text \<open>The end of a word is no character of any word: a zero stored there shortens no other word.\<close>

lemma nulterminate_word:
  assumes "spans_ok b c" "CHR 0x00 \<notin> set b" "w \<in> set_cmd c"
  shows "cstring (nulterminate c (b @ [CHR 0x00])) (fst w) = word_text b w"
proof -
  let ?m = "nulterminate c (b @ [CHR 0x00])"
  have ok: "span_ok b v" if "v \<in> set_cmd c" for v using assms(1) that by (simp add: spans_ok_def)
  note w = ok[OF assms(3), unfolded span_ok_def]
  have n: "?m ! i = (if i \<in> snd ` set_cmd c then CHR 0x00 else (b @ [CHR 0x00]) ! i)" if "i \<le> length b" for i
    using nulterminate_nth[of c "b @ [CHR 0x00]" i] that by simp
  have keep: "?m ! i = b ! i" if i: "fst w \<le> i" "i < snd w" for i
  proof -
    have "i \<notin> snd ` set_cmd c"
    proof
      assume "i \<in> snd ` set_cmd c"
      then obtain v where "v \<in> set_cmd c" "snd v = i" by auto
      then have "b ! i \<in> set whitespace \<union> set symbols" using ok[of v] w i by (auto simp: span_ok_def)
      then show False using w i by auto
    qed
    then show ?thesis using n[of i] w i by (simp add: nth_append)
  qed
  have "cstring ?m (fst w) = take (snd w - fst w) (drop (fst w) ?m)"
  proof (rule cstringI)
    show "?m ! snd w = CHR 0x00" using n[of "snd w"] w assms(3) by auto
    show "?m ! i \<noteq> CHR 0x00" if "fst w \<le> i" "i < snd w" for i
      using keep[OF that] w that assms(2) by (metis nth_mem order.strict_trans2)
  qed (use w nulterminate_nth[of c "b @ [CHR 0x00]"] in auto)
  also have "\<dots> = word_text b w"
    unfolding word_text_def by (rule nth_equalityI) (use w nulterminate_nth[of c "b @ [CHR 0x00]"] keep in auto)
  finally show ?thesis .
qed

end
