(* ===== verification/Sh_Print.thy ===== *)
theory Sh_Print
  imports Sh_Parse
begin

text \<open>
  Printing and parsing of shell commands: every command, of whatever nesting, has a printed form that the shell's parser reads
  back as that command.
\<close>

section \<open>Printing\<close>

definition redir_op :: "int \<Rightarrow> string" where
  "redir_op m = (if m = 0 then '' <'' else if m = 0x601 then '' >'' else '' >>'')"

definition redir_text :: "string \<times> int \<times> int \<Rightarrow> string" where
  "redir_text r = redir_op (fst (snd r)) @ CHR '' '' # fst r"

definition paren :: "bool \<Rightarrow> string \<Rightarrow> string" where
  "paren y s = (if y then ''('' @ s @ '')'' else s)"

text \<open>The levels of the grammar: 0 a simple command or block, 1 a pipeline, 2 with ampersands, 3 a list.\<close>

primrec print_cmd :: "string cmd \<Rightarrow> nat \<Rightarrow> string" where
  "print_cmd (EXEC ws) n = concat (map ((#) CHR '' '') ws)"
| "print_cmd (REDIR c f m d) n = print_cmd c 0 @ redir_text (f, m, d)"
| "print_cmd (PIPE l r) n = paren (n < 1) (print_cmd l 0 @ ''|'' @ print_cmd r 1)"
| "print_cmd (BACK c) n = paren (n < 2) (print_cmd c 2 @ ''&'')"
| "print_cmd (LIST l r) n = paren (n < 3) (print_cmd l 2 @ '';'' @ print_cmd r 3)"

definition word_ok :: "string \<Rightarrow> bool" where
  "word_ok w \<longleftrightarrow> w \<noteq> [] \<and> (\<forall>c \<in> set w. wordch c)"

definition redir_ok :: "string \<times> int \<times> int \<Rightarrow> bool" where
  "redir_ok r \<longleftrightarrow> word_ok (fst r) \<and> snd r \<in> {(0, 0), (0x601, 1), (0x201, 1)}"

primrec cmd_ok :: "string cmd \<Rightarrow> bool" where
  "cmd_ok (EXEC ws) \<longleftrightarrow> length ws < MAXARGS \<and> list_all word_ok ws"
| "cmd_ok (REDIR c f m d) \<longleftrightarrow> cmd_ok c \<and> redir_ok (f, m, d)"
| "cmd_ok (PIPE l r) \<longleftrightarrow> cmd_ok l \<and> cmd_ok r"
| "cmd_ok (LIST l r) \<longleftrightarrow> cmd_ok l \<and> cmd_ok r"
| "cmd_ok (BACK c) \<longleftrightarrow> cmd_ok c"

section \<open>Tokens of a text\<close>

lemma ustrchr_None: "ustrchr s c = None \<longleftrightarrow> c \<notin> set s"
  using ustrchr_iff[of s c] by blast

definition blank :: "string \<Rightarrow> string" where
  "blank t = dropWhile (\<lambda>c. c \<in> set whitespace) t"

lemma blank_blank [simp]: "blank (blank t) = blank t"
  by (induction t) (simp_all add: blank_def)

lemma blank_simps [simp]:
  "blank [] = []" "blank (CHR '' '' # t) = blank t"
  "c \<notin> set whitespace \<Longrightarrow> blank (c # t) = c # t"
  by (simp_all add: blank_def whitespace_def)

lemma blank_hd: "blank t = c # u \<Longrightarrow> c \<notin> set whitespace"
  unfolding blank_def by (metis dropWhile_eq_Cons_conv)

lemma ch_drop: "ch b p = (case drop p b of [] \<Rightarrow> CHR 0x00 | c # _ \<Rightarrow> c)"
  by (auto simp: ch_def Cons_nth_drop_Suc[symmetric])

lemma drop_Suc_tl: "drop (Suc p) b = tl (drop p b)"
  by (simp add: drop_Suc tl_drop)

lemma skip_ws_drop: "drop (skip_ws b p) b = blank (drop p b)"
proof (induction b p rule: skip_ws.induct)
  case (1 b p)
  have e: "drop p b = ch b p # drop (Suc p) b" if "p < length b" using that by (simp add: ch_def Cons_nth_drop_Suc)
  show ?case
  proof (cases "p < length b \<and> ustrchr whitespace (ch b p) \<noteq> None")
    case True
    then have "ch b p \<in> set whitespace" using ustrchr_iff by metis
    then show ?thesis using True 1 e by (subst skip_ws.simps) (simp add: blank_def)
  next
    case False
    then have "drop p b = [] \<or> ch b p \<notin> set whitespace" using ustrchr_iff[of whitespace "ch b p"] by auto
    moreover have "skip_ws b p = p" using False by (subst skip_ws.simps) auto
    ultimately show ?thesis using e by (cases "p < length b") auto
  qed
qed

definition plain :: "char \<Rightarrow> bool" where
  "plain c \<longleftrightarrow> c \<notin> set whitespace \<union> set symbols"

lemma word_end_drop:
  "drop (word_end b p) b = dropWhile plain (drop p b) \<and> word_text b (p, word_end b p) = takeWhile plain (drop p b)"
proof (induction b p rule: word_end.induct)
  case (1 b p)
  have e: "drop p b = ch b p # drop (Suc p) b" if "p < length b" using that by (simp add: ch_def Cons_nth_drop_Suc)
  have pl: "plain (ch b p) \<longleftrightarrow> ustrchr whitespace (ch b p) = None \<and> ustrchr symbols (ch b p) = None"
    by (simp add: plain_def ustrchr_None)
  show ?case
  proof (cases "p < length b \<and> plain (ch b p)")
    case True
    have "Suc p \<le> word_end b (Suc p)" by (rule word_end_ge)
    then have "take (word_end b (Suc p) - p) (drop p b) = ch b p # word_text b (Suc p, word_end b (Suc p))"
      using True e by (simp add: word_text_def take_Cons' Suc_diff_le[symmetric])
    then show ?thesis using True pl 1 e word_end.simps[of b p] by (simp add: word_text_def)
  next
    case False
    then have "word_end b p = p" using pl by (subst word_end.simps) auto
    then show ?thesis using False e by (cases "p < length b") (auto simp: word_text_def)
  qed
qed

definition sep :: "string \<Rightarrow> bool" where
  "sep t \<longleftrightarrow> t = [] \<or> \<not> plain (hd t)"

lemma gettoken_text_word:
  assumes "blank (drop p b) = w @ t" "word_ok w" "sep t"
  shows "\<exists>q e p'. gettoken b p = (CHR ''a'', q, e, p') \<and> word_text b (q, e) = w \<and> drop p' b = blank t"
proof -
  let ?q = "skip_ws b p" and ?e = "word_end b (skip_ws b p)"
  have d: "drop ?q b = w @ t" using skip_ws_drop assms(1) by simp
  obtain c v where w: "w = c # v" using assms(2) by (cases w) (auto simp: word_ok_def)
  have c: "ch b ?q = c" "c \<noteq> CHR 0x00" "c \<notin> set symbols" using d w assms(2) by (simp_all add: ch_drop word_ok_def wordch_def)
  have pl: "\<forall>x \<in> set w. plain x" using assms(2) by (auto simp: word_ok_def wordch_def plain_def)
  then have tw: "takeWhile plain (w @ t) = w" "dropWhile plain (w @ t) = t"
    using assms(3) by (cases t; simp add: sep_def)+
  have "gettoken b p = (CHR ''a'', ?q, ?e, skip_ws b ?e)" using c by (auto simp: gettoken_def Let_def symbols_def)
  moreover have "word_text b (?q, ?e) = w" "drop ?e b = t" using word_end_drop[of b ?q] d tw by simp_all
  ultimately show ?thesis using skip_ws_drop[of b ?e] by blast
qed

lemma gettoken_text_sym:
  assumes "blank (drop p b) = c # t" "c \<in> set ''|();&<''"
  shows "\<exists>q e p'. gettoken b p = (c, q, e, p') \<and> drop p' b = blank t"
proof -
  let ?q = "skip_ws b p"
  have d: "drop ?q b = c # t" using skip_ws_drop assms(1) by simp
  have "ch b ?q = c" "drop (Suc ?q) b = t" using d by (simp_all add: ch_drop drop_Suc_tl)
  then have "gettoken b p = (c, ?q, Suc ?q, skip_ws b (Suc ?q))" using assms(2) by (auto simp: gettoken_def Let_def)
  then show ?thesis using skip_ws_drop[of b "Suc ?q"] \<open>drop (Suc ?q) b = t\<close> by auto
qed

lemma gettoken_text_gt:
  assumes "blank (drop p b) = CHR ''>'' # t"
  shows "\<exists>q e p'. gettoken b p = (if t \<noteq> [] \<and> hd t = CHR ''>'' then CHR ''+'' else CHR ''>'', q, e, p') \<and>
    drop p' b = blank (if t \<noteq> [] \<and> hd t = CHR ''>'' then tl t else t)"
proof -
  let ?q = "skip_ws b p"
  have d: "drop ?q b = CHR ''>'' # t" using skip_ws_drop assms(1) by simp
  have c: "ch b ?q = CHR ''>''" "drop (Suc ?q) b = t" "drop (Suc (Suc ?q)) b = tl t" using d by (simp_all add: ch_drop drop_Suc_tl)
  have c2: "ch b (Suc ?q) = CHR ''>'' \<longleftrightarrow> t \<noteq> [] \<and> hd t = CHR ''>''"
    by (cases t) (simp_all add: ch_drop c(2))
  show ?thesis
    using c c2 skip_ws_drop[of b "Suc ?q"] skip_ws_drop[of b "Suc (Suc ?q)"] by (auto simp: gettoken_def Let_def)
qed

lemma gettoken_text_end:
  assumes "blank (drop p b) = []"
  shows "\<exists>q e p'. gettoken b p = (CHR 0x00, q, e, p') \<and> drop p' b = []"
proof -
  have d: "drop (skip_ws b p) b = []" using skip_ws_drop assms by simp
  then have "ch b (skip_ws b p) = CHR 0x00" by (simp add: ch_drop)
  then show ?thesis using skip_ws_drop[of b "skip_ws b p"] d by (simp add: gettoken_def Let_def)
qed

lemma peek_text:
  "\<exists>s. peek b p toks = (s, case blank (drop p b) of [] \<Rightarrow> False | c # _ \<Rightarrow> c \<noteq> CHR 0x00 \<and> c \<in> set toks) \<and> drop s b = blank (drop p b)"
  using skip_ws_drop[of b p] ustrchr_iff[of toks "ch b (skip_ws b p)"] by (auto simp: peek_def Let_def ch_drop split: list.split)

section \<open>Redirections and arguments\<close>

text \<open>An outcome that is cut off or returns with \<open>Q\<close>.\<close>

primrec okd :: "('a, 's) res \<Rightarrow> ('a \<Rightarrow> 's \<Rightarrow> bool) \<Rightarrow> bool" where
  "okd (Ret a s) Q = Q a s"
| "okd (Panic e) Q = False"
| "okd (Sleep c s) Q = False"
| "okd (Exit s) Q = False"
| "okd Diverge Q = True"

lemma okd_bnd: "okd (bnd m f) Q = okd m (\<lambda>a s. okd (f a s) Q)"
  by (cases m) auto

lemma okd_mono: "okd m P \<Longrightarrow> (\<And>a s. P a s \<Longrightarrow> Q a s) \<Longrightarrow> okd m Q"
  by (cases m) auto

abbreviation cmd_text :: "string \<Rightarrow> span cmd \<Rightarrow> string cmd" where
  "cmd_text b \<equiv> map_cmd (word_text b)"

definition wrap :: "string cmd \<Rightarrow> string \<times> int \<times> int \<Rightarrow> string cmd" where
  "wrap c r = REDIR c (fst r) (fst (snd r)) (snd (snd r))"

definition redirs_text :: "(string \<times> int \<times> int) list \<Rightarrow> string" where
  "redirs_text rs = concat (map redir_text rs)"

definition stop :: "string \<Rightarrow> string \<Rightarrow> bool" where
  "stop cs t \<longleftrightarrow> t = [] \<or> hd t \<in> set cs"

lemma stop_Nil [simp]: "stop cs []"
  by (simp add: stop_def)

lemma stop_mono: "stop cs t \<Longrightarrow> set cs \<subseteq> set ds \<Longrightarrow> stop ds t"
  by (auto simp: stop_def)

lemma stop_blank: "stop cs t \<Longrightarrow> set cs \<subseteq> set symbols \<Longrightarrow> blank t = t"
  by (cases t) (auto simp: stop_def symbols_def whitespace_def)

lemma stop_sep: "stop cs t \<Longrightarrow> set cs \<subseteq> set symbols \<Longrightarrow> sep t"
  by (auto simp: stop_def sep_def plain_def)

lemma sep_blank [simp]: "sep (CHR '' '' # t)"
  by (simp add: sep_def plain_def whitespace_def)

lemma sep_append: "(s \<noteq> [] \<Longrightarrow> sep s) \<Longrightarrow> sep t \<Longrightarrow> sep (s @ t)"
  by (cases s) (auto simp: sep_def)

lemma word_ok_hd: "word_ok w \<Longrightarrow> blank (w @ t) = w @ t"
  by (cases w) (auto simp: word_ok_def wordch_def)

lemma sep_redirs: "sep (redirs_text rs)"
proof (cases rs)
  case (Cons r rs')
  then show ?thesis by (simp add: redirs_text_def redir_text_def redir_op_def)
qed (simp add: redirs_text_def sep_def)

lemma redircmd_text:
  assumes "blank (drop p b) = blank (redir_text r @ t)" "redir_ok r" "sep t"
  shows "\<exists>tok q0 e0 p1 q e p2. gettoken b p = (tok, q0, e0, p1) \<and> gettoken b p1 = (CHR ''a'', q, e, p2) \<and>
    (\<forall>c. cmd_text b (redircmd c tok (q, e)) = wrap (cmd_text b c) r) \<and> drop p2 b = blank t"
proof -
  obtain f m d where r: "r = (f, m, d)" by (cases r)
  have f: "word_ok f" and md: "(m, d) \<in> {(0, 0), (0x601, 1), (0x201, 1)}" using assms(2) r by (auto simp: redir_ok_def)
  have next_word: "\<exists>q e p2. gettoken b p1 = (CHR ''a'', q, e, p2) \<and> word_text b (q, e) = f \<and> drop p2 b = blank t"
    if "drop p1 b = blank (CHR '' '' # f @ t)" for p1
    by (rule gettoken_text_word) (use that f assms(3) in \<open>simp_all add: word_ok_hd\<close>)
  have sy: "CHR ''<'' \<notin> set whitespace" "CHR ''>'' \<notin> set whitespace" by (simp_all add: whitespace_def)
  consider "m = 0" "d = 0" | "m = 0x601" "d = 1" | "m = 0x201" "d = 1" using md by auto
  then show ?thesis
  proof cases
    case 1
    then have "blank (drop p b) = CHR ''<'' # CHR '' '' # f @ t" using assms(1) r sy by (simp add: redir_text_def redir_op_def)
    from gettoken_text_sym[OF this] obtain q0 e0 p1 where g: "gettoken b p = (CHR ''<'', q0, e0, p1)" "drop p1 b = blank (CHR '' '' # f @ t)"
      by auto
    from next_word[OF g(2)] g(1) show ?thesis using 1 r by (fastforce simp: redircmd_def wrap_def)
  next
    case 2
    then have "blank (drop p b) = CHR ''>'' # CHR '' '' # f @ t" using assms(1) r sy by (simp add: redir_text_def redir_op_def)
    from gettoken_text_gt[OF this] obtain q0 e0 p1 where g: "gettoken b p = (CHR ''>'', q0, e0, p1)" "drop p1 b = blank (CHR '' '' # f @ t)"
      by auto
    from next_word[OF g(2)] g(1) show ?thesis using 2 r by (fastforce simp: redircmd_def wrap_def)
  next
    case 3
    then have "blank (drop p b) = CHR ''>'' # CHR ''>'' # CHR '' '' # f @ t" using assms(1) r sy by (simp add: redir_text_def redir_op_def)
    from gettoken_text_gt[OF this] obtain q0 e0 p1 where g: "gettoken b p = (CHR ''+'', q0, e0, p1)" "drop p1 b = blank (CHR '' '' # f @ t)"
      by auto
    from next_word[OF g(2)] g(1) show ?thesis using 3 r by (fastforce simp: redircmd_def wrap_def)
  qed
qed

lemma redir_text_hd: "\<exists>c u. blank (redir_text r @ t) = c # u \<and> c \<in> set ''<>''"
  by (auto simp: redir_text_def redir_op_def whitespace_def blank_def)

lemma parseredirs_text:
  assumes "blank (drop p b) = blank (redirs_text rs @ t)" "list_all redir_ok rs" "sep t"
    and "\<And>c u. blank t = c # u \<Longrightarrow> c \<notin> set ''<>''"
  shows "\<exists>c' p'. parseredirs b c p = Ret c' p' \<and> cmd_text b c' = foldl wrap (cmd_text b c) rs \<and> drop p' b = blank t"
  using assms(1,2)
proof (induction rs arbitrary: c p)
  case Nil
  obtain s y where pk: "peek b p ''<>'' = (s, y)" "drop s b = blank t"
    and y: "y = (case blank t of [] \<Rightarrow> False | c # _ \<Rightarrow> c \<noteq> CHR 0x00 \<and> c \<in> set ''<>'')"
    using peek_text[of b p "''<>''"] Nil by (auto simp: redirs_text_def)
  have "\<not> y" using y assms(4) by (auto split: list.splits)
  then show ?case using pk by (subst parseredirs.simps) simp
next
  case (Cons r rs)
  let ?t = "redirs_text rs @ t"
  have d: "blank (drop p b) = blank (redir_text r @ ?t)" using Cons.prems(1) by (simp add: redirs_text_def)
  obtain s where pk: "peek b p ''<>'' = (s, True)" "drop s b = blank (drop p b)"
    using peek_text[of b p "''<>''"] redir_text_hd[of r ?t] d by (auto split: list.splits)
  have "sep ?t" by (rule sep_append[OF sep_redirs assms(3)])
  then obtain tok q0 e0 p1 q e p2 where g: "gettoken b s = (tok, q0, e0, p1)" "gettoken b p1 = (CHR ''a'', q, e, p2)"
      "\<forall>c. cmd_text b (redircmd c tok (q, e)) = wrap (cmd_text b c) r" "drop p2 b = blank ?t"
    using redircmd_text[of s b r ?t] d pk(2) Cons.prems(2) by auto
  have "\<exists>c' p'. parseredirs b (redircmd c tok (q, e)) p2 = Ret c' p' \<and>
      cmd_text b c' = foldl wrap (cmd_text b (redircmd c tok (q, e))) rs \<and> drop p' b = blank t"
    by (rule Cons.IH) (use g(4) Cons.prems(2) in simp_all)
  then show ?case using pk(1) g by (subst parseredirs.simps) simp
qed

definition args_text :: "string list \<Rightarrow> string" where
  "args_text ws = concat (map ((#) CHR '' '') ws)"

lemma args_text_simps [simp]: "args_text [] = []" "args_text (w # ws) = CHR '' '' # w @ args_text ws"
  by (simp_all add: args_text_def)

lemma map_add_arg: "map_cmd f (add_arg c w) = add_arg (map_cmd f c) (f w)"
  by (induction c) auto

lemma add_arg_wrap: "foldl add_arg (EXEC us) ws = EXEC (us @ ws)"
  by (induction ws arbitrary: us) auto

lemma sep_args: "sep t \<Longrightarrow> sep (args_text ws @ t)"
  by (cases ws) simp_all

lemma word_ok_Cons: "word_ok (c # v) \<Longrightarrow> c \<noteq> CHR 0x00 \<and> c \<notin> set symbols \<and> c \<notin> set whitespace"
  by (simp add: word_ok_def wordch_def)

abbreviation (input) cmd_end :: string where "cmd_end \<equiv> ''|)&;''"

lemma cmd_end_symbols: "set cmd_end \<subseteq> set symbols" "CHR 0x00 \<notin> set cmd_end"
  by (simp_all add: symbols_def)

lemma parseargs_end:
  assumes "blank (drop p b) = t" "stop cmd_end t" "0 < n"
  shows "\<exists>p'. parseargs n b ret p = Ret ret p' \<and> drop p' b = t"
proof -
  obtain m where n: "n = Suc m" using assms(3) by (cases n) auto
  obtain s where pk: "peek b p cmd_end = (s, t \<noteq> [])" "drop s b = t"
    using peek_text[of b p cmd_end] assms(1,2) cmd_end_symbols(2) by (auto simp: stop_def split: list.splits)
  show ?thesis
  proof (cases "t = []")
    case True
    then have "blank (drop s b) = []" using pk by simp
    from gettoken_text_end[OF this] obtain q e p' where "gettoken b s = (CHR 0x00, q, e, p')" "drop p' b = []" by blast
    then show ?thesis using pk True n by simp
  qed (use pk n in simp)
qed

lemma args_not_redir:
  assumes "list_all word_ok ws" "ws = [] \<Longrightarrow> stop cmd_end t" "blank (args_text ws @ t) = x # y"
  shows "x \<notin> set ''<>''"
proof (cases ws)
  case Nil
  then have "stop cmd_end t" using assms(2) by simp
  then have "hd t \<in> set cmd_end" "blank t = t"
    using assms(3) Nil stop_blank[OF _ cmd_end_symbols(1)] by (auto simp: stop_def)
  then show ?thesis using assms(3) Nil by (cases t) auto
next
  case (Cons w ws')
  then obtain c v where "w = c # v" "word_ok w" using assms(1) by (cases w) (auto simp: word_ok_def)
  then have "x = c" "c \<notin> set symbols" using assms(3) Cons word_ok_Cons[of c v] by auto
  then show ?thesis by (auto simp: symbols_def)
qed

lemma parseargs_text:
  assumes "blank (drop p b) = blank (args_text ws @ redirs_text rs @ t)" "list_all word_ok ws" "list_all redir_ok rs"
    "stop cmd_end t" "length ws < n" "ws = [] \<longrightarrow> rs = []"
  shows "\<exists>c' p'. parseargs n b ret p = Ret c' p' \<and> cmd_text b c' = foldl wrap (foldl add_arg (cmd_text b ret) ws) rs \<and> drop p' b = t"
  using assms
proof (induction ws arbitrary: n ret p rs)
  case Nil
  have "blank t = t" using Nil.prems(4) cmd_end_symbols(1) by (rule stop_blank)
  then show ?case using parseargs_end[of p b t n ret] Nil.prems by (auto simp: redirs_text_def)
next
  case (Cons w ws)
  let ?t = "args_text ws @ redirs_text rs @ t"
  have st: "sep t" "blank t = t" using stop_sep[OF Cons.prems(4) cmd_end_symbols(1)] stop_blank[OF Cons.prems(4) cmd_end_symbols(1)] by auto
  have w: "word_ok w" and d: "blank (drop p b) = w @ ?t" using Cons.prems(1,2) by (simp_all add: word_ok_hd)
  obtain c v where cv: "w = c # v" using w by (cases w) (auto simp: word_ok_def)
  have c: "c \<notin> set cmd_end" using word_ok_Cons[OF w[unfolded cv]] cmd_end_symbols(1) by auto
  obtain s where pk: "peek b p cmd_end = (s, False)" "drop s b = w @ ?t"
    using peek_text[of b p cmd_end] d cv c by auto
  have "sep ?t" by (intro sep_args sep_append sep_redirs st)
  then obtain q e p1 where g: "gettoken b s = (CHR ''a'', q, e, p1)" "word_text b (q, e) = w" "drop p1 b = blank ?t"
    using gettoken_text_word[of s b w ?t] pk(2) w by (auto simp: word_ok_hd)
  obtain m where n: "n = Suc m" "length ws < m" using Cons.prems(5) by (cases n) auto
  define here where "here = (if ws = [] then rs else [])"
  define later where "later = (if ws = [] then [] else rs)"
  let ?u = "args_text ws @ redirs_text later @ t"
  have u: "blank (drop p1 b) = blank (redirs_text here @ ?u)" "sep ?u"
    using g(3) st sep_append[OF sep_redirs] by (auto simp: here_def later_def redirs_text_def intro!: sep_args)
  have nl: "x \<notin> set ''<>''" if "blank ?u = x # y" for x y
    by (rule args_not_redir[OF _ _ that]) (use Cons.prems(2,4) in \<open>simp_all add: later_def redirs_text_def\<close>)
  have "\<exists>c2 p2. parseredirs b (add_arg ret (q, e)) p1 = Ret c2 p2 \<and>
      cmd_text b c2 = foldl wrap (cmd_text b (add_arg ret (q, e))) here \<and> drop p2 b = blank ?u"
    by (rule parseredirs_text[OF u(1) _ u(2) nl]) (use Cons.prems(3) in \<open>simp_all add: here_def\<close>)
  then obtain c2 p2 where r: "parseredirs b (add_arg ret (q, e)) p1 = Ret c2 p2"
      "cmd_text b c2 = foldl wrap (cmd_text b (add_arg ret (q, e))) here" "drop p2 b = blank ?u"
    by blast
  have "\<exists>c' p'. parseargs m b c2 p2 = Ret c' p' \<and> cmd_text b c' = foldl wrap (foldl add_arg (cmd_text b c2) ws) later \<and> drop p' b = t"
    by (rule Cons.IH) (use r(3) Cons.prems n in \<open>auto simp: later_def\<close>)
  moreover have "foldl wrap (foldl add_arg (cmd_text b c2) ws) later = foldl wrap (foldl add_arg (cmd_text b ret) (w # ws)) rs"
    using r(2) g(2) by (simp add: here_def later_def map_add_arg)
  ultimately show ?case using pk(1) g(1) r(1) n by auto
qed

section \<open>The levels of the grammar\<close>

abbreviation (input) pipe_end :: string where "pipe_end \<equiv> '')&;''"

definition reads0 :: "string \<Rightarrow> string cmd \<Rightarrow> bool" where
  "reads0 b c \<longleftrightarrow> (\<forall>k p t rs. blank (drop p b) = blank (print_cmd c 0 @ redirs_text rs @ t) \<longrightarrow> list_all redir_ok rs \<longrightarrow> stop cmd_end t \<longrightarrow>
     okd (parseexec k b p) (\<lambda>c' p'. cmd_text b c' = foldl wrap c rs \<and> drop p' b = t))"

definition reads1 :: "string \<Rightarrow> string cmd \<Rightarrow> bool" where
  "reads1 b c \<longleftrightarrow> (\<forall>k p t. blank (drop p b) = blank (print_cmd c 1 @ t) \<longrightarrow> stop pipe_end t \<longrightarrow>
     okd (parsepipe k b p) (\<lambda>c' p'. cmd_text b c' = c \<and> drop p' b = t))"

definition reads2 :: "string \<Rightarrow> string cmd \<Rightarrow> bool" where
  "reads2 b c \<longleftrightarrow> (\<forall>k p t. blank (drop p b) = blank (print_cmd c 2 @ t) \<longrightarrow> stop pipe_end t \<longrightarrow>
     okd (parsepipe k b p) (\<lambda>c0 p0. \<exists>c1 p1. back_loop b c0 p0 = back_loop b c1 p1 \<and> cmd_text b c1 = c \<and> drop p1 b = t))"

definition reads3 :: "string \<Rightarrow> string cmd \<Rightarrow> bool" where
  "reads3 b c \<longleftrightarrow> (\<forall>k p t. blank (drop p b) = blank (print_cmd c 3 @ t) \<longrightarrow> stop '')'' t \<longrightarrow>
     okd (parseline k b p) (\<lambda>c' p'. cmd_text b c' = c \<and> drop p' b = t))"

lemma pipe_end_cmd_end: "stop pipe_end t \<Longrightarrow> stop cmd_end t"
  by (erule stop_mono) auto

lemma pipe_end_blank: "stop pipe_end t \<Longrightarrow> blank t = t"
  by (erule stop_blank) (auto simp: symbols_def)

lemma peek_stop:
  assumes "drop p b = t" "stop cs t" "blank t = t" "set cs \<inter> set toks = {}"
  shows "\<exists>s. peek b p toks = (s, False) \<and> drop s b = t"
  using peek_text[of b p toks] assms by (cases t) (auto simp: stop_def)

lemma peek_sym:
  assumes "drop p b = c # t" "c \<in> set ''|();&<''" "c \<in> set toks"
  shows "\<exists>s p1 q e. peek b p toks = (s, True) \<and> gettoken b s = (c, q, e, p1) \<and> drop p1 b = blank t"
proof -
  have c: "c \<noteq> CHR 0x00" "blank (c # t) = c # t" using assms(2) by (auto simp: whitespace_def)
  then obtain s where s: "peek b p toks = (s, True)" "drop s b = c # t"
    using peek_text[of b p toks] assms by auto
  then show ?thesis using gettoken_text_sym[of s b c t] assms(2) c(2) by fastforce
qed

lemma print_EXEC_not_paren:
  assumes "list_all word_ok ws" "stop cmd_end t" "blank (args_text ws @ redirs_text rs @ t) = x # y"
  shows "x \<noteq> CHR ''(''"
proof (cases ws)
  case Nil
  show ?thesis
  proof (cases rs)
    case (Cons r rs')
    then show ?thesis using Nil assms(3) redir_text_hd[of r "redirs_text rs' @ t"] by (auto simp: redirs_text_def)
  next
    case nil: Nil
    then show ?thesis using Nil assms(2,3) stop_blank[OF assms(2) cmd_end_symbols(1)] by (auto simp: redirs_text_def stop_def)
  qed
next
  case (Cons w ws')
  then obtain c v where "w = c # v" "word_ok w" using assms(1) by (cases w) (auto simp: word_ok_def)
  then have "x = c" "c \<notin> set symbols" using assms(3) Cons word_ok_Cons[of c v] by auto
  then show ?thesis by (auto simp: symbols_def)
qed

lemma reads0_EXEC:
  assumes "length ws < MAXARGS" "list_all word_ok ws"
  shows "reads0 b (EXEC ws)"
  unfolding reads0_def
proof (intro allI impI)
  fix k p t rs
  assume d: "blank (drop p b) = blank (print_cmd (EXEC ws) 0 @ redirs_text rs @ t)" and rs: "list_all redir_ok rs" and t: "stop cmd_end t"
  have d': "blank (drop p b) = blank (args_text ws @ redirs_text rs @ t)" using d by (simp add: args_text_def)
  have st: "sep t" "blank t = t" using stop_sep[OF t cmd_end_symbols(1)] stop_blank[OF t cmd_end_symbols(1)] by auto
  obtain s where pk: "peek b p ''('' = (s, False)" "drop s b = blank (drop p b)"
    using peek_text[of b p "''(''"] print_EXEC_not_paren[OF assms(2) t, of rs] d' by (auto split: list.splits)
  define here where "here = (if ws = [] then rs else [])"
  define later where "later = (if ws = [] then [] else rs)"
  let ?u = "args_text ws @ redirs_text later @ t"
  have u: "blank (drop s b) = blank (redirs_text here @ ?u)" "sep ?u"
    using pk(2) d' st sep_append[OF sep_redirs] by (auto simp: here_def later_def redirs_text_def intro!: sep_args)
  have nl: "x \<notin> set ''<>''" if "blank ?u = x # y" for x y
    by (rule args_not_redir[OF _ _ that]) (use assms t in \<open>simp_all add: later_def redirs_text_def\<close>)
  have "\<exists>c2 p2. parseredirs b (EXEC []) s = Ret c2 p2 \<and> cmd_text b c2 = foldl wrap (cmd_text b (EXEC [])) here \<and> drop p2 b = blank ?u"
    by (rule parseredirs_text[OF u(1) _ u(2) nl]) (use rs in \<open>simp_all add: here_def\<close>)
  then obtain c2 p2 where r: "parseredirs b (EXEC []) s = Ret c2 p2" "cmd_text b c2 = foldl wrap (EXEC []) here" "drop p2 b = blank ?u"
    by auto
  have "\<exists>c' p'. parseargs MAXARGS b c2 p2 = Ret c' p' \<and> cmd_text b c' = foldl wrap (foldl add_arg (cmd_text b c2) ws) later \<and> drop p' b = t"
    by (rule parseargs_text) (use r(3) assms rs t in \<open>auto simp: later_def\<close>)
  moreover have "foldl wrap (foldl add_arg (cmd_text b c2) ws) later = foldl wrap (EXEC ws) rs"
    using r(2) by (simp add: here_def later_def add_arg_wrap)
  ultimately show "okd (parseexec k b p) (\<lambda>c' p'. cmd_text b c' = foldl wrap (EXEC ws) rs \<and> drop p' b = t)"
    using pk(1) r(1) by (cases k) auto
qed

lemma reads0_REDIR:
  assumes "reads0 b c" "redir_ok (f, m, d)"
  shows "reads0 b (REDIR c f m d)"
  unfolding reads0_def
proof (intro allI impI)
  fix k p t rs
  assume h: "blank (drop p b) = blank (print_cmd (REDIR c f m d) 0 @ redirs_text rs @ t)" "list_all redir_ok rs" "stop cmd_end t"
  have "okd (parseexec k b p) (\<lambda>c' p'. cmd_text b c' = foldl wrap c ((f, m, d) # rs) \<and> drop p' b = t)"
    using assms(1)[unfolded reads0_def, rule_format, of p "(f, m, d) # rs" t k] h assms(2) by (simp add: redirs_text_def)
  then show "okd (parseexec k b p) (\<lambda>c' p'. cmd_text b c' = foldl wrap (REDIR c f m d) rs \<and> drop p' b = t)"
    by (simp add: wrap_def)
qed

lemma reads1_up:
  assumes "reads0 b c" "print_cmd c 1 = print_cmd c 0"
  shows "reads1 b c"
  unfolding reads1_def
proof (intro allI impI)
  fix k p t
  assume d: "blank (drop p b) = blank (print_cmd c 1 @ t)" and t: "stop pipe_end t"
  have E: "okd (parseexec k' b p) (\<lambda>c' p'. cmd_text b c' = c \<and> drop p' b = t)" for k'
    using assms(1)[unfolded reads0_def, rule_format, of p "[]" t k'] d assms(2) pipe_end_cmd_end[OF t] by (simp add: redirs_text_def)
  have T: "okd (let (s, y) = peek b p' ''|'' in if y then X s else Ret c' s) (\<lambda>c' p'. cmd_text b c' = c \<and> drop p' b = t)"
    if "cmd_text b c' = c" "drop p' b = t" for c' p' X
    using peek_stop[OF that(2) t pipe_end_blank[OF t], of "''|''"] that(1) by auto
  show "okd (parsepipe k b p) (\<lambda>c' p'. cmd_text b c' = c \<and> drop p' b = t)"
  proof (cases k)
    case (Suc k')
    show ?thesis unfolding Suc parsepipe.simps okd_bnd by (rule okd_mono[OF E[of k']]) (elim conjE, rule T)
  qed simp
qed

lemma reads2_up: "reads1 b c \<Longrightarrow> print_cmd c 2 = print_cmd c 1 \<Longrightarrow> reads2 b c"
  unfolding reads2_def
proof (intro allI impI)
  fix k p t
  assume "reads1 b c" "print_cmd c 2 = print_cmd c 1" "blank (drop p b) = blank (print_cmd c 2 @ t)" "stop pipe_end t"
  then have "okd (parsepipe k b p) (\<lambda>c' p'. cmd_text b c' = c \<and> drop p' b = t)" by (simp add: reads1_def)
  then show "okd (parsepipe k b p) (\<lambda>c0 p0. \<exists>c1 p1. back_loop b c0 p0 = back_loop b c1 p1 \<and> cmd_text b c1 = c \<and> drop p1 b = t)"
    by (rule okd_mono) blast
qed

lemma back_loop_end:
  assumes "drop p b = t" "stop '');'' t"
  shows "\<exists>s. back_loop b c p = Ret c s \<and> drop s b = t"
proof -
  have "blank t = t" using assms(2) by (rule stop_blank) (simp add: symbols_def)
  then obtain s where "peek b p ''&'' = (s, False)" "drop s b = t" using peek_stop[OF assms, of "''&''"] by auto
  then show ?thesis by (subst back_loop.simps) simp
qed

lemma reads3_up:
  assumes "reads2 b c" "print_cmd c 3 = print_cmd c 2"
  shows "reads3 b c"
  unfolding reads3_def
proof (intro allI impI)
  fix k p t
  assume d: "blank (drop p b) = blank (print_cmd c 3 @ t)" and t: "stop '')'' t"
  have t2: "stop pipe_end t" "stop '');'' t" "blank t = t" using t by (auto elim: stop_mono stop_blank simp: symbols_def)
  have E: "okd (parsepipe k' b p) (\<lambda>c0 p0. \<exists>c1 p1. back_loop b c0 p0 = back_loop b c1 p1 \<and> cmd_text b c1 = c \<and> drop p1 b = t)" for k'
    using assms(1)[unfolded reads2_def, rule_format, of p t k'] d assms(2) t2(1) by simp
  have T: "okd (bnd (back_loop b c0 p0) (\<lambda>c p. let (s, y) = peek b p '';'' in if y then X c s else Ret c s))
      (\<lambda>c' p'. cmd_text b c' = c \<and> drop p' b = t)"
    if e: "back_loop b c0 p0 = back_loop b c1 p1" "cmd_text b c1 = c" "drop p1 b = t" for c0 p0 c1 p1 X
  proof -
    obtain s where s: "back_loop b c1 p1 = Ret c1 s" "drop s b = t" using back_loop_end[OF e(3) t2(2)] by blast
    then show ?thesis using e peek_stop[OF s(2) t t2(3), of "'';''"] by auto
  qed
  show "okd (parseline k b p) (\<lambda>c' p'. cmd_text b c' = c \<and> drop p' b = t)"
  proof (cases k)
    case (Suc k')
    show ?thesis
      unfolding Suc parseline.simps okd_bnd[of "parsepipe k' b p"] by (rule okd_mono[OF E[of k']]) (elim exE conjE, rule T)
  qed simp
qed

lemma reads1_PIPE:
  assumes "reads0 b l" "reads1 b r"
  shows "reads1 b (PIPE l r)"
  unfolding reads1_def
proof (intro allI impI)
  fix k p t
  assume d: "blank (drop p b) = blank (print_cmd (PIPE l r) 1 @ t)" and t: "stop pipe_end t"
  let ?t = "CHR ''|'' # print_cmd r 1 @ t"
  have L: "okd (parseexec k' b p) (\<lambda>c' p'. cmd_text b c' = l \<and> drop p' b = ?t)" for k'
    using assms(1)[unfolded reads0_def, rule_format, of p "[]" ?t k'] d by (simp add: redirs_text_def stop_def paren_def)
  have R: "okd (parsepipe k' b p1) (\<lambda>c' p'. cmd_text b c' = r \<and> drop p' b = t)" if "drop p1 b = blank (print_cmd r 1 @ t)" for k' p1
    using assms(2)[unfolded reads1_def, rule_format, of p1 t k'] that t by simp
  have T: "okd (let (s, y) = peek b p' ''|'' in if y then let (_, _, _, p1) = gettoken b s in bnd (parsepipe k' b p1) (\<lambda>r p. Ret (PIPE c' r) p) else Ret c' s)
      (\<lambda>c' p'. cmd_text b c' = PIPE l r \<and> drop p' b = t)" if e: "cmd_text b c' = l" "drop p' b = ?t" for c' p' k'
  proof -
    obtain s p1 q e where "peek b p' ''|'' = (s, True)" "gettoken b s = (CHR ''|'', q, e, p1)" "drop p1 b = blank (print_cmd r 1 @ t)"
      using peek_sym[OF e(2), of "''|''"] by auto
    then show ?thesis using e(1) by (simp add: okd_bnd okd_mono[OF R])
  qed
  show "okd (parsepipe k b p) (\<lambda>c' p'. cmd_text b c' = PIPE l r \<and> drop p' b = t)"
  proof (cases k)
    case (Suc k')
    show ?thesis
      unfolding Suc parsepipe.simps okd_bnd[of "parseexec k' b p"] by (rule okd_mono[OF L[of k']]) (elim conjE, rule T)
  qed simp
qed

lemma reads2_BACK:
  assumes "reads2 b c"
  shows "reads2 b (BACK c)"
  unfolding reads2_def
proof (intro allI impI)
  fix k p t
  assume d: "blank (drop p b) = blank (print_cmd (BACK c) 2 @ t)" and t: "stop pipe_end t"
  have "okd (parsepipe k b p) (\<lambda>c0 p0. \<exists>c1 p1. back_loop b c0 p0 = back_loop b c1 p1 \<and> cmd_text b c1 = c \<and> drop p1 b = CHR ''&'' # t)"
    using assms[unfolded reads2_def, rule_format, of p "CHR ''&'' # t" k] d by (simp add: stop_def paren_def)
  then show "okd (parsepipe k b p) (\<lambda>c0 p0. \<exists>c1 p1. back_loop b c0 p0 = back_loop b c1 p1 \<and> cmd_text b c1 = BACK c \<and> drop p1 b = t)"
  proof (rule okd_mono)
    fix c0 p0
    assume "\<exists>c1 p1. back_loop b c0 p0 = back_loop b c1 p1 \<and> cmd_text b c1 = c \<and> drop p1 b = CHR ''&'' # t"
    then obtain c1 p1 where e: "back_loop b c0 p0 = back_loop b c1 p1" "cmd_text b c1 = c" "drop p1 b = CHR ''&'' # t" by blast
    obtain s p2 q e' where "peek b p1 ''&'' = (s, True)" "gettoken b s = (CHR ''&'', q, e', p2)" "drop p2 b = t"
      using peek_sym[OF e(3), of "''&''"] pipe_end_blank[OF t] by auto
    then have "back_loop b c0 p0 = back_loop b (BACK c1) p2" "drop p2 b = t"
      using e(1) by (simp_all add: back_loop.simps[of b c1 p1])
    then show "\<exists>c1 p1. back_loop b c0 p0 = back_loop b c1 p1 \<and> cmd_text b c1 = BACK c \<and> drop p1 b = t"
      using e(2) by (intro exI[of _ "BACK c1"] exI[of _ p2]) simp
  qed
qed

lemma reads3_LIST:
  assumes "reads2 b l" "reads3 b r"
  shows "reads3 b (LIST l r)"
  unfolding reads3_def
proof (intro allI impI)
  fix k p t
  assume d: "blank (drop p b) = blank (print_cmd (LIST l r) 3 @ t)" and t: "stop '')'' t"
  let ?t = "CHR '';'' # print_cmd r 3 @ t"
  have E: "okd (parsepipe k' b p) (\<lambda>c0 p0. \<exists>c1 p1. back_loop b c0 p0 = back_loop b c1 p1 \<and> cmd_text b c1 = l \<and> drop p1 b = ?t)" for k'
    using assms(1)[unfolded reads2_def, rule_format, of p ?t k'] d by (simp add: stop_def paren_def)
  have R: "okd (parseline k' b p1) (\<lambda>c' p'. cmd_text b c' = r \<and> drop p' b = t)" if "drop p1 b = blank (print_cmd r 3 @ t)" for k' p1
    using assms(2)[unfolded reads3_def, rule_format, of p1 t k'] that t by simp
  have T: "okd (bnd (back_loop b c0 p0) (\<lambda>c p. let (s, y) = peek b p '';'' in
        if y then let (_, _, _, p1) = gettoken b s in bnd (parseline k' b p1) (\<lambda>r p. Ret (LIST c r) p) else Ret c s))
      (\<lambda>c' p'. cmd_text b c' = LIST l r \<and> drop p' b = t)"
    if e: "back_loop b c0 p0 = back_loop b c1 p1" "cmd_text b c1 = l" "drop p1 b = ?t" for c0 p0 c1 p1 k'
  proof -
    obtain s where s: "back_loop b c1 p1 = Ret c1 s" "drop s b = ?t" using back_loop_end[OF e(3)] by (auto simp: stop_def)
    obtain s' p2 q e' where "peek b s '';'' = (s', True)" "gettoken b s' = (CHR '';'', q, e', p2)" "drop p2 b = blank (print_cmd r 3 @ t)"
      using peek_sym[OF s(2), of "'';''"] by auto
    then show ?thesis using s e(1,2) by (simp add: okd_bnd okd_mono[OF R])
  qed
  show "okd (parseline k b p) (\<lambda>c' p'. cmd_text b c' = LIST l r \<and> drop p' b = t)"
  proof (cases k)
    case (Suc k')
    show ?thesis
      unfolding Suc parseline.simps okd_bnd[of "parsepipe k' b p"] by (rule okd_mono[OF E[of k']]) (elim exE conjE, rule T)
  qed simp
qed

lemma parseblock_text:
  assumes "reads3 b c" "drop p b = CHR ''('' # print_cmd c 3 @ CHR '')'' # redirs_text rs @ t" "list_all redir_ok rs" "stop cmd_end t"
  shows "okd (parseblock k b p) (\<lambda>c' p'. cmd_text b c' = foldl wrap c rs \<and> drop p' b = t)"
proof (cases k)
  case (Suc k')
  have st: "sep t" "blank t = t" using stop_sep[OF assms(4) cmd_end_symbols(1)] stop_blank[OF assms(4) cmd_end_symbols(1)] by auto
  let ?t = "CHR '')'' # redirs_text rs @ t"
  obtain s p1 q e where o: "peek b p ''('' = (s, True)" "gettoken b s = (CHR ''('', q, e, p1)" "drop p1 b = blank (print_cmd c 3 @ ?t)"
    using peek_sym[OF assms(2), of "''(''"] by auto
  have L: "okd (parseline k' b p1) (\<lambda>c' p'. cmd_text b c' = c \<and> drop p' b = ?t)"
    using assms(1)[unfolded reads3_def, rule_format, of p1 ?t k'] o(3) by (simp add: stop_def)
  have T: "okd (let (s, y) = peek b p' '')'' in if \<not> y then X else let (_, _, _, p1) = gettoken b s in parseredirs b c' p1)
      (\<lambda>c' p'. cmd_text b c' = foldl wrap c rs \<and> drop p' b = t)" if e: "cmd_text b c' = c" "drop p' b = ?t" for c' p' X
  proof -
    obtain s p2 q e' where g: "peek b p' '')'' = (s, True)" "gettoken b s = (CHR '')'', q, e', p2)" "drop p2 b = blank (redirs_text rs @ t)"
      using peek_sym[OF e(2), of "'')''"] by auto
    have "\<exists>c2 p3. parseredirs b c' p2 = Ret c2 p3 \<and> cmd_text b c2 = foldl wrap (cmd_text b c') rs \<and> drop p3 b = blank t"
      by (rule parseredirs_text) (use g(3) assms(3,4) st in \<open>auto simp: stop_def\<close>)
    then show ?thesis using g(1,2) e(1) st(2) by auto
  qed
  have "okd (bnd (parseline k' b p1) (\<lambda>c p. let (s, y) = peek b p '')'' in
        if \<not> y then Panic ''syntax - missing )'' else let (_, _, _, p1) = gettoken b s in parseredirs b c p1))
      (\<lambda>c' p'. cmd_text b c' = foldl wrap c rs \<and> drop p' b = t)"
    unfolding okd_bnd by (rule okd_mono[OF L]) (elim conjE, rule T)
  then show ?thesis unfolding Suc using o(1,2) by simp
qed simp

lemma reads0_paren:
  assumes "reads3 b c" "print_cmd c 0 = ''('' @ print_cmd c 3 @ '')''"
  shows "reads0 b c"
  unfolding reads0_def
proof (intro allI impI)
  fix k p t rs
  assume d: "blank (drop p b) = blank (print_cmd c 0 @ redirs_text rs @ t)" and rs: "list_all redir_ok rs" and t: "stop cmd_end t"
  have "CHR ''('' \<notin> set whitespace" by (simp add: whitespace_def)
  then have d': "blank (drop p b) = CHR ''('' # print_cmd c 3 @ CHR '')'' # redirs_text rs @ t" using d assms(2) by simp
  obtain s where s: "peek b p ''('' = (s, True)" "drop s b = blank (drop p b)"
    using peek_text[of b p "''(''"] d' by auto
  then show "okd (parseexec k b p) (\<lambda>c' p'. cmd_text b c' = foldl wrap c rs \<and> drop p' b = t)"
    using parseblock_text[OF assms(1) _ rs t] d' by (cases k) simp_all
qed

lemma reads_all: "cmd_ok c \<Longrightarrow> reads0 b c \<and> reads1 b c \<and> reads2 b c \<and> reads3 b c"
proof (induction c)
  case (EXEC ws)
  then have "reads0 b (EXEC ws)" by (simp add: reads0_EXEC)
  then show ?case using reads1_up reads2_up reads3_up by (metis print_cmd.simps(1))
next
  case (REDIR c f m d)
  then have "reads0 b (REDIR c f m d)" by (simp add: reads0_REDIR)
  then show ?case using reads1_up reads2_up reads3_up by (metis print_cmd.simps(2))
next
  case (PIPE l r)
  then have "reads1 b (PIPE l r)" by (simp add: reads1_PIPE)
  then have "reads2 b (PIPE l r)" by (rule reads2_up) (simp add: paren_def)
  moreover from this have "reads3 b (PIPE l r)" by (rule reads3_up) (simp add: paren_def)
  moreover from this have "reads0 b (PIPE l r)" by (rule reads0_paren) (simp add: paren_def)
  ultimately show ?case using \<open>reads1 b (PIPE l r)\<close> by blast
next
  case (LIST l r)
  then have "reads3 b (LIST l r)" by (simp add: reads3_LIST)
  moreover from this have "reads0 b (LIST l r)" by (rule reads0_paren) (simp add: paren_def)
  moreover from this have "reads1 b (LIST l r)" by (rule reads1_up) (simp add: paren_def)
  moreover from this have "reads2 b (LIST l r)" by (rule reads2_up) (simp add: paren_def)
  ultimately show ?case by blast
next
  case (BACK c)
  then have "reads2 b (BACK c)" by (simp add: reads2_BACK)
  moreover from this have "reads3 b (BACK c)" by (rule reads3_up) (simp add: paren_def)
  moreover from this have "reads0 b (BACK c)" by (rule reads0_paren) (simp add: paren_def)
  moreover from this have "reads1 b (BACK c)" by (rule reads1_up) (simp add: paren_def)
  ultimately show ?case by blast
qed

section \<open>The round trip\<close>

lemma word_no_nul: "word_ok w \<Longrightarrow> CHR 0x00 \<notin> set w"
  by (auto simp: word_ok_def wordch_def)

lemma print_no_nul: "cmd_ok c \<Longrightarrow> CHR 0x00 \<notin> set (print_cmd c n)"
proof (induction c arbitrary: n)
  case (EXEC ws)
  then show ?case using word_no_nul by (auto simp: list_all_iff)
qed (auto simp: paren_def redir_text_def redir_op_def redir_ok_def dest: word_no_nul)

lemma parse_print:
  assumes "cmd_ok c"
  shows "\<exists>c' p. parseline (parse_fuel (print_cmd c 3)) (print_cmd c 3) 0 = Ret c' p \<and>
    p = length (print_cmd c 3) \<and> cmd_text (print_cmd c 3) c' = c"
proof -
  let ?b = "print_cmd c 3"
  have "okd (parseline (parse_fuel ?b) ?b 0) (\<lambda>c' p'. cmd_text ?b c' = c \<and> drop p' ?b = [])"
    using conjunct2[OF conjunct2[OF conjunct2[OF reads_all[OF assms, of ?b]]], unfolded reads3_def, rule_format, of 0 "[]"] by simp
  moreover have "moves ?b 0 (parseline (parse_fuel ?b) ?b 0)" by (rule parser_moves(1)) (simp_all add: parse_fuel_def)
  ultimately show ?thesis by (auto simp: moves_def)
qed

text \<open>
  (C33) Every command with well-formed words, fewer than ten arguments per simple command and the redirections of the shell has a
  printed form (with parentheses where the grammar needs them) that \<^verbatim>\<open>parsecmd\<close> parses without error and without leftovers,
  and the argument and file strings that \<^verbatim>\<open>runcmd\<close> then sees in the zero-terminated buffer are those of the command.
\<close>

theorem parse_print_roundtrip:
  assumes "cmd_ok c"
  shows "runs (parsecmd (print_cmd c 3)) (\<lambda>c' m. cmd_strings m c' = c)"
proof -
  let ?b = "print_cmd c 3"
  obtain c' where p: "parseline (parse_fuel ?b) ?b 0 = Ret c' (length ?b)" and c': "cmd_text ?b c' = c"
    using parse_print[OF assms] by blast
  have "spans_ok ?b c'" using parser_ok(1)[of "parse_fuel ?b" ?b 0] p by simp
  then have "cmd_strings (nulterminate c' (?b @ [CHR 0x00])) c' = cmd_text ?b c'"
    unfolding cmd_strings_def using nulterminate_word[OF _ print_no_nul[OF assms]] by (intro cmd.map_cong0) blast
  moreover have "fst (peek ?b (length ?b) []) = length ?b" by (simp add: peek_def Let_def skip_ws.simps)
  ultimately show ?thesis using p c' by (simp add: parsecmd_def)
qed

theorem parse_print_roundtrip_witness:
  "let c = LIST (BACK (PIPE (EXEC [''ls'', ''-l'']) (REDIR (EXEC [''wc'']) ''out'' 0x601 1))) (REDIR (LIST (EXEC [''a'']) (EXEC [])) ''f'' 0 0)
   in cmd_ok c \<and> print_cmd c 3 = '' ls -l| wc > out&;( a;) < f'' \<and> runs (parsecmd (print_cmd c 3)) (\<lambda>c' m. cmd_strings m c' = c)"
proof -
  let ?c = "LIST (BACK (PIPE (EXEC [''ls'', ''-l'']) (REDIR (EXEC [''wc'']) ''out'' 0x601 1))) (REDIR (LIST (EXEC [''a'']) (EXEC [])) ''f'' 0 0)"
  have "cmd_ok ?c" by (simp add: redir_ok_def word_ok_def wordch_def whitespace_def symbols_def)
  moreover have "print_cmd ?c 3 = '' ls -l| wc > out&;( a;) < f''" by (simp add: paren_def redir_text_def redir_op_def)
  ultimately show ?thesis unfolding Let_def using parse_print_roundtrip[of ?c] by blast
qed

end
