(* ===== verification/Sh_Run.thy ===== *)
theory Sh_Run
  imports Sh
begin

text \<open>
  How \<^verbatim>\<open>runcmd\<close> connects the processes of a pipeline. The environment keeps the descriptor table of the process that is followed:
  descriptors are allocated from the lowest free one, as \<^verbatim>\<open>fdalloc\<close> of \<^verbatim>\<open>kernel/sysfile.c\<close> does, and the answers of \<^verbatim>\<open>fork\<close> say whether the
  child (answer 0) or the parent is followed.
\<close>

section \<open>Descriptor tables\<close>

datatype fobj = FFile string int | FPipeR nat | FPipeW nat

record penv =
  fdt :: "nat \<Rightarrow> fobj option"
  npipe :: nat
  answers :: "int list"
  trace :: "ucall list"

definition lowest :: "(nat \<Rightarrow> fobj option) \<Rightarrow> nat option" where
  "lowest t = find (\<lambda>i. t i = None) [0..<16]"

fun fd_os :: "penv os" where
  "fd_os (Sys_close fd) e = (RInt (if fdt e (nat fd) = None then -1 else 0), e\<lparr>fdt := (fdt e)(nat fd := None)\<rparr>)"
| "fd_os (Sys_dup fd) e =
     (case (fdt e (nat fd), lowest (fdt e)) of
        (Some f, Some i) \<Rightarrow> (RInt (int i), e\<lparr>fdt := (fdt e)(i := Some f)\<rparr>)
      | _ \<Rightarrow> (RInt (-1), e))"
| "fd_os (Sys_open path mode) e =
     (case lowest (fdt e) of
        Some i \<Rightarrow> (RInt (int i), e\<lparr>fdt := (fdt e)(i := Some (FFile path mode))\<rparr>)
      | None \<Rightarrow> (RInt (-1), e))"
| "fd_os Sys_pipe e =
     (case lowest (fdt e) of
        None \<Rightarrow> (RInt (-1), e)
      | Some i \<Rightarrow>
          let t = (fdt e)(i := Some (FPipeR (npipe e))) in
          (case lowest t of
             None \<Rightarrow> (RInt (-1), e)
           | Some j \<Rightarrow> (RFds (int i) (int j), e\<lparr>fdt := t(j := Some (FPipeW (npipe e))), npipe := Suc (npipe e)\<rparr>)))"
| "fd_os Sys_fork e = (case answers e of [] \<Rightarrow> (RInt (-1), e) | a # as \<Rightarrow> (RInt a, e\<lparr>answers := as\<rparr>))"
| "fd_os c e = (RInt 0, e\<lparr>trace := trace e @ [c]\<rparr>)"

lemma upt_16: "[0..<16] = 0 # 1 # [2..<16]"
  by (simp add: upt_rec)

lemma lowest_0: "t 0 = None \<Longrightarrow> lowest t = Some 0"
  by (simp add: lowest_def upt_16)

lemma lowest_1: "t 0 \<noteq> None \<Longrightarrow> t 1 = None \<Longrightarrow> lowest t = Some 1"
  by (simp add: lowest_def upt_16)

lemma lowest_free: "lowest t = Some i \<Longrightarrow> t i = None"
  unfolding lowest_def by (drule find_SomeD) simp

section \<open>Commands do not return\<close>

definition gone :: "('a, 's) res \<Rightarrow> bool" where
  "gone m \<longleftrightarrow> (\<forall>a s. m \<noteq> Ret a s)"

lemma gone_bnd: "gone m \<Longrightarrow> bnd m f = m"
  for m :: "(unit, 's) res" and f :: "unit \<Rightarrow> 's \<Rightarrow> (unit, 's) res"
  by (cases m) (auto simp: gone_def)

lemma gone_bnd_right: "(\<And>a s. gone (f a s)) \<Longrightarrow> gone (bnd m f)"
  by (cases m) (auto simp: gone_def)

lemma gone_uexit: "gone (uexit os n e)"
  by (simp add: gone_def uexit_def)

lemma gone_upanic: "gone (upanic msg os e)"
  unfolding upanic_def by (intro gone_bnd_right gone_uexit)

lemma runcmd_gone: "gone (runcmd c os e)"
proof (cases c)
  case (PIPE l r)
  then show ?thesis
    by (auto intro!: gone_bnd_right gone_uexit gone_upanic split: sysret.split)
qed (auto intro!: gone_bnd_right gone_uexit)

section \<open>Pipelines\<close>

text \<open>A descriptor table in which a pipe can be made: its ends get the descriptors \<open>i\<close> and \<open>j\<close>.\<close>

definition pipe_at :: "penv \<Rightarrow> nat \<Rightarrow> nat \<Rightarrow> bool" where
  "pipe_at e i j \<longleftrightarrow> fdt e 0 \<noteq> None \<and> fdt e 1 \<noteq> None \<and> lowest (fdt e) = Some i \<and>
     lowest ((fdt e)(i := Some (FPipeR (npipe e)))) = Some j"

definition piped :: "penv \<Rightarrow> nat \<Rightarrow> nat \<Rightarrow> penv" where
  "piped e i j = e\<lparr>fdt := (fdt e)(i := Some (FPipeR (npipe e)), j := Some (FPipeW (npipe e))), npipe := Suc (npipe e)\<rparr>"

lemma pipe_at_facts:
  assumes "pipe_at e i j"
  shows "fdt e i = None" "fdt e j = None" "i \<noteq> j" "i \<noteq> 0" "j \<noteq> 0" "i \<noteq> 1" "j \<noteq> 1"
proof -
  have i: "fdt e i = None" and j: "((fdt e)(i := Some (FPipeR (npipe e)))) j = None"
    using assms unfolding pipe_at_def by (blast dest: lowest_free)+
  have ne: "k \<noteq> 0" "k \<noteq> 1" if "fdt e k = None" for k
    using assms that unfolding pipe_at_def by metis+
  show "fdt e i = None" "i \<noteq> 0" "i \<noteq> 1" using i ne by blast+
  show "i \<noteq> j" using j by (auto split: if_splits)
  then have "fdt e j = None" using j by simp
  then show "fdt e j = None" "j \<noteq> 0" "j \<noteq> 1" using ne by blast+
qed

lemma sys_pipe: "pipe_at e i j \<Longrightarrow> sys fd_os Sys_pipe e = Ret (RFds (int i) (int j)) (piped e i j)"
  by (simp add: sys_def pipe_at_def piped_def Let_def)

lemma fork1_fd: "answers e = a # as \<Longrightarrow> 0 \<le> a \<Longrightarrow> fork1 fd_os e = Ret a (e\<lparr>answers := as\<rparr>)"
  by (simp add: fork1_def sys_def)

lemma calls_Cons: "calls (c # cs) os e = calls cs os (snd (os c e))"
  by (simp add: calls_def)

lemma left_calls:
  assumes "pipe_at e i j"
  shows "calls [Sys_close 1, Sys_dup (int j), Sys_close (int i), Sys_close (int j)] fd_os ((piped e i j)\<lparr>answers := as\<rparr>) =
    Ret () (e\<lparr>fdt := (fdt e)(1 := Some (FPipeW (npipe e))), npipe := Suc (npipe e), answers := as\<rparr>)"
proof -
  note f = pipe_at_facts[OF assms]
  let ?t = "((fdt e)(i := Some (FPipeR (npipe e)), j := Some (FPipeW (npipe e))))(1 := None)"
  have "lowest ?t = Some 1" using f assms by (intro lowest_1) (auto simp: pipe_at_def)
  moreover have "?t j = Some (FPipeW (npipe e))" using f by simp
  moreover have "(?t(1 := Some (FPipeW (npipe e))))(i := None, j := None) = (fdt e)(1 := Some (FPipeW (npipe e)))"
    using f by (auto simp: fun_eq_iff)
  ultimately show ?thesis by (simp add: calls_def piped_def)
qed

lemma right_calls:
  assumes "pipe_at e i j"
  shows "calls [Sys_close 0, Sys_dup (int i), Sys_close (int i), Sys_close (int j)] fd_os ((piped e i j)\<lparr>answers := as\<rparr>) =
    Ret () (e\<lparr>fdt := (fdt e)(0 := Some (FPipeR (npipe e))), npipe := Suc (npipe e), answers := as\<rparr>)"
proof -
  note f = pipe_at_facts[OF assms]
  let ?t = "((fdt e)(i := Some (FPipeR (npipe e)), j := Some (FPipeW (npipe e))))(0 := None)"
  have "lowest ?t = Some 0" by (rule lowest_0) simp
  moreover have "?t i = Some (FPipeR (npipe e))" using f by simp
  moreover have "(?t(0 := Some (FPipeR (npipe e))))(i := None, j := None) = (fdt e)(0 := Some (FPipeR (npipe e)))"
    using f by (auto simp: fun_eq_iff)
  ultimately show ?thesis by (simp add: calls_def piped_def)
qed

lemma parent_calls:
  assumes "pipe_at e i j"
  shows "calls [Sys_close (int i), Sys_close (int j), Sys_wait, Sys_wait] fd_os ((piped e i j)\<lparr>answers := as\<rparr>) =
    Ret () (e\<lparr>npipe := Suc (npipe e), answers := as, trace := trace e @ [Sys_wait, Sys_wait]\<rparr>)"
proof -
  note f = pipe_at_facts[OF assms]
  have "((fdt e)(i := Some (FPipeR (npipe e)), j := Some (FPipeW (npipe e))))(i := None, j := None) = fdt e"
    using f by (auto simp: fun_eq_iff)
  then show ?thesis by (simp add: calls_def piped_def)
qed

text \<open>
  (C35) A pipeline is wired as it should be, for every process of it and whatever the two commands are. The left command runs with its
  standard output replaced by the write end of a fresh pipe, the right command with its standard input replaced by the
  read end, and neither keeps any other descriptor of the pipe; every other descriptor is unchanged. The parent keeps no
  end of the pipe, waits for both children and exits, so the reader sees the end of its input when the writer is done.
\<close>

theorem pipeline_wiring:
  assumes "pipe_at e i j"
  shows "(answers e = 0 # as \<longrightarrow>
      runcmd (PIPE l r) fd_os e = runcmd l fd_os (e\<lparr>fdt := (fdt e)(1 := Some (FPipeW (npipe e))), npipe := Suc (npipe e), answers := as\<rparr>)) \<and>
    (answers e = a # 0 # as \<and> 0 < a \<longrightarrow>
      runcmd (PIPE l r) fd_os e = runcmd r fd_os (e\<lparr>fdt := (fdt e)(0 := Some (FPipeR (npipe e))), npipe := Suc (npipe e), answers := as\<rparr>)) \<and>
    (answers e = a # b # as \<and> 0 < a \<and> 0 < b \<longrightarrow>
      runcmd (PIPE l r) fd_os e = Exit (e\<lparr>npipe := Suc (npipe e), answers := as, trace := trace e @ [Sys_wait, Sys_wait, Sys_exit 0]\<rparr>))"
proof -
  have an: "answers (piped e i j) = answers e" by (simp add: piped_def)
  note ev = sys_pipe[OF assms] fork1_fd left_calls[OF assms] right_calls[OF assms] parent_calls[OF assms] an
  have "runcmd (PIPE l r) fd_os e = runcmd l fd_os (e\<lparr>fdt := (fdt e)(1 := Some (FPipeW (npipe e))), npipe := Suc (npipe e), answers := as\<rparr>)"
    if "answers e = 0 # as" using that by (simp add: ev gone_bnd[OF runcmd_gone])
  moreover have "runcmd (PIPE l r) fd_os e = runcmd r fd_os (e\<lparr>fdt := (fdt e)(0 := Some (FPipeR (npipe e))), npipe := Suc (npipe e), answers := as\<rparr>)"
    if "answers e = a # 0 # as" "0 < a" using that by (simp add: ev gone_bnd[OF runcmd_gone])
  moreover have "runcmd (PIPE l r) fd_os e = Exit (e\<lparr>npipe := Suc (npipe e), answers := as, trace := trace e @ [Sys_wait, Sys_wait, Sys_exit 0]\<rparr>)"
    if "answers e = a # b # as" "0 < a" "0 < b" using that by (simp add: ev uexit_def)
  ultimately show ?thesis by blast
qed

definition demo_penv :: "int list \<Rightarrow> penv" where
  "demo_penv as = \<lparr>fdt = (\<lambda>i. if i < 3 then Some (FFile ''console'' 2) else None), npipe = 0, answers = as, trace = []\<rparr>"

lemma demo_pipe_at: "pipe_at (demo_penv as) 3 4"
  by (simp add: pipe_at_def demo_penv_def lowest_def upt_rec)

theorem pipeline_wiring_witness:
  "runcmd (PIPE (EXEC [''ls'']) (EXEC [''wc''])) fd_os (demo_penv [5, 0]) =
     runcmd (EXEC [''wc'']) fd_os ((demo_penv [])\<lparr>fdt := (fdt (demo_penv []))(0 := Some (FPipeR 0)), npipe := 1\<rparr>)"
  using pipeline_wiring[OF demo_pipe_at[of "[5, 0]"], of "[]" "EXEC [''ls'']" "EXEC [''wc'']" 5 0]
  by (simp add: demo_penv_def del: runcmd.simps)

end
