(* ===== verification/Grep.thy ===== *)
theory Grep
  imports User
begin

text \<open>
  \<^verbatim>\<open>user/grep.c\<close>: the matcher for patterns with the operators \<^verbatim>\<open>^ . * $\<close>, and the loop that cuts the input into lines with a
  buffer of 1024 bytes. The matcher is shown to decide a declarative matching relation, and the loop to write exactly
  the matching lines, however the input is cut into reads.
\<close>

section \<open>The matcher\<close>

function (sequential) matchhere :: "string \<Rightarrow> string \<Rightarrow> bool"
  and matchstar :: "char \<Rightarrow> string \<Rightarrow> string \<Rightarrow> bool" where
  "matchhere [] text = True"
| "matchhere (c # re) text =
     (if re \<noteq> [] \<and> hd re = CHR ''*'' then matchstar c (tl re) text
      else if c = CHR ''$'' \<and> re = [] then text = []
      else if text \<noteq> [] \<and> (c = CHR ''.'' \<or> c = hd text) then matchhere re (tl text)
      else False)"
| "matchstar c re text =
     (if matchhere re text then True
      else if text \<noteq> [] \<and> (hd text = c \<or> c = CHR ''.'') then matchstar c re (tl text)
      else False)"
  by pat_completeness auto

termination
  by (relation "measure (\<lambda>x. case x of Inl (re, t) \<Rightarrow> 2 * (length re + length t) | Inr (c, re, t) \<Rightarrow> 2 * (length re + length t) + 1)")
    (auto simp: neq_Nil_conv)

text \<open>The search of \<^verbatim>\<open>match\<close> over the start positions, the end of the text included.\<close>

primrec match_from :: "string \<Rightarrow> string \<Rightarrow> bool" where
  "match_from re [] = matchhere re []"
| "match_from re (c # text) = (matchhere re (c # text) \<or> match_from re text)"

definition re_match :: "string \<Rightarrow> string \<Rightarrow> bool" where
  "re_match re text = (if re \<noteq> [] \<and> hd re = CHR ''^'' then matchhere (tl re) text else match_from re text)"

section \<open>Reading and printing lines\<close>

text \<open>
  The inner loop on the text from \<^verbatim>\<open>p\<close> to the zero after the last byte read: every complete line that matches is written, and
  the text after the last newline is what stays in the buffer. \<^verbatim>\<open>strchr\<close> does not look past a zero byte of the input.
\<close>

abbreviation (input) newline :: char where "newline \<equiv> CHR 0x0A"
abbreviation (input) nul :: char where "nul \<equiv> CHR 0x00"

definition gcstr :: "string \<Rightarrow> string" where
  "gcstr s = takeWhile (\<lambda>c. c \<noteq> nul) s"

function grep_lines :: "string \<Rightarrow> string \<Rightarrow> 'e os \<Rightarrow> 'e \<Rightarrow> (string, 'e) res" where
  "grep_lines pattern p os e =
     (case ustrchr (gcstr p) newline of
        None \<Rightarrow> Ret p e
      | Some q \<Rightarrow>
          let n = length (gcstr p) - length q; line = take n p; rest = drop (Suc n) p in
          if re_match pattern line
          then bnd (sys os (Sys_write 1 (line @ [newline])) e) (\<lambda>_ e. grep_lines pattern rest os e)
          else grep_lines pattern rest os e)"
  by pat_completeness auto

lemma gcstr_length: "length (gcstr s) \<le> length s"
  unfolding gcstr_def by (rule length_takeWhile_le)

lemma ustrchr_Some_length: "ustrchr s c = Some q \<Longrightarrow> 0 < length q \<and> length q \<le> length s"
  by (induction s) (auto split: if_splits)

lemma grep_rest_shorter:
  assumes "ustrchr (gcstr p) c = Some q"
  shows "length (drop (Suc (length (gcstr p) - length q)) p) < length p"
proof -
  have "0 < length q" "length q \<le> length (gcstr p)" "length (gcstr p) \<le> length p"
    using ustrchr_Some_length[OF assms] gcstr_length[of p] by auto
  then show ?thesis unfolding length_drop by linarith
qed

termination grep_lines
  by (relation "measure (\<lambda>(pattern, p, os, e). length p)") (use grep_rest_shorter in auto)

declare grep_lines.simps [simp del]

text \<open>The outer loop, with the text kept in the buffer; each pass needs one unit of fuel.\<close>

primrec grep_loop :: "nat \<Rightarrow> string \<Rightarrow> int \<Rightarrow> string \<Rightarrow> 'e os \<Rightarrow> 'e \<Rightarrow> (unit, 'e) res" where
  "grep_loop 0 pattern fd buf os e = Diverge"
| "grep_loop (Suc k) pattern fd buf os e =
     bnd (sys os (Sys_read fd (1024 - int (length buf) - 1)) e) (\<lambda>r e.
       if ret_int r > 0
       then bnd (grep_lines pattern (buf @ ret_bytes r) os e) (\<lambda>rest e. grep_loop k pattern fd rest os e)
       else Ret () e)"

definition grep :: "nat \<Rightarrow> string \<Rightarrow> int \<Rightarrow> 'e os \<Rightarrow> 'e \<Rightarrow> (unit, 'e) res" where
  "grep k pattern fd os e = grep_loop k pattern fd [] os e"

section \<open>What a pattern means\<close>

datatype atom = Any | Lit char
datatype piece = One atom | Many atom | Eol

definition atom_of :: "char \<Rightarrow> atom" where
  "atom_of c = (if c = CHR ''.'' then Any else Lit c)"

fun accepts :: "atom \<Rightarrow> char \<Rightarrow> bool" where
  "accepts Any c = True"
| "accepts (Lit a) c = (a = c)"

fun pieces :: "string \<Rightarrow> piece list" where
  "pieces [] = []"
| "pieces [c] = [if c = CHR ''$'' then Eol else One (atom_of c)]"
| "pieces (c # d # re) = (if d = CHR ''*'' then Many (atom_of c) # pieces re else One (atom_of c) # pieces (d # re))"

text \<open>\<open>derives ps u v\<close>: the pieces \<open>ps\<close> match the text \<open>u\<close> when \<open>v\<close> follows it.\<close>

inductive derives :: "piece list \<Rightarrow> string \<Rightarrow> string \<Rightarrow> bool" where
  derives_Nil: "derives [] [] v"
| derives_One: "accepts a c \<Longrightarrow> derives ps u v \<Longrightarrow> derives (One a # ps) (c # u) v"
| derives_Many: "\<forall>c \<in> set w. accepts a c \<Longrightarrow> derives ps u v \<Longrightarrow> derives (Many a # ps) (w @ u) v"
| derives_Eol: "derives [Eol] [] []"

inductive_simps derives_Nil_iff: "derives [] u v"
inductive_simps derives_One_iff: "derives (One a # ps) u v"
inductive_simps derives_Many_iff: "derives (Many a # ps) u v"
inductive_simps derives_Eol_iff: "derives [Eol] u v"

definition here :: "piece list \<Rightarrow> string \<Rightarrow> bool" where
  "here ps t \<longleftrightarrow> (\<exists>u v. t = u @ v \<and> derives ps u v)"

lemma here_Nil [simp]: "here [] t"
  by (simp add: here_def derives_Nil_iff)

lemma here_One [simp]: "here (One a # ps) t \<longleftrightarrow> t \<noteq> [] \<and> accepts a (hd t) \<and> here ps (tl t)"
proof (cases t)
  case (Cons c s)
  have "here (One a # ps) t \<longleftrightarrow> (\<exists>u v c'. c # s = (c' # u) @ v \<and> accepts a c' \<and> derives ps u v)"
    unfolding Cons here_def derives_One_iff by blast
  also have "\<dots> \<longleftrightarrow> accepts a c \<and> (\<exists>u v. s = u @ v \<and> derives ps u v)" by auto
  finally show ?thesis using Cons by (simp add: here_def)
qed (auto simp: here_def derives_One_iff)

lemma here_Eol [simp]: "here [Eol] t \<longleftrightarrow> t = []"
  by (auto simp: here_def derives_Eol_iff)

lemma here_Many_split: "here (Many a # ps) t \<longleftrightarrow> (\<exists>w t'. t = w @ t' \<and> (\<forall>c \<in> set w. accepts a c) \<and> here ps t')"
proof -
  have "here (Many a # ps) t \<longleftrightarrow> (\<exists>w u v. t = (w @ u) @ v \<and> (\<forall>c \<in> set w. accepts a c) \<and> derives ps u v)"
    unfolding here_def derives_Many_iff by blast
  then show ?thesis unfolding here_def append_assoc by blast
qed

lemma here_Many: "here (Many a # ps) t \<longleftrightarrow> here ps t \<or> t \<noteq> [] \<and> accepts a (hd t) \<and> here (Many a # ps) (tl t)"
proof -
  have "(\<exists>w t'. t = w @ t' \<and> (\<forall>c \<in> set w. accepts a c) \<and> here ps t') \<longleftrightarrow>
      here ps t \<or> (\<exists>c w t'. t = c # w @ t' \<and> accepts a c \<and> (\<forall>c \<in> set w. accepts a c) \<and> here ps t')" (is "?l = (_ \<or> ?r)")
  proof
    assume ?l
    then obtain w t' where "t = w @ t'" "\<forall>c \<in> set w. accepts a c" "here ps t'" by blast
    then show "here ps t \<or> ?r" by (cases w) auto
  next
    have "here ps t \<Longrightarrow> ?l" by (intro exI[of _ "[]"] exI[of _ t]) simp
    moreover have "?r \<Longrightarrow> ?l"
    proof -
      assume ?r
      then obtain c w t' where "t = (c # w) @ t'" "\<forall>c \<in> set (c # w). accepts a c" "here ps t'" by auto
      then show ?l by blast
    qed
    ultimately show "here ps t \<or> ?r \<Longrightarrow> ?l" by blast
  qed
  then show ?thesis unfolding here_Many_split by (cases t) auto
qed

lemma accepts_atom_of: "accepts (atom_of c) d \<longleftrightarrow> c = CHR ''.'' \<or> c = d"
  by (simp add: atom_of_def)

lemma matchhere_here:
  "matchhere re text = here (pieces re) text"
  "matchstar c re text = here (Many (atom_of c) # pieces re) text"
proof (induction re "text" and c re "text" rule: matchhere_matchstar.induct)
  case (2 c re t)
  then show ?case
    by (cases re) (auto simp: accepts_atom_of neq_Nil_conv)
next
  case (3 c re t)
  then show ?case
    by (subst here_Many) (auto simp: accepts_atom_of)
qed simp

declare matchhere.simps [simp del] matchstar.simps [simp del]

lemma match_from_here: "match_from re t \<longleftrightarrow> (\<exists>w t'. t = w @ t' \<and> here (pieces re) t')"
proof (induction t)
  case Nil
  then show ?case by (simp add: matchhere_here)
next
  case (Cons c t)
  have "(\<exists>w t'. c # t = w @ t' \<and> here (pieces re) t') \<longleftrightarrow> here (pieces re) (c # t) \<or> (\<exists>w t'. t = w @ t' \<and> here (pieces re) t')"
    by (auto simp: Cons_eq_append_conv)
  then show ?case using Cons by (simp add: matchhere_here)
qed

text \<open>
  (C36) \<^verbatim>\<open>match\<close> terminates on every pattern and text and decides the matching relation: with a leading \<^verbatim>\<open>^\<close> the
  rest of the pattern matches a prefix of the text, otherwise the pattern matches somewhere in it, where \<^verbatim>\<open>c*\<close> stands for any
  number of \<^verbatim>\<open>c\<close>, a dot for any character and a final \<^verbatim>\<open>$\<close> for the end of the text.
\<close>

theorem re_match_decides:
  "re_match re text \<longleftrightarrow>
     (if re \<noteq> [] \<and> hd re = CHR ''^'' then \<exists>u v. text = u @ v \<and> derives (pieces (tl re)) u v
      else \<exists>w u v. text = w @ u @ v \<and> derives (pieces re) u v)"
  unfolding re_match_def match_from_here matchhere_here here_def by auto

section \<open>The lines that are printed\<close>

text \<open>An environment that serves the reads from a list of pieces of input and records what is written.\<close>

record fenv =
  chunks :: "string list"
  written :: string

fun file_os :: "fenv os" where
  "file_os (Sys_read fd n) e =
     (case chunks e of
        [] \<Rightarrow> (RBytes [], e)
      | c # cs \<Rightarrow> (RBytes (take (nat n) c), e\<lparr>chunks := (if length c \<le> nat n then cs else drop (nat n) c # cs)\<rparr>))"
| "file_os (Sys_write fd b) e = (RInt (int (length b)), e\<lparr>written := written e @ b\<rparr>)"
| "file_os c e = (RInt (-1), e)"

text \<open>The newline-terminated lines of a text, the first of them continuing \<open>cur\<close>, and the rest.\<close>

primrec lcut :: "string \<Rightarrow> string \<Rightarrow> string list \<times> string" where
  "lcut [] cur = ([], cur)"
| "lcut (c # s) cur = (if c = newline then (cur # fst (lcut s []), snd (lcut s [])) else lcut s (cur @ [c]))"

definition printed :: "string \<Rightarrow> string list \<Rightarrow> string" where
  "printed re ls = concat (map (\<lambda>l. l @ [newline]) (filter (re_match re) ls))"

lemma cut_append: "lcut (a @ b) cur = (fst (lcut a cur) @ fst (lcut b (snd (lcut a cur))), snd (lcut b (snd (lcut a cur))))"
  by (induction a arbitrary: cur) auto

lemma cut_no_newline: "newline \<notin> set s \<Longrightarrow> lcut s cur = ([], cur @ s)"
  by (induction s arbitrary: cur) auto

lemma newline_cut: "newline \<notin> set cur \<Longrightarrow> newline \<notin> set (snd (lcut s cur))"
  by (induction s arbitrary: cur) auto

lemma set_cut: "set (snd (lcut s cur)) \<subseteq> set cur \<union> set s"
proof (induction s arbitrary: cur)
  case (Cons c s)
  then show ?case using Cons.IH[of "[]"] Cons.IH[of "cur @ [c]"] by auto
qed simp

lemma cut_line: "newline \<notin> set l \<Longrightarrow> lcut (l @ newline # s) [] = (l # fst (lcut s []), snd (lcut s []))"
  by (simp add: cut_append cut_no_newline)

lemma cut_cur_length:
  "\<forall>l \<in> set (fst (lcut s cur)). length l \<le> n \<Longrightarrow> length (snd (lcut s cur)) \<le> n \<Longrightarrow> length cur \<le> n"
proof (induction s arbitrary: cur)
  case (Cons c s)
  then show ?case using Cons.IH[of "cur @ [c]"] by (auto split: if_splits)
qed simp

lemma ustrchr_split:
  "ustrchr s c = Some q \<Longrightarrow> \<exists>l r. s = l @ q \<and> q = c # r \<and> c \<notin> set l"
proof (induction s)
  case (Cons a s)
  show ?case
  proof (cases "a = c")
    case True
    then show ?thesis using Cons.prems by auto
  next
    case False
    then obtain l r where "s = l @ q" "q = c # r" "c \<notin> set l" using Cons by auto
    then show ?thesis using False by (intro exI[of _ "a # l"] exI[of _ r]) auto
  qed
qed simp

lemma grep_lines_file:
  assumes "nul \<notin> set p"
  shows "grep_lines re p file_os e = Ret (snd (lcut p [])) (e\<lparr>written := written e @ printed re (fst (lcut p []))\<rparr>)"
  using assms
proof (induction p arbitrary: e rule: length_induct)
  case (1 p)
  have c: "gcstr p = p" using 1 by (auto simp: gcstr_def takeWhile_eq_all_conv)
  show ?case
  proof (cases "ustrchr p newline")
    case None
    then have "newline \<notin> set p" using ustrchr_iff[of p newline] by simp
    then show ?thesis by (subst grep_lines.simps) (simp add: c None cut_no_newline printed_def)
  next
    case (Some q)
    obtain l r where p: "p = l @ newline # r" "q = newline # r" "newline \<notin> set l" using ustrchr_split[OF Some] by blast
    have IH: "grep_lines re r file_os e' = Ret (snd (lcut r [])) (e'\<lparr>written := written e' @ printed re (fst (lcut r []))\<rparr>)" for e'
      using 1 p by auto
    have "grep_lines re p file_os e =
        (if re_match re l then grep_lines re r file_os (e\<lparr>written := written e @ l @ [newline]\<rparr>) else grep_lines re r file_os e)"
      by (subst grep_lines.simps) (simp add: c[unfolded p(1)] Some[unfolded p(1)] p(1,2) Let_def sys_def)
    then show ?thesis using p by (simp add: IH cut_line printed_def)
  qed
qed

text \<open>Inputs whose lines fit in the buffer, in non-empty pieces.\<close>

definition fits :: "string \<Rightarrow> bool" where
  "fits s \<longleftrightarrow> (\<forall>l \<in> set (fst (lcut s [])). length l \<le> 1022) \<and> length (snd (lcut s [])) \<le> 1022"

lemma fits_rest:
  assumes "fits (r @ s)" "newline \<notin> set r"
  shows "length r \<le> 1022"
  using assms cut_cur_length[of s r 1022] by (simp add: fits_def cut_append cut_no_newline)

lemma grep_loop_file:
  assumes "[] \<notin> set (chunks e)" "nul \<notin> set (concat (chunks e))" "nul \<notin> set r" "newline \<notin> set r" "fits (r @ concat (chunks e))"
    "length (concat (chunks e)) < k"
  shows "runs (grep_loop k re fd r file_os e) (\<lambda>_ e'. written e' = written e @ printed re (fst (lcut (r @ concat (chunks e)) [])))"
  using assms
proof (induction k arbitrary: r e)
  case (Suc k)
  note r = fits_rest[OF Suc.prems(5,4)]
  show ?case
  proof (cases "chunks e")
    case Nil
    then show ?thesis using Suc.prems(4) by (simp add: sys_def cut_no_newline printed_def)
  next
    case (Cons c cs)
    let ?n = "nat (1024 - int (length r) - 1)"
    define b where "b = take ?n c"
    define e1 where "e1 = e\<lparr>chunks := (if length c \<le> ?n then cs else drop ?n c # cs)\<rparr>"
    have n: "0 < ?n" using r by simp
    have b: "b \<noteq> []" "concat (chunks e) = b @ concat (chunks e1)" "[] \<notin> set (chunks e1)" "written e1 = written e"
      using Suc.prems(1) Cons n by (auto simp: b_def e1_def simp flip: append_assoc)
    let ?r = "snd (lcut (r @ b) [])" and ?e = "e1\<lparr>written := written e @ printed re (fst (lcut (r @ b) []))\<rparr>"
    have z: "nul \<notin> set (r @ b)" using Suc.prems(2,3) b(2) by simp
    have rd: "file_os (Sys_read fd (1024 - int (length r) - 1)) e = (RBytes b, e1)"
      using Cons by (simp add: b_def e1_def)
    have step: "grep_loop (Suc k) re fd r file_os e = grep_loop k re fd ?r file_os ?e"
      unfolding grep_loop.simps sys_eq[of file_os, OF rd] bnd.simps ret_int.simps ret_bytes.simps grep_lines_file[OF z] using b(1,4) by simp
    have zr: "nul \<notin> set ?r" using z set_cut[of "r @ b" "[]"] by auto
    have nr: "newline \<notin> set ?r" by (rule newline_cut) simp
    have c: "lcut (r @ concat (chunks e)) [] =
        (fst (lcut (r @ b) []) @ fst (lcut (?r @ concat (chunks e1)) []), snd (lcut (?r @ concat (chunks e1)) []))"
      unfolding b(2) append_assoc[symmetric] by (subst cut_append) (simp add: cut_append[of ?r] cut_no_newline[OF nr])
    have "runs (grep_loop k re fd ?r file_os ?e)
        (\<lambda>_ e'. written e' = written ?e @ printed re (fst (lcut (?r @ concat (chunks ?e)) [])))"
    proof (rule Suc.IH)
      show "fits (?r @ concat (chunks ?e))" using Suc.prems(5) by (simp add: fits_def c)
      show "length (concat (chunks ?e)) < k" using Suc.prems(6) b(1) unfolding b(2) by (cases b) auto
    qed (use b(2,3) Suc.prems(2) zr nr in simp_all)
    then show ?thesis unfolding step by (rule runs_mono) (simp add: c printed_def)
  qed
qed simp

text \<open>
  (C37) However the input is cut into the results of successive reads, \<^verbatim>\<open>grep\<close> reaches the end of the input and has then written
  exactly the newline-terminated lines that match, in order, each with its newline. The lines must fit in the buffer (at most 1022
  characters) and contain no zero byte. A last line without a newline is not printed.
\<close>

theorem grep_prints_matching_lines:
  assumes "[] \<notin> set cs" "CHR 0x00 \<notin> set (concat cs)" "fits (concat cs)" "length (concat cs) < k"
  shows "runs (grep k re fd file_os \<lparr>chunks = cs, written = w\<rparr>)
    (\<lambda>_ e. written e = w @ concat (map (\<lambda>l. l @ [CHR 0x0A]) (filter (re_match re) (fst (lcut (concat cs) [])))))"
  unfolding grep_def
  by (rule runs_mono[OF grep_loop_file]) (use assms in \<open>auto simp: printed_def\<close>)

theorem grep_prints_matching_lines_witness:
  "runs (grep 100 ''o*b$'' 0 file_os \<lparr>chunks = [''foo'', ''b'' @ [CHR 0x0A] @ ''ba'', ''r'' @ [CHR 0x0A] @ ''b''], written = []\<rparr>)
    (\<lambda>_ e. written e = ''foob'' @ [CHR 0x0A])"
proof -
  have m: "re_match ''o*b$'' ''foob''" "\<not> re_match ''o*b$'' ''bar''"
    by (simp_all add: re_match_def matchhere.simps matchstar.simps)
  show ?thesis
    using grep_prints_matching_lines[of "[''foo'', ''b'' @ [CHR 0x0A] @ ''ba'', ''r'' @ [CHR 0x0A] @ ''b'']" 100 "''o*b$''" 0 "[]"] m
    by (simp add: fits_def)
qed

end
