(* ===== verification/Uprogs.thy ===== *)
theory Uprogs
  imports Grep Uprintf
begin

text \<open>
  The small user programs: \<^verbatim>\<open>cat\<close>, \<^verbatim>\<open>echo\<close>, \<^verbatim>\<open>kill\<close>, \<^verbatim>\<open>ln\<close>, \<^verbatim>\<open>mkdir\<close>, \<^verbatim>\<open>rm\<close>, \<^verbatim>\<open>wc\<close>, \<^verbatim>\<open>ls\<close>, \<^verbatim>\<open>zombie\<close>, \<^verbatim>\<open>init\<close>,
  and the main program of \<^verbatim>\<open>grep\<close>. The argument list is \<open>argv\<close> without the program's name; \<open>k\<close> is the fuel of the loops
  that read until the end of the input.
\<close>

section \<open>Programs over their arguments\<close>

text \<open>A loop over the arguments, left with \<^verbatim>\<open>break\<close> when the body returns false.\<close>

primrec each_arg :: "(string \<Rightarrow> 'e \<Rightarrow> (bool, 'e) res) \<Rightarrow> string list \<Rightarrow> 'e \<Rightarrow> (unit, 'e) res" where
  "each_arg f [] e = Ret () e"
| "each_arg f (a # args) e = bnd (f a e) (\<lambda>go e. if go then each_arg f args e else Ret () e)"

primrec echo_loop :: "string list \<Rightarrow> 'e os \<Rightarrow> 'e \<Rightarrow> (unit, 'e) res" where
  "echo_loop [] os e = Ret () e"
| "echo_loop (a # args) os e =
     bnd (sys os (Sys_write 1 (take (ustrlen a) a)) e) (\<lambda>_ e.
     bnd (sys os (Sys_write 1 (if args \<noteq> [] then '' '' else [CHR 0x0A])) e) (\<lambda>_ e. echo_loop args os e))"

definition echo_main :: "string list \<Rightarrow> 'e os \<Rightarrow> 'e \<Rightarrow> (unit, 'e) res" where
  "echo_main args os e = bnd (echo_loop args os e) (\<lambda>_ e. uexit os 0 e)"

definition kill_main :: "string list \<Rightarrow> 'e os \<Rightarrow> 'e \<Rightarrow> (unit, 'e) res" where
  "kill_main args os e =
     (if args = [] then bnd (ufprintf 2 (''usage: kill pid...'' @ [CHR 0x0A]) [] os e) (\<lambda>_ e. uexit os 1 e)
      else bnd (each_arg (\<lambda>a e. bnd (sys os (Sys_kill (atoi a)) e) (\<lambda>_ e. Ret True e)) args e) (\<lambda>_ e. uexit os 0 e))"

definition ln_main :: "string list \<Rightarrow> 'e os \<Rightarrow> 'e \<Rightarrow> (unit, 'e) res" where
  "ln_main args os e =
     (case args of
        [old, new] \<Rightarrow>
          bnd (sys os (Sys_link old new) e) (\<lambda>r e.
          bnd (if ret_int r < 0 then ufprintf 2 (''link %s %s: failed'' @ [CHR 0x0A]) [Str (Some old), Str (Some new)] os e else Ret () e)
            (\<lambda>_ e. uexit os 0 e))
      | _ \<Rightarrow> bnd (ufprintf 2 (''Usage: ln old new'' @ [CHR 0x0A]) [] os e) (\<lambda>_ e. uexit os 1 e))"

definition mkdir_main :: "string list \<Rightarrow> 'e os \<Rightarrow> 'e \<Rightarrow> (unit, 'e) res" where
  "mkdir_main args os e =
     (if args = [] then bnd (ufprintf 2 (''Usage: mkdir files...'' @ [CHR 0x0A]) [] os e) (\<lambda>_ e. uexit os 1 e)
      else bnd (each_arg (\<lambda>a e. bnd (sys os (Sys_mkdir a) e) (\<lambda>r e.
          if ret_int r < 0
          then bnd (ufprintf 2 (''mkdir: %s failed to create'' @ [CHR 0x0A]) [Str (Some a)] os e) (\<lambda>_ e. Ret False e)
          else Ret True e)) args e) (\<lambda>_ e. uexit os 0 e))"

definition rm_main :: "string list \<Rightarrow> 'e os \<Rightarrow> 'e \<Rightarrow> (unit, 'e) res" where
  "rm_main args os e =
     (if args = [] then bnd (ufprintf 2 (''Usage: rm files...'' @ [CHR 0x0A]) [] os e) (\<lambda>_ e. uexit os 1 e)
      else bnd (each_arg (\<lambda>a e. bnd (sys os (Sys_unlink a) e) (\<lambda>r e.
          if ret_int r < 0
          then bnd (ufprintf 2 (''rm: %s failed to delete'' @ [CHR 0x0A]) [Str (Some a)] os e) (\<lambda>_ e. Ret False e)
          else Ret True e)) args e) (\<lambda>_ e. uexit os 0 e))"

definition zombie_main :: "'e os \<Rightarrow> 'e \<Rightarrow> (unit, 'e) res" where
  "zombie_main os e =
     bnd (sys os Sys_fork e) (\<lambda>r e.
     bnd (if ret_int r > 0 then bnd (sys os (Sys_sleep 5) e) (\<lambda>_ e. Ret () e) else Ret () e) (\<lambda>_ e. uexit os 0 e))"

section \<open>Programs over the files they name\<close>

primrec cat_loop :: "nat \<Rightarrow> int \<Rightarrow> 'e os \<Rightarrow> 'e \<Rightarrow> (unit, 'e) res" where
  "cat_loop 0 fd os e = Diverge"
| "cat_loop (Suc k) fd os e =
     bnd (sys os (Sys_read fd 512) e) (\<lambda>r e.
       if ret_int r > 0 then
         bnd (sys os (Sys_write 1 (ret_bytes r)) e) (\<lambda>w e.
           if ret_int w \<noteq> ret_int r
           then bnd (ufprintf 2 (''cat: write error'' @ [CHR 0x0A]) [] os e) (\<lambda>_ e. uexit os 1 e)
           else cat_loop k fd os e)
       else if ret_int r < 0 then bnd (ufprintf 2 (''cat: read error'' @ [CHR 0x0A]) [] os e) (\<lambda>_ e. uexit os 1 e)
       else Ret () e)"

definition cat_main :: "nat \<Rightarrow> string list \<Rightarrow> 'e os \<Rightarrow> 'e \<Rightarrow> (unit, 'e) res" where
  "cat_main k args os e =
     (if args = [] then bnd (cat_loop k 0 os e) (\<lambda>_ e. uexit os 0 e)
      else bnd (each_arg (\<lambda>a e. bnd (sys os (Sys_open a 0) e) (\<lambda>fd e.
          if ret_int fd < 0
          then bnd (ufprintf 2 (''cat: cannot open %s'' @ [CHR 0x0A]) [Str (Some a)] os e) (\<lambda>_ e. uexit os 1 e)
          else bnd (cat_loop k (ret_int fd) os e) (\<lambda>_ e. bnd (sys os (Sys_close (ret_int fd)) e) (\<lambda>_ e. Ret True e)))) args e)
        (\<lambda>_ e. uexit os 0 e))"

definition grep_main :: "nat \<Rightarrow> string list \<Rightarrow> 'e os \<Rightarrow> 'e \<Rightarrow> (unit, 'e) res" where
  "grep_main k args os e =
     (case args of
        [] \<Rightarrow> bnd (ufprintf 2 (''usage: grep pattern [file ...]'' @ [CHR 0x0A]) [] os e) (\<lambda>_ e. uexit os 1 e)
      | [pattern] \<Rightarrow> bnd (grep k pattern 0 os e) (\<lambda>_ e. uexit os 0 e)
      | pattern # files \<Rightarrow>
          bnd (each_arg (\<lambda>a e. bnd (sys os (Sys_open a 0) e) (\<lambda>fd e.
            if ret_int fd < 0
            then bnd (uprintf (''grep: cannot open %s'' @ [CHR 0x0A]) [Str (Some a)] os e) (\<lambda>_ e. uexit os 1 e)
            else bnd (grep k pattern (ret_int fd) os e) (\<lambda>_ e. bnd (sys os (Sys_close (ret_int fd)) e) (\<lambda>_ e. Ret True e)))) files e)
          (\<lambda>_ e. uexit os 0 e))"

text \<open>The counters of \<^verbatim>\<open>wc\<close> and one character.\<close>

record wcount =
  wl :: u32
  ww :: u32
  wch :: u32
  inword :: bool

definition wc_char :: "char \<Rightarrow> wcount \<Rightarrow> wcount" where
  "wc_char a s =
     (let s = s\<lparr>wch := wch s + 1\<rparr>;
          s = (if a = CHR 0x0A then s\<lparr>wl := wl s + 1\<rparr> else s)
      in if ustrchr [CHR '' '', CHR 0x0D, CHR 0x09, CHR 0x0A, CHR 0x0B] a \<noteq> None then s\<lparr>inword := False\<rparr>
         else if \<not> inword s then s\<lparr>ww := ww s + 1, inword := True\<rparr> else s)"

primrec wc_loop :: "nat \<Rightarrow> int \<Rightarrow> string \<Rightarrow> wcount \<Rightarrow> 'e os \<Rightarrow> 'e \<Rightarrow> (unit, 'e) res" where
  "wc_loop 0 fd name s os e = Diverge"
| "wc_loop (Suc k) fd name s os e =
     bnd (sys os (Sys_read fd 512) e) (\<lambda>r e.
       if ret_int r > 0 then wc_loop k fd name (fold wc_char (ret_bytes r) s) os e
       else if ret_int r < 0 then bnd (uprintf (''wc: read error'' @ [CHR 0x0A]) [] os e) (\<lambda>_ e. uexit os 1 e)
       else uprintf (''%d %d %d %s'' @ [CHR 0x0A]) [Num (ucast (wl s)), Num (ucast (ww s)), Num (ucast (wch s)), Str (Some name)] os e)"

definition wc :: "nat \<Rightarrow> int \<Rightarrow> string \<Rightarrow> 'e os \<Rightarrow> 'e \<Rightarrow> (unit, 'e) res" where
  "wc k fd name os e = wc_loop k fd name \<lparr>wl = 0, ww = 0, wch = 0, inword = False\<rparr> os e"

definition wc_main :: "nat \<Rightarrow> string list \<Rightarrow> 'e os \<Rightarrow> 'e \<Rightarrow> (unit, 'e) res" where
  "wc_main k args os e =
     (if args = [] then bnd (wc k 0 [] os e) (\<lambda>_ e. uexit os 0 e)
      else bnd (each_arg (\<lambda>a e. bnd (sys os (Sys_open a 0) e) (\<lambda>fd e.
          if ret_int fd < 0
          then bnd (uprintf (''wc: cannot open %s'' @ [CHR 0x0A]) [Str (Some a)] os e) (\<lambda>_ e. uexit os 1 e)
          else bnd (wc k (ret_int fd) a os e) (\<lambda>_ e. bnd (sys os (Sys_close (ret_int fd)) e) (\<lambda>_ e. Ret True e)))) args e)
        (\<lambda>_ e. uexit os 0 e))"

section \<open>\<^verbatim>\<open>ls\<close>\<close>

text \<open>The part of a path after its last slash, padded with blanks to the 14 characters of a name.\<close>

definition fmtname :: "string \<Rightarrow> string" where
  "fmtname path =
     (let p = rev (takeWhile (\<lambda>c. c \<noteq> CHR ''/'') (rev path)) in
      if ustrlen p \<ge> 14 then p else p @ replicate (14 - ustrlen p) CHR '' '')"

definition ls_line :: "string \<Rightarrow> ustat \<Rightarrow> 'e os \<Rightarrow> 'e \<Rightarrow> (unit, 'e) res" where
  "ls_line path st os e =
     uprintf (''%s %d %d %d'' @ [CHR 0x0A])
       [Str (Some (fmtname path)), Num (of_int (st_type st)), Num (ucast (st_ino st)), Num (st_size st)] os e"

text \<open>The entries of a directory of name \<open>buf\<close>, which ends in a slash: two bytes of inode number and 14 of name each.\<close>

primrec ls_entries :: "nat \<Rightarrow> int \<Rightarrow> string \<Rightarrow> 'e os \<Rightarrow> 'e \<Rightarrow> (unit, 'e) res" where
  "ls_entries 0 fd buf os e = Diverge"
| "ls_entries (Suc k) fd buf os e =
     bnd (sys os (Sys_read fd 16) e) (\<lambda>r e.
       if ret_int r \<noteq> 16 then Ret () e
       else
         let de = ret_bytes r; path = buf @ gcstr (take 14 (drop 2 de)) in
         if de ! 0 = nul \<and> de ! 1 = nul then ls_entries k fd buf os e
         else bnd (ustat_call path os e) (\<lambda>st e.
           if fst st < 0
           then bnd (uprintf (''ls: cannot stat %s'' @ [CHR 0x0A]) [Str (Some path)] os e) (\<lambda>_ e. ls_entries k fd buf os e)
           else case snd st of
             RStat st \<Rightarrow> bnd (ls_line path st os e) (\<lambda>_ e. ls_entries k fd buf os e)
           | _ \<Rightarrow> Diverge))"

definition ls :: "nat \<Rightarrow> string \<Rightarrow> 'e os \<Rightarrow> 'e \<Rightarrow> (unit, 'e) res" where
  "ls k path os e =
     bnd (sys os (Sys_open path 0) e) (\<lambda>r e.
       if ret_int r < 0 then ufprintf 2 (''ls: cannot open %s'' @ [CHR 0x0A]) [Str (Some path)] os e
       else
         let fd = ret_int r in
         bnd (sys os (Sys_fstat fd) e) (\<lambda>r e.
           if ret_int r < 0
           then bnd (ufprintf 2 (''ls: cannot stat %s'' @ [CHR 0x0A]) [Str (Some path)] os e) (\<lambda>_ e.
             bnd (sys os (Sys_close fd) e) (\<lambda>_ e. Ret () e))
           else case r of
             RStat st \<Rightarrow>
               bnd (if st_type st = 3 \<or> st_type st = 2 then ls_line path st os e
                    else if st_type st = 1 then
                      if ustrlen path + 1 + 14 + 1 > 512 then uprintf (''ls: path too long'' @ [CHR 0x0A]) [] os e
                      else ls_entries k fd (path @ ''/'') os e
                    else Ret () e) (\<lambda>_ e.
               bnd (sys os (Sys_close fd) e) (\<lambda>_ e. Ret () e))
           | _ \<Rightarrow> Diverge))"

definition ls_main :: "nat \<Rightarrow> string list \<Rightarrow> 'e os \<Rightarrow> 'e \<Rightarrow> (unit, 'e) res" where
  "ls_main k args os e =
     (if args = [] then bnd (ls k ''.'' os e) (\<lambda>_ e. uexit os 0 e)
      else bnd (each_arg (\<lambda>a e. bnd (ls k a os e) (\<lambda>_ e. Ret True e)) args e) (\<lambda>_ e. uexit os 0 e))"

section \<open>\<^verbatim>\<open>init\<close>\<close>

text \<open>The inner loop waits until the shell of process id \<open>pid\<close> has exited; the outer loop starts it again.\<close>

primrec init_wait :: "nat \<Rightarrow> int \<Rightarrow> 'e os \<Rightarrow> 'e \<Rightarrow> (unit, 'e) res" where
  "init_wait 0 pid os e = Diverge"
| "init_wait (Suc k) pid os e =
     bnd (sys os Sys_wait e) (\<lambda>r e.
       if ret_int r = pid then Ret () e
       else if ret_int r < 0 then bnd (uprintf (''init: wait returned an error'' @ [CHR 0x0A]) [] os e) (\<lambda>_ e. uexit os 1 e)
       else init_wait k pid os e)"

primrec init_loop :: "nat \<Rightarrow> 'e os \<Rightarrow> 'e \<Rightarrow> (unit, 'e) res" where
  "init_loop 0 os e = Diverge"
| "init_loop (Suc k) os e =
     bnd (uprintf (''init: starting sh'' @ [CHR 0x0A]) [] os e) (\<lambda>_ e.
     bnd (sys os Sys_fork e) (\<lambda>r e.
       let pid = ret_int r in
       if pid < 0 then bnd (uprintf (''init: fork failed'' @ [CHR 0x0A]) [] os e) (\<lambda>_ e. uexit os 1 e)
       else if pid = 0 then
         bnd (sys os (Sys_exec ''sh'' [''sh'']) e) (\<lambda>x e.
           if ret_int x < 0
           then bnd (uprintf (''init: exec sh failed'' @ [CHR 0x0A]) [] os e) (\<lambda>_ e. uexit os 1 e)
           else Exit e)
       else bnd (init_wait k pid os e) (\<lambda>_ e. init_loop k os e)))"

definition init_main :: "nat \<Rightarrow> 'e os \<Rightarrow> 'e \<Rightarrow> (unit, 'e) res" where
  "init_main k os e =
     bnd (sys os (Sys_open ''console'' 2) e) (\<lambda>r e.
     bnd (if ret_int r < 0
          then bnd (sys os (Sys_mknod ''console'' 1 0) e) (\<lambda>_ e. bnd (sys os (Sys_open ''console'' 2) e) (\<lambda>_ e. Ret () e))
          else Ret () e) (\<lambda>_ e.
     bnd (sys os (Sys_dup 0) e) (\<lambda>_ e.
     bnd (sys os (Sys_dup 0) e) (\<lambda>_ e. init_loop k os e))))"

section \<open>What \<^verbatim>\<open>wc\<close> counts\<close>

definition is_blank :: "char \<Rightarrow> bool" where
  "is_blank c \<longleftrightarrow> c \<in> {CHR '' '', CHR 0x0D, CHR 0x09, CHR 0x0A, CHR 0x0B}"

text \<open>The positions where a word begins: a character that is not blank, first in the text or after a blank.\<close>

definition word_starts :: "bool \<Rightarrow> string \<Rightarrow> nat set" where
  "word_starts p s = {i. i < length s \<and> \<not> is_blank (s ! i) \<and> (if i = 0 then \<not> p else is_blank (s ! (i - 1)))}"

definition newlines :: "string \<Rightarrow> nat set" where
  "newlines s = {i. i < length s \<and> s ! i = CHR 0x0A}"

lemma wc_char_eq:
  "wc_char a s = \<lparr>wl = wl s + of_bool (a = CHR 0x0A), ww = ww s + of_bool (\<not> is_blank a \<and> \<not> inword s), wch = wch s + 1, inword = (\<not> is_blank a)\<rparr>"
  by (simp add: wc_char_def is_blank_def Let_def)

lemma card_Suc_positions:
  "card {i. i < Suc n \<and> P i} = of_bool (P 0) + card {i. i < n \<and> P (Suc i)}"
proof -
  have "{i. i < Suc n \<and> P i} = (if P 0 then {0} else {}) \<union> Suc ` {i. i < n \<and> P (Suc i)}"
    by (auto simp: image_iff) (metis Suc_less_eq not0_implies_Suc)+
  then show ?thesis by (auto simp: card_image)
qed

lemma card_word_starts_Cons: "card (word_starts p (a # s)) = of_bool (\<not> is_blank a \<and> \<not> p) + card (word_starts (\<not> is_blank a) s)"
proof -
  have e: "(a # s) ! (Suc i - 1) = (if i = 0 then a else s ! (i - 1))" for i by (cases i) simp_all
  have "card (word_starts p (a # s)) = of_bool (\<not> is_blank a \<and> \<not> p) +
      card {i. i < length s \<and> \<not> is_blank ((a # s) ! Suc i) \<and> is_blank ((a # s) ! (Suc i - 1))}"
    using card_Suc_positions[of "length s" "\<lambda>i. \<not> is_blank ((a # s) ! i) \<and> (if i = 0 then \<not> p else is_blank ((a # s) ! (i - 1)))"]
    by (simp add: word_starts_def)
  also have "{i. i < length s \<and> \<not> is_blank ((a # s) ! Suc i) \<and> is_blank ((a # s) ! (Suc i - 1))} = word_starts (\<not> is_blank a) s"
    unfolding e by (auto simp: word_starts_def)
  finally show ?thesis .
qed

lemma card_newlines_Cons: "card (newlines (a # s)) = of_bool (a = CHR 0x0A) + card (newlines s)"
  using card_Suc_positions[of "length s" "\<lambda>i. (a # s) ! i = CHR 0x0A"] by (simp add: newlines_def)

lemma fold_wc_char:
  "fold wc_char s c = \<lparr>wl = wl c + of_nat (card (newlines s)), ww = ww c + of_nat (card (word_starts (inword c) s)),
     wch = wch c + of_nat (length s), inword = (if s = [] then inword c else \<not> is_blank (last s))\<rparr>"
proof (induction s arbitrary: c)
  case Nil
  then show ?case by (simp add: newlines_def word_starts_def)
next
  case (Cons a s)
  show ?case unfolding fold.simps comp_apply Cons.IH
    by (simp add: wc_char_eq card_newlines_Cons card_word_starts_Cons)
qed

lemma wc_loop_file:
  assumes "[] \<notin> set cs" "length (concat cs) < k"
  shows "wc_loop k fd name c file_os \<lparr>chunks = cs, written = w\<rparr> =
    (let c' = fold wc_char (concat cs) c in uprintf (''%d %d %d %s'' @ [CHR 0x0A])
      [Num (ucast (wl c')), Num (ucast (ww c')), Num (ucast (wch c')), Str (Some name)] file_os \<lparr>chunks = [], written = w\<rparr>)"
  using assms
proof (induction k arbitrary: cs c)
  case (Suc k)
  show ?case
  proof (cases cs)
    case Nil
    then show ?thesis by (simp add: sys_def Let_def)
  next
    case (Cons x xs)
    define cs' where "cs' = (if length x \<le> 512 then xs else drop 512 x # xs)"
    have rd: "file_os (Sys_read fd 512) \<lparr>chunks = cs, written = w\<rparr> = (RBytes (take 512 x), \<lparr>chunks = cs', written = w\<rparr>)"
      using Cons by (simp add: cs'_def)
    have x: "x \<noteq> []" "[] \<notin> set cs'" "concat cs = take 512 x @ concat cs'"
      using Suc.prems(1) Cons by (auto simp: cs'_def simp flip: append_assoc)
    then have l: "length (concat cs') < k" using Suc.prems(2) by (cases x) auto
    show ?thesis
      unfolding wc_loop.simps sys_eq[of file_os, OF rd] bnd.simps ret_int.simps ret_bytes.simps x(3)
      using Suc.IH[OF x(2) l, of "fold wc_char (take 512 x) c"] x(1) by simp
  qed
qed simp

text \<open>
  (C38) However the input is cut into the results of successive reads, \<^verbatim>\<open>wc\<close> reaches the end of the input and then prints the
  number of newlines, the number of words and the number of characters, each modulo \<open>2 ^ 32\<close>. A word begins at a character that is
  not blank and is the first of the input or follows a blank; the cuts between reads do not split words.
\<close>

theorem wc_counts:
  assumes "[] \<notin> set cs" "length (concat cs) < k"
  shows "wc k fd name file_os \<lparr>chunks = cs, written = w\<rparr> =
    uprintf (''%d %d %d %s'' @ [CHR 0x0A])
      [Num (ucast (of_nat (card (newlines (concat cs))) :: u32)), Num (ucast (of_nat (card (word_starts False (concat cs))) :: u32)),
       Num (ucast (of_nat (length (concat cs)) :: u32)), Str (Some name)] file_os \<lparr>chunks = [], written = w\<rparr>"
  using wc_loop_file[OF assms] by (simp add: wc_def fold_wc_char Let_def)

theorem wc_counts_witness:
  "wc 20 3 ''f'' file_os \<lparr>chunks = [''to b'', ''e'' @ [CHR 0x0A] @ '' or''], written = []\<rparr> =
    uprintf (''%d %d %d %s'' @ [CHR 0x0A]) [Num 1, Num 3, Num 9, Str (Some ''f'')] file_os \<lparr>chunks = [], written = []\<rparr>"
proof -
  have "card (newlines (''to be'' @ [CHR 0x0A] @ '' or'')) = 1" "card (word_starts False (''to be'' @ [CHR 0x0A] @ '' or'')) = 3"
    by (simp_all add: card_newlines_Cons card_word_starts_Cons is_blank_def) (simp_all add: newlines_def word_starts_def)
  then show ?thesis using wc_counts[of "[''to b'', ''e'' @ [CHR 0x0A] @ '' or'']" 20 3 "''f''" "[]"] by simp
qed

end
