(* ===== verification/Umalloc.thy ===== *)
theory Umalloc
  imports User
begin

text \<open>
  The memory allocator of user programs, \<^verbatim>\<open>user/umalloc.c\<close>: a circular list of free blocks in the order of their addresses,
  with a roving start. A pointer is a byte address, 0 the null pointer; \<open>hptr\<close> and \<open>hsize\<close> hold the fields of the headers, and
  a header is a unit of 16 bytes. \<^verbatim>\<open>free\<close> adds a block to the set of free bytes and joins it to its neighbours, and \<^verbatim>\<open>malloc\<close> takes
  a block from that set, or from memory obtained with \<^verbatim>\<open>sbrk\<close>.
\<close>

section \<open>The allocator\<close>

record heap =
  hptr :: "nat \<Rightarrow> nat"
  hsize :: "nat \<Rightarrow> u32"
  freep :: nat
  hbase :: nat

text \<open>The address after a block; the addition of pointers counts headers.\<close>

definition block_end :: "heap \<Rightarrow> nat \<Rightarrow> nat" where
  "block_end h p = p + 16 * unat (hsize h p)"

text \<open>The search of \<^verbatim>\<open>free\<close> for the free block after which the block at \<open>bp\<close> belongs.\<close>

primrec find_spot :: "nat \<Rightarrow> nat \<Rightarrow> nat \<Rightarrow> heap \<Rightarrow> nat option" where
  "find_spot 0 bp p h = None"
| "find_spot (Suc k) bp p h =
     (if bp > p \<and> bp < hptr h p then Some p
      else if p \<ge> hptr h p \<and> (bp > p \<or> bp < hptr h p) then Some p
      else find_spot k bp (hptr h p) h)"

definition join_block :: "nat \<Rightarrow> nat \<Rightarrow> heap \<Rightarrow> heap" where
  "join_block bp p h =
     (let h = (if block_end h bp = hptr h p
               then h\<lparr>hsize := (hsize h)(bp := hsize h bp + hsize h (hptr h p)), hptr := (hptr h)(bp := hptr h (hptr h p))\<rparr>
               else h\<lparr>hptr := (hptr h)(bp := hptr h p)\<rparr>);
          h = (if block_end h p = bp
               then h\<lparr>hsize := (hsize h)(p := hsize h p + hsize h bp), hptr := (hptr h)(p := hptr h bp)\<rparr>
               else h\<lparr>hptr := (hptr h)(p := bp)\<rparr>)
      in h\<lparr>freep := p\<rparr>)"

definition free :: "nat \<Rightarrow> nat \<Rightarrow> heap \<Rightarrow> heap option" where
  "free k ap h = map_option (\<lambda>p. join_block (ap - 16) p h) (find_spot k (ap - 16) (freep h) h)"

text \<open>\<^verbatim>\<open>sbrk\<close> takes an \<^verbatim>\<open>int\<close>: the number of bytes is truncated to 32 bits.\<close>

definition morecore :: "nat \<Rightarrow> u32 \<Rightarrow> 'e os \<Rightarrow> heap \<times> 'e \<Rightarrow> (nat, heap \<times> 'e) res" where
  "morecore k nu os s =
     (let nu = (if nu < 4096 then 4096 else nu); (r, e) = os (Sys_sbrk (sint (of_nat (unat nu * 16) :: u32))) (snd s) in
      if ret_int r = -1 then Ret 0 (fst s, e)
      else
        let hp = nat (ret_int r); h = fst s in
        case free k (hp + 16) (h\<lparr>hsize := (hsize h)(hp := nu)\<rparr>) of
          Some h \<Rightarrow> Ret (freep h) (h, e)
        | None \<Rightarrow> Diverge)"

definition take_block :: "u32 \<Rightarrow> nat \<Rightarrow> nat \<Rightarrow> heap \<Rightarrow> nat \<times> heap" where
  "take_block nunits prevp p h =
     (if hsize h p = nunits then (p + 16, h\<lparr>hptr := (hptr h)(prevp := hptr h p), freep := prevp\<rparr>)
      else
        let h = h\<lparr>hsize := (hsize h)(p := hsize h p - nunits)\<rparr>; q = block_end h p
        in (q + 16, h\<lparr>hsize := (hsize h)(q := nunits), freep := prevp\<rparr>))"

primrec malloc_loop :: "nat \<Rightarrow> u32 \<Rightarrow> nat \<Rightarrow> nat \<Rightarrow> 'e os \<Rightarrow> heap \<times> 'e \<Rightarrow> (nat, heap \<times> 'e) res" where
  "malloc_loop 0 nunits prevp p os s = Diverge"
| "malloc_loop (Suc k) nunits prevp p os s =
     (let h = fst s in
      if hsize h p \<ge> nunits then let (r, h) = take_block nunits prevp p h in Ret r (h, snd s)
      else if p = freep h then
        bnd (morecore k nunits os s) (\<lambda>p s.
          if p = 0 then Ret 0 s else malloc_loop k nunits p (hptr (fst s) p) os s)
      else malloc_loop k nunits p (hptr h p) os s)"

definition start_list :: "heap \<Rightarrow> heap" where
  "start_list h =
     (if freep h = 0
      then h\<lparr>hptr := (hptr h)(hbase h := hbase h), freep := hbase h, hsize := (hsize h)(hbase h := 0)\<rparr> else h)"

definition malloc :: "nat \<Rightarrow> u32 \<Rightarrow> 'e os \<Rightarrow> heap \<times> 'e \<Rightarrow> (nat, heap \<times> 'e) res" where
  "malloc k nbytes os s =
     (let nunits = of_nat ((unat nbytes + 16 - 1) div 16 + 1); h = start_list (fst s)
      in malloc_loop k nunits (freep h) (hptr h (freep h)) os (h, snd s))"

section \<open>The free list\<close>

text \<open>The links of a list of headers that ends at \<open>z\<close>.\<close>

primrec links :: "heap \<Rightarrow> nat list \<Rightarrow> nat \<Rightarrow> bool" where
  "links h [] z \<longleftrightarrow> True"
| "links h (a # as) z \<longleftrightarrow> hptr h a = hd (as @ [z]) \<and> links h as z"

primrec apart :: "heap \<Rightarrow> nat list \<Rightarrow> bool" where
  "apart h [] \<longleftrightarrow> True"
| "apart h (a # as) \<longleftrightarrow> (\<forall>b \<in> set as. block_end h a < b) \<and> apart h as"

text \<open>
  The free blocks \<open>as\<close> in the order of their addresses: a circular list with the empty block \<open>base\<close> in front, no two of them touch,
  and all of them lie below \<open>2 ^ 36\<close>, so that no size exceeds 32 bits.
\<close>

definition heap_inv :: "heap \<Rightarrow> nat list \<Rightarrow> bool" where
  "heap_inv h as \<longleftrightarrow> 0 < hbase h \<and> hsize h (hbase h) = 0 \<and> links h (hbase h # as) (hbase h) \<and> apart h (hbase h # as) \<and>
     (\<forall>a \<in> set as. 0 < hsize h a \<and> block_end h a \<le> 2 ^ 36) \<and> freep h \<in> set (hbase h # as)"

definition extent :: "heap \<Rightarrow> nat \<Rightarrow> nat set" where
  "extent h a = {a ..< block_end h a}"

definition free_bytes :: "heap \<Rightarrow> nat list \<Rightarrow> nat set" where
  "free_bytes h as = (\<Union>a \<in> set as. extent h a)"

lemma links_append: "links h (as @ bs) z \<longleftrightarrow> links h as (hd (bs @ [z])) \<and> links h bs z"
  by (induction as) (auto simp: hd_append)

lemma links_cong: "(\<And>a. a \<in> set as \<Longrightarrow> hptr h a = hptr h' a) \<Longrightarrow> links h as z \<longleftrightarrow> links h' as z"
  by (induction as) auto

lemma apart_append: "apart h (as @ bs) \<longleftrightarrow> apart h as \<and> apart h bs \<and> (\<forall>a \<in> set as. \<forall>b \<in> set bs. block_end h a < b)"
  by (induction as) auto

lemma apart_cong: "(\<And>a. a \<in> set as \<Longrightarrow> hsize h a = hsize h' a) \<Longrightarrow> apart h as \<longleftrightarrow> apart h' as"
  by (induction as) (auto simp: block_end_def)

lemma apart_distinct: "apart h as \<Longrightarrow> distinct as"
  by (induction as) (auto simp: block_end_def)

lemma links_next: "links h as z \<Longrightarrow> a \<in> set as \<Longrightarrow> hptr h a \<in> insert z (set (tl as))"
proof (induction as)
  case (Cons b bs)
  then show ?case by (cases bs) auto
qed simp

lemma links_prev:
  assumes "links h (xs @ q # p # ys) z" "distinct (xs @ q # p # ys)" "z \<notin> set (p # ys)" "hptr h b = p" "b \<in> set (xs @ q # p # ys)"
  shows "b = q"
proof -
  have l: "links h xs q" "links h (p # ys) z" using assms(1) by (auto simp: links_append)
  have "b \<notin> set xs" using links_next[OF l(1)] assms(2,4) by (cases xs) auto
  moreover have "b \<notin> set (p # ys)" using links_next[OF l(2)] assms(2-4) by auto
  ultimately show ?thesis using assms(5) by simp
qed

section \<open>\<^verbatim>\<open>free\<close>\<close>

declare find_spot.simps(2) [simp del]

lemma find_spot_more: "find_spot k bp p h = Some r \<Longrightarrow> k \<le> m \<Longrightarrow> find_spot m bp p h = Some r"
proof (induction k arbitrary: p m)
  case (Suc k)
  then obtain m' where "m = Suc m'" "k \<le> m'" by (cases m) auto
  then show ?case using Suc by (auto simp: find_spot.simps(2) split: if_splits)
qed simp

lemma find_spot_walk:
  assumes "links h as z"
    "\<And>a. a \<in> set as \<Longrightarrow> \<not> (bp > a \<and> bp < hptr h a) \<and> \<not> (a \<ge> hptr h a \<and> (bp > a \<or> bp < hptr h a))"
  shows "find_spot (length as + k) bp (hd (as @ [z])) h = find_spot k bp z h"
  using assms
proof (induction as)
  case (Cons a as)
  then show ?case by (cases as) (auto simp: find_spot.simps(2))
qed simp

text \<open>The position of a new block in the list.\<close>

lemma find_spot_ok:
  assumes inv: "heap_inv h (as @ bs)" and a: "\<forall>a \<in> set as. a < bp" and b: "\<forall>b \<in> set bs. bp < b" and base: "hbase h < bp"
    and k: "length as + length bs + 2 \<le> k"
  shows "find_spot k bp (freep h) h = Some (last (hbase h # as))"
proof -
  let ?base = "hbase h"
  obtain xs p where xs: "?base # as = xs @ [p]" by (metis append_butlast_last_id list.distinct(1))
  have e: "?base # as @ bs = xs @ p # bs" using xs by (metis append_Cons append_assoc append_Nil)
  have p: "p = last (?base # as)" by (simp add: xs)
  have l: "links h xs p" "hptr h p = hd (bs @ [?base])" "links h bs ?base" and ap: "apart h (xs @ p # bs)" and f: "freep h \<in> set (xs @ p # bs)"
    using inv unfolding heap_inv_def e by (auto simp: links_append)
  have lt: "a < bp" if "a \<in> set (xs @ [p])" for a using a base that unfolding xs[symmetric] by auto
  have h0: "hd (xs @ [p]) = ?base" unfolding xs[symmetric] by simp
  have "?base \<le> p" using ap h0 by (cases xs) (auto simp: block_end_def)
  then have stop: "find_spot (Suc n) bp p h = Some p" for n
    using lt[of p] l(2) b base by (cases bs) (auto simp: find_spot.simps(2))
  have nx: "\<not> (bp > x \<and> bp < hptr h x) \<and> \<not> (x \<ge> hptr h x \<and> (bp > x \<or> bp < hptr h x))" if x: "x \<in> set xs" for x
  proof -
    obtain us vs where u: "xs = us @ x # vs" using split_list[OF x] by blast
    have n: "hptr h x = hd (vs @ [p])" using l(1) by (simp add: u links_append)
    then have "hptr h x \<in> set (vs @ [p])" by (metis hd_in_set snoc_eq_iff_butlast)
    moreover from this have "block_end h x < hptr h x" using ap unfolding u by (auto simp: apart_append)
    ultimately have "x < hptr h x" "hptr h x < bp" using lt[of "hptr h x"] u by (auto simp: block_end_def)
    then show ?thesis by simp
  qed
  have ny: "\<not> (bp > y \<and> bp < hptr h y) \<and> \<not> (y \<ge> hptr h y \<and> (bp > y \<or> bp < hptr h y))" if y: "y \<in> set bs" for y
  proof -
    obtain us vs where u: "bs = us @ y # vs" using split_list[OF y] by blast
    have n: "hptr h y = hd (vs @ [?base])" using l(3) by (simp add: u links_append)
    show ?thesis
    proof (cases vs)
      case Nil
      then show ?thesis using n b base y by auto
    next
      case (Cons v ws)
      then have "block_end h y < v" "hptr h y = v" using ap n unfolding u by (auto simp: apart_append)
      then show ?thesis using b y by (auto simp: block_end_def)
    qed
  qed
  have up: "find_spot (length zs + Suc n) bp (hd (zs @ [p])) h = Some p" if "xs = us @ zs" for us zs n
    using find_spot_walk[of h zs p bp "Suc n"] stop nx l(1) that by (auto simp: links_append)
  have n: "length xs = length as" using arg_cong[OF xs, of length] by simp
  from f consider "freep h \<in> set xs" | "freep h = p" | "freep h \<in> set bs" by auto
  then show ?thesis
  proof cases
    case 1
    then obtain us zs where u: "xs = us @ freep h # zs" using split_list by fastforce
    show ?thesis using find_spot_more[OF up[OF u, of 0], of k] k n p u by simp
  next
    case 2
    then show ?thesis using find_spot_more[OF stop[of 0], of k] k p by simp
  next
    case 3
    then obtain us zs where u: "bs = us @ freep h # zs" using split_list by fastforce
    have lz: "links h (freep h # zs) ?base" using l(3) unfolding u links_append by simp
    have nz: "\<not> (bp > a \<and> bp < hptr h a) \<and> \<not> (a \<ge> hptr h a \<and> (bp > a \<or> bp < hptr h a))" if "a \<in> set (freep h # zs)" for a
      by (rule ny) (use that in \<open>auto simp: u\<close>)
    have "find_spot (length (freep h # zs) + (length xs + Suc 0)) bp (freep h) h = find_spot (length xs + Suc 0) bp ?base h"
      using find_spot_walk[OF lz nz, of "length xs + Suc 0"] by (simp only: append_Cons list.sel)
    also have "\<dots> = Some p" using up[of "[]" xs 0] h0 by simp
    finally show ?thesis using find_spot_more[of "length (freep h # zs) + (length xs + Suc 0)" bp "freep h" h p k] k n u p by simp
  qed
qed

text \<open>The list while the block at \<open>bp\<close> has its own links but its predecessor does not yet point to it.\<close>

definition half_in :: "heap \<Rightarrow> nat list \<Rightarrow> nat \<Rightarrow> nat list \<Rightarrow> bool" where
  "half_in h as bp bs \<longleftrightarrow> 0 < hbase h \<and> hsize h (hbase h) = 0 \<and> links h (butlast (hbase h # as)) (last (hbase h # as)) \<and>
     links h (bp # bs) (hbase h) \<and> apart h (hbase h # as) \<and> apart h (bp # bs) \<and>
     (\<forall>a \<in> set (hbase h # as). a < bp \<and> block_end h a \<le> bp) \<and> (\<forall>a \<in> set (as @ bp # bs). 0 < hsize h a \<and> block_end h a \<le> 2 ^ 36)"

lemma unat_sum: "unat (a :: u32) + unat b < 2 ^ 32 \<Longrightarrow> unat (a + b) = unat a + unat b"
  by (simp add: unat_word_ariths)

text \<open>Two blocks that touch, joined into one.\<close>

lemma join_extent:
  assumes "block_end h p = q" "0 < p" "block_end h q \<le> 2 ^ 36" and h': "hsize h' p = hsize h p + hsize h q"
  shows "block_end h' p = block_end h q" "extent h' p = extent h p \<union> extent h q" "0 < hsize h p \<Longrightarrow> 0 < hsize h' p"
proof -
  have "unat (hsize h p) + unat (hsize h q) < 2 ^ 32" using assms(1-3) by (simp add: block_end_def)
  then have u: "unat (hsize h' p) = unat (hsize h p) + unat (hsize h q)" unfolding h' by (rule unat_sum)
  then show e: "block_end h' p = block_end h q" using assms(1) by (simp add: block_end_def)
  show "extent h' p = extent h p \<union> extent h q" unfolding extent_def e using assms(1) by (auto simp: block_end_def)
  show "0 < hsize h' p" if "0 < hsize h p" using that u by (simp add: unat_gt_0[symmetric] word_gt_0)
qed

lemma join_right:
  assumes inv: "heap_inv h (as @ bs)" and bp: "0 < hsize h bp" "block_end h bp \<le> 2 ^ 36"
    and a: "\<forall>a \<in> set (hbase h # as). a < bp \<and> block_end h a \<le> bp" and b: "\<forall>b \<in> set bs. block_end h bp \<le> b"
    and p: "p = last (hbase h # as)"
  defines "h1 \<equiv> (if block_end h bp = hptr h p
               then h\<lparr>hsize := (hsize h)(bp := hsize h bp + hsize h (hptr h p)), hptr := (hptr h)(bp := hptr h (hptr h p))\<rparr>
               else h\<lparr>hptr := (hptr h)(bp := hptr h p)\<rparr>)"
  shows "\<exists>cs. half_in h1 as bp cs \<and> free_bytes h1 (as @ bp # cs) = free_bytes h (as @ bs) \<union> extent h bp"
proof -
  let ?base = "hbase h"
  let ?xs = "butlast (?base # as)"
  have xs: "?base # as = ?xs @ [p]" unfolding p by (rule append_butlast_last_id[symmetric]) simp
  have e: "?base # as @ bs = ?xs @ p # bs" using xs by (metis append_Cons append_assoc append_Nil)
  have l: "links h ?xs p" "hptr h p = hd (bs @ [?base])" "links h bs ?base" using inv unfolding heap_inv_def e by (auto simp: links_append)
  have ap: "apart h (?base # as)" "apart h bs" "\<forall>x \<in> set (?base # as). \<forall>y \<in> set bs. block_end h x < y"
    using inv apart_append[of h "?base # as" bs] by (auto simp: heap_inv_def)
  have sz: "\<forall>x \<in> set (as @ bs). 0 < hsize h x \<and> block_end h x \<le> 2 ^ 36" and z: "0 < ?base" "hsize h ?base = 0"
    using inv by (auto simp: heap_inv_def)
  have bpend: "bp < block_end h bp" using bp(1) by (simp add: block_end_def unat_gt_0 word_gt_0)
  have ne: "bp \<notin> set (?base # as @ bs)" using a b bpend by fastforce
  have same: "block_end h1 x = block_end h x" "hsize h1 x = hsize h x" "hptr h1 x = hptr h x" if "x \<noteq> bp" for x
    using that by (auto simp: h1_def block_end_def)
  have base1: "hbase h1 = ?base" by (simp add: h1_def)
  have ne': "x \<noteq> bp" if "x \<in> set (?base # as) \<or> x \<in> set bs" for x using ne that by auto
  have l1: "links h1 ?xs p"
    by (rule links_cong[THEN iffD2, OF _ l(1)]) (rule same(3), rule ne', rule disjI1, erule in_set_butlastD)
  have ap1: "apart h1 (?base # as)" by (rule apart_cong[THEN iffD2, OF _ ap(1)]) (intro same(2) ne' disjI1)
  have sz1: "\<forall>x \<in> set (as @ bs). 0 < hsize h1 x \<and> block_end h1 x \<le> 2 ^ 36"
  proof
    fix x assume x: "x \<in> set (as @ bs)"
    then have "x \<noteq> bp" by (intro ne') auto
    then show "0 < hsize h1 x \<and> block_end h1 x \<le> 2 ^ 36" using bspec[OF sz x] same(1,2) by presburger
  qed
  have a1: "\<forall>x \<in> set (?base # as). x < bp \<and> block_end h1 x \<le> bp" using a same(1) ne' by (metis (no_types))
  have ex: "extent h1 x = extent h x" if "x \<in> set (as @ bs)" for x
    unfolding extent_def using that by (subst same(1)) (auto intro!: ne')
  show ?thesis
  proof (cases "block_end h bp = hptr h p")
    case False
    have h1: "block_end h1 bp = block_end h bp" "hsize h1 bp = hsize h bp" "hptr h1 bp = hptr h p" using False by (simp_all add: h1_def block_end_def)
    have lb: "links h1 bs ?base" by (rule links_cong[THEN iffD2, OF _ l(3)]) (intro same(3) ne' disjI2)
    have ab: "apart h1 bs" by (rule apart_cong[THEN iffD2, OF _ ap(2)]) (intro same(2) ne' disjI2)
    have "block_end h bp < x" if "x \<in> set bs" for x
    proof (cases bs)
      case (Cons n ns)
      have "block_end h bp \<le> n" "block_end h bp \<noteq> n" using b False l(2) Cons by auto
      moreover have "n \<le> x" using ap(2) that Cons by (auto simp: block_end_def)
      ultimately show ?thesis by simp
    qed (use that in simp)
    then have "half_in h1 as bp bs"
      unfolding half_in_def base1 using z l1 lb l(2) ap1 ab a1 sz1 bp h1 same(2)[OF ne'] p by auto
    moreover have "free_bytes h1 (as @ bp # bs) = free_bytes h (as @ bs) \<union> extent h bp"
      using ex h1(1) by (auto simp: free_bytes_def extent_def)
    ultimately show ?thesis by blast
  next
    case True
    have "?base < block_end h bp" using a bpend by force
    then obtain n ns where bs: "bs = n # ns" "hptr h p = n" using True l(2) by (cases bs) auto
    have h1: "hsize h1 bp = hsize h bp + hsize h n" "hptr h1 bp = hptr h n" using True bs(2) by (simp_all add: h1_def)
    have "0 < bp" "block_end h n \<le> 2 ^ 36" using a sz bs(1) by auto
    note j = join_extent[where h' = h1 and p = bp and q = n and h = h, OF _ this h1(1)]
    have lb: "links h1 ns ?base" by (rule links_cong[THEN iffD2, of _ _ h]) (use l(3) bs(1) in \<open>auto intro!: same(3) ne'\<close>)
    have ab: "apart h1 ns" by (rule apart_cong[THEN iffD2, of _ _ h]) (use ap(2) bs(1) in \<open>auto intro!: same(2) ne'\<close>)
    have "half_in h1 as bp ns"
      unfolding half_in_def base1 using z l1 lb l(3) ap1 ap(2) ab a1 sz1 bp(1) h1(2) j(1,3) True same(2)[OF ne'] p bs
        \<open>block_end h n \<le> 2 ^ 36\<close> by auto
    moreover have "free_bytes h1 (as @ bp # ns) = free_bytes h (as @ bs) \<union> extent h bp"
      using ex j(2) True bs by (auto simp: free_bytes_def)
    ultimately show ?thesis by blast
  qed
qed

lemma join_left:
  assumes hf: "half_in h as bp bs" and p: "p = last (hbase h # as)"
  defines "h1 \<equiv> (if block_end h p = bp
               then h\<lparr>hsize := (hsize h)(p := hsize h p + hsize h bp), hptr := (hptr h)(p := hptr h bp)\<rparr>
               else h\<lparr>hptr := (hptr h)(p := bp)\<rparr>)\<lparr>freep := p\<rparr>"
  shows "\<exists>cs. heap_inv h1 cs \<and> free_bytes h1 cs = free_bytes h (as @ bp # bs)"
proof -
  let ?base = "hbase h"
  define xs where "xs = butlast (?base # as)"
  have xs: "?base # as = xs @ [p]" unfolding p xs_def by (rule append_butlast_last_id[symmetric]) simp
  have bl: "butlast (?base # as) = xs" unfolding xs by simp
  have d: "0 < ?base" "hsize h ?base = 0" "links h xs p" "links h (bp # bs) ?base" "apart h (xs @ [p])" "apart h (bp # bs)"
      "\<forall>a \<in> set (xs @ [p]). a < bp \<and> block_end h a \<le> bp" "\<forall>a \<in> set (as @ bp # bs). 0 < hsize h a \<and> block_end h a \<le> 2 ^ 36"
    using hf unfolding half_in_def bl p[symmetric] xs by auto
  have bpend: "bp < block_end h bp" using d(8) by (simp add: block_end_def unat_gt_0 word_gt_0)
  have bb: "b \<in> set bs \<Longrightarrow> bp < b \<and> block_end h bp < b" for b using d(6) bpend by (auto dest: order.strict_trans)
  have ne: "p \<notin> set (bp # bs)" "p \<notin> set xs" using d(7) bb apart_distinct[OF d(5)] by (auto dest: order.strict_trans)
  have same: "block_end h1 x = block_end h x" "hsize h1 x = hsize h x" "hptr h1 x = hptr h x" "extent h1 x = extent h x" if "x \<noteq> p" for x
    using that by (auto simp: h1_def block_end_def extent_def)
  have base1: "hbase h1 = ?base" "freep h1 = p" by (simp_all add: h1_def)
  have L: "links h1 xs p" "links h1 (bp # bs) ?base" "apart h1 xs" "apart h1 (bp # bs)"
  proof -
    show "links h1 xs p" by (rule links_cong[THEN iffD2, OF _ d(3)]) (use ne(2) in \<open>auto intro!: same(3)\<close>)
    show "links h1 (bp # bs) ?base" by (rule links_cong[THEN iffD2, OF _ d(4)]) (use ne(1) in \<open>auto intro!: same(3)\<close>)
    show "apart h1 xs" by (rule apart_cong[THEN iffD2, of _ _ h]) (use ne(2) d(5) in \<open>auto intro!: same(2) simp: apart_append\<close>)
    show "apart h1 (bp # bs)" by (rule apart_cong[THEN iffD2, OF _ d(6)]) (use ne(1) in \<open>auto intro!: same(2)\<close>)
  qed
  have xp: "block_end h1 a < p \<and> block_end h1 a \<le> bp" if "a \<in> set xs" for a
    using d(5,7) ne(2) that by (subst (1 2) same(1)) (auto simp: apart_append)
  have size1: "0 < hsize h1 x \<and> block_end h1 x \<le> 2 ^ 36" if "x \<in> set (as @ bp # bs)" "x \<noteq> p" for x
    using bspec[OF d(8) that(1)] same(1,2)[OF that(2)] by simp
  have lt: "p < bp" using d(7) by simp
  have z1: "hsize h1 ?base = 0" if "?base \<noteq> p" using d(2) same(2)[OF that] by simp
  show ?thesis
  proof (cases "block_end h p = bp")
    case False
    have h1: "hsize h1 p = hsize h p" "hptr h1 p = bp" "block_end h1 p = block_end h p" "extent h1 p = extent h p"
      using False by (simp_all add: h1_def block_end_def extent_def)
    have E: "?base # as @ bp # bs = xs @ p # bp # bs" using arg_cong[OF xs, of "\<lambda>l. l @ bp # bs"] by simp
    have s: "x \<in> set (as @ bp # bs) \<Longrightarrow> 0 < hsize h1 x \<and> block_end h1 x \<le> 2 ^ 36" for x
      using size1[of x] d(8) h1(1,3) by (cases "x = p") auto
    have pb: "block_end h1 p < b" if "b \<in> set (bp # bs)" for b
      using False d(7) bb[of b] that unfolding h1(3) by (auto intro: order.strict_trans1)
    have xb: "block_end h1 a < b" if "a \<in> set xs" "b \<in> set (p # bp # bs)" for a b
      using xp[OF that(1)] that(2) bb[of b] lt by auto
    have "apart h1 (xs @ p # bp # bs)"
      unfolding apart_append apart.simps(2)[of h1 p] using L(3,4) pb xb by blast
    moreover have "hsize h1 ?base = 0" using z1 d(2) h1(1) by (cases "?base = p") auto
    ultimately have "heap_inv h1 (as @ bp # bs)"
      unfolding heap_inv_def base1 E using d(1) h1(1,2) L(1,2) s by (auto simp: links_append)
    moreover have "extent h1 x = extent h x" for x using same(4) h1(4) by (cases "x = p") auto
    ultimately show ?thesis by (intro exI[of _ "as @ bp # bs"]) (simp add: free_bytes_def)
  next
    case True
    have pb: "p \<noteq> ?base" using True d(2,7) by (auto simp: block_end_def)
    then have pas: "p \<in> set as" using arg_cong[OF xs, of set] by auto
    have h1: "hsize h1 p = hsize h p + hsize h bp" "hptr h1 p = hptr h bp" using True by (simp_all add: h1_def)
    have "0 < p" "block_end h bp \<le> 2 ^ 36" "0 < hsize h p" using d(5,8) pas xs by (cases xs; auto)+
    note j = join_extent[where h' = h1 and p = p and q = bp and h = h, OF True this(1,2) h1(1)]
    have E: "?base # as @ bs = xs @ p # bs" using arg_cong[OF xs, of "\<lambda>l. l @ bs"] by simp
    have s: "x \<in> set (as @ bs) \<Longrightarrow> 0 < hsize h1 x \<and> block_end h1 x \<le> 2 ^ 36" for x
      using size1[of x] j(1) j(3)[OF \<open>0 < hsize h p\<close>] \<open>block_end h bp \<le> 2 ^ 36\<close> by (cases "x = p") auto
    have xb: "block_end h1 a < b" if "a \<in> set xs" "b \<in> set (p # bs)" for a b
      using xp[OF that(1)] that(2) bb[of b] lt by auto
    have "apart h1 (xs @ p # bs)"
      unfolding apart_append apart.simps(2)[of h1 p] using L(3,4) xb j(1) bb by auto
    then have "heap_inv h1 (as @ bs)"
      unfolding heap_inv_def base1 E using d(1,4) z1 pb h1(2) L(1,2) s by (auto simp: links_append)
    moreover have "free_bytes h1 (as @ bs) = free_bytes h (as @ bp # bs)"
    proof -
      have "extent h1 x = (if x = p then extent h p \<union> extent h bp else extent h x)" for x using same(4) j(2) by auto
      then show ?thesis using pas ne(1) unfolding free_bytes_def by (auto split: if_splits)
    qed
    ultimately show ?thesis by blast
  qed
qed

lemma apart_split: "apart h as \<Longrightarrow> \<exists>xs ys. as = xs @ ys \<and> (\<forall>x \<in> set xs. x < n) \<and> (\<forall>y \<in> set ys. n \<le> y)"
proof (induction as)
  case (Cons a as)
  then obtain xs ys where s: "as = xs @ ys" "\<forall>x \<in> set xs. x < n" "\<forall>y \<in> set ys. n \<le> y" by auto
  show ?case
  proof (cases "a < n")
    case True
    then show ?thesis using s by (intro exI[of _ "a # xs"] exI[of _ ys]) auto
  next
    case False
    then have "n \<le> b" if "b \<in> set as" for b using Cons.prems that by (fastforce simp: block_end_def)
    then show ?thesis using False by (intro exI[of _ "[]"] exI[of _ "a # as"]) auto
  qed
qed simp

lemma free_ok:
  assumes inv: "heap_inv h cs" and bp: "0 < hsize h bp" "block_end h bp \<le> 2 ^ 36" "hbase h < bp"
    and dj: "extent h bp \<inter> free_bytes h cs = {}" and k: "length cs + 2 \<le> k"
  shows "\<exists>h' ds. free k (bp + 16) h = Some h' \<and> heap_inv h' ds \<and> hbase h' = hbase h \<and> free_bytes h' ds = free_bytes h cs \<union> extent h bp"
proof -
  obtain as bs where s: "cs = as @ bs" "\<forall>a \<in> set as. a < bp" "\<forall>b \<in> set bs. bp \<le> b"
    using apart_split[of h cs bp] inv by (auto simp: heap_inv_def)
  have bpe: "bp \<in> extent h bp" using bp(1) by (simp add: extent_def block_end_def unat_gt_0 word_gt_0)
  have own: "a \<in> extent h a" if "a \<in> set cs" for a
    using inv that by (auto simp: heap_inv_def extent_def block_end_def unat_gt_0 word_gt_0)
  have dis: "extent h bp \<inter> extent h a = {}" if "a \<in> set cs" for a using dj that by (auto simp: free_bytes_def)
  have b: "\<forall>b \<in> set bs. block_end h bp \<le> b" "\<forall>b \<in> set bs. bp < b"
  proof -
    have "bp < b \<and> block_end h bp \<le> b" if "b \<in> set bs" for b
      using own[of b] dis[of b] bpe s that by (auto simp: extent_def)
    then show "\<forall>b \<in> set bs. block_end h bp \<le> b" "\<forall>b \<in> set bs. bp < b" by auto
  qed
  have a: "\<forall>a \<in> set (hbase h # as). a < bp \<and> block_end h a \<le> bp"
  proof
    fix a assume "a \<in> set (hbase h # as)"
    then consider "a = hbase h" | "a \<in> set as" by auto
    then show "a < bp \<and> block_end h a \<le> bp"
    proof cases
      case 1
      then show ?thesis using bp(3) inv by (simp add: heap_inv_def block_end_def)
    next
      case 2
      then show ?thesis using dis[of a] bpe s by (auto simp: extent_def)
    qed
  qed
  let ?p = "last (hbase h # as)"
  let ?h1 = "if block_end h bp = hptr h ?p
               then h\<lparr>hsize := (hsize h)(bp := hsize h bp + hsize h (hptr h ?p)), hptr := (hptr h)(bp := hptr h (hptr h ?p))\<rparr>
               else h\<lparr>hptr := (hptr h)(bp := hptr h ?p)\<rparr>"
  have spot: "find_spot k bp (freep h) h = Some ?p"
    using inv s b(2) bp(3) k unfolding s(1) by (intro find_spot_ok) auto
  obtain es where 1: "half_in ?h1 as bp es" "free_bytes ?h1 (as @ bp # es) = free_bytes h cs \<union> extent h bp"
    using join_right[OF inv[unfolded s(1)] bp(1,2) a b(1) refl] unfolding s(1) by blast
  have base: "hbase ?h1 = hbase h" by simp
  obtain ds where 2: "heap_inv (join_block bp ?p h) ds" "free_bytes (join_block bp ?p h) ds = free_bytes h cs \<union> extent h bp"
    using join_left[OF 1(1) refl] unfolding 1(2) base join_block_def Let_def by blast
  have "hbase (join_block bp ?p h) = hbase h" by (simp add: join_block_def Let_def)
  then show ?thesis using spot 2 by (auto simp: free_def)
qed

section \<open>\<^verbatim>\<open>malloc\<close>\<close>

lemma links_last: "links h (a # as) z \<Longrightarrow> hptr h (last (a # as)) = z"
  by (induction as arbitrary: a) auto

lemma apart_disjoint:
  assumes "apart h as" "a \<in> set as" "b \<in> set as" "a \<noteq> b"
  shows "extent h a \<inter> extent h b = {}"
  using assms by (induction as) (auto simp: extent_def)

declare malloc_loop.simps(2) [simp del]

lemma malloc_walk:
  assumes "links h us p" "\<forall>u \<in> set us. hsize h u < n \<and> u \<noteq> freep h"
  shows "malloc_loop (length us + k) n prevp (hd (us @ [p])) os (h, e) = malloc_loop k n (last (prevp # us)) p os (h, e)"
  using assms
proof (induction us arbitrary: prevp)
  case (Cons u us)
  then have "\<not> n \<le> hsize h u" "u \<noteq> freep h" "hptr h u = hd (us @ [p])" by auto
  then show ?case using Cons by (simp add: malloc_loop.simps(2))
qed simp

text \<open>The circular list, from the header after \<open>freep\<close> round to \<open>freep\<close> itself.\<close>

lemma ring:
  assumes inv: "heap_inv h cs"
  obtains us where "links h (us @ [freep h]) (hd (us @ [freep h]))" "distinct (us @ [freep h])" "set (us @ [freep h]) = set (hbase h # cs)"
    "hptr h (freep h) = hd (us @ [freep h])"
proof -
  obtain xs ys where s: "hbase h # cs = xs @ freep h # ys" using inv split_list[of "freep h" "hbase h # cs"] by (auto simp: heap_inv_def)
  have l: "links h xs (freep h)" "hptr h (freep h) = hd (ys @ [hbase h])" "links h ys (hbase h)"
    using inv unfolding heap_inv_def s by (auto simp: links_append)
  have b: "hd (xs @ freep h # zs) = hbase h" for zs using s by (cases xs) auto
  have n: "hptr h (freep h) = hd ((ys @ xs) @ [freep h])" using l(2) b by (cases ys) auto
  have "links h ((ys @ xs) @ [freep h]) (hd ((ys @ xs) @ [freep h]))"
    using l n b by (simp add: links_append)
  moreover have "distinct ((ys @ xs) @ [freep h])" using inv apart_distinct[of h "hbase h # cs"] unfolding s heap_inv_def by auto
  moreover have "set ((ys @ xs) @ [freep h]) = set (hbase h # cs)" unfolding s by auto
  ultimately show thesis using n that by blast
qed

lemma malloc_fit:
  assumes inv: "heap_inv h cs" and n: "0 < n" and fit: "b \<in> set cs" "n \<le> hsize h b"
  obtains m prevp p where "p \<in> set cs" "prevp \<in> set (hbase h # cs)" "hptr h prevp = p" "n \<le> hsize h p"
    "\<And>k. malloc_loop (m + Suc k) n (freep h) (hptr h (freep h)) os (h, e) =
       Ret (fst (take_block n prevp p h)) (snd (take_block n prevp p h), e)"
proof -
  obtain rs where r: "links h (rs @ [freep h]) (hd (rs @ [freep h]))" "distinct (rs @ [freep h])" "set (rs @ [freep h]) = set (hbase h # cs)"
    "hptr h (freep h) = hd (rs @ [freep h])" using ring[OF inv] by blast
  have "\<exists>x \<in> set (rs @ [freep h]). n \<le> hsize h x" unfolding r(3) using fit by auto
  then obtain us p vs where u: "rs @ [freep h] = us @ p # vs" "n \<le> hsize h p" "\<forall>x \<in> set us. \<not> n \<le> hsize h x"
    using split_list_first_prop[of "rs @ [freep h]" "\<lambda>x. n \<le> hsize h x"] by blast
  have fu: "freep h \<notin> set us" using r(2) u(1) by (cases vs rule: rev_cases) auto
  have l: "links h us p" using r(1) unfolding u(1) links_append by simp
  have f: "hptr h (freep h) = hd (us @ [p])" using r(4) unfolding u(1) by (cases us) simp_all
  have pin: "p \<in> set (hbase h # cs)" using r(3) unfolding u(1) by auto
  moreover have "p \<noteq> hbase h" using inv u(2) n by (auto simp: heap_inv_def)
  ultimately have "p \<in> set cs" by simp
  moreover have "last (freep h # us) \<in> set (hbase h # cs)"
  proof -
    have "set (freep h # us) \<subseteq> set (rs @ [freep h])" unfolding u(1) using u(1) by (metis in_set_conv_decomp insert_subset list.simps(15) set_append sup.cobounded1)
    then show ?thesis using last_in_set[of "freep h # us"] unfolding r(3) by blast
  qed
  moreover have "hptr h (last (freep h # us)) = p" using l f by (intro links_last) simp
  moreover have "malloc_loop (length us + Suc k) n (freep h) (hptr h (freep h)) os (h, e) =
      Ret (fst (take_block n (last (freep h # us)) p h)) (snd (take_block n (last (freep h # us)) p h), e)" for k
  proof -
    have "\<forall>x \<in> set us. hsize h x < n \<and> x \<noteq> freep h" using u(3) fu by auto
    note malloc_walk[OF l this, of "Suc k" "freep h" os e]
    then show ?thesis unfolding f malloc_loop.simps(2)[of k] using u(2) by (simp add: case_prod_beta)
  qed
  ultimately show thesis using that[of p "last (freep h # us)" "length us"] u(2) by simp
qed

lemma malloc_full:
  assumes inv: "heap_inv h cs" and n: "0 < n" and full: "\<forall>b \<in> set cs. hsize h b < n"
  obtains m where "\<And>k. malloc_loop (m + Suc k) n (freep h) (hptr h (freep h)) os (h, e) =
       bnd (morecore k n os (h, e)) (\<lambda>p s. if p = 0 then Ret 0 s else malloc_loop k n p (hptr (fst s) p) os s)"
proof -
  obtain rs where r: "links h (rs @ [freep h]) (hd (rs @ [freep h]))" "distinct (rs @ [freep h])" "set (rs @ [freep h]) = set (hbase h # cs)"
    "hptr h (freep h) = hd (rs @ [freep h])" using ring[OF inv] by blast
  have small: "hsize h x < n" if "x \<in> set (rs @ [freep h])" for x using that full inv n unfolding r(3) by (auto simp: heap_inv_def)
  have l: "links h rs (freep h)" "\<forall>u \<in> set rs. hsize h u < n \<and> u \<noteq> freep h" using r(1,2) small by (auto simp: links_append)
  have f: "\<not> n \<le> hsize h (freep h)" using small[of "freep h"] by simp
  show thesis
  proof (rule that[of "length rs"])
    fix k
    show "malloc_loop (length rs + Suc k) n (freep h) (hptr h (freep h)) os (h, e) =
       bnd (morecore k n os (h, e)) (\<lambda>p s. if p = 0 then Ret 0 s else malloc_loop k n p (hptr (fst s) p) os s)"
      unfolding r(4) malloc_walk[OF l, of "Suc k" "freep h" os e] malloc_loop.simps(2)[of k] using f by simp
  qed
qed

text \<open>Taking a whole block out of the list, and taking the end of a larger one.\<close>

lemma take_whole:
  assumes inv: "heap_inv h cs" and p: "p \<in> set cs" "prevp \<in> set (hbase h # cs)" "hptr h prevp = p"
  shows "\<exists>ds. heap_inv (h\<lparr>hptr := (hptr h)(prevp := hptr h p), freep := prevp\<rparr>) ds \<and>
    free_bytes (h\<lparr>hptr := (hptr h)(prevp := hptr h p), freep := prevp\<rparr>) ds = free_bytes h cs - extent h p"
proof -
  let ?base = "hbase h" and ?h = "h\<lparr>hptr := (hptr h)(prevp := hptr h p), freep := prevp\<rparr>"
  have i: "links h (?base # cs) ?base" "apart h (?base # cs)" using inv by (auto simp: heap_inv_def)
  note d = apart_distinct[OF i(2)]
  obtain xs ys where s: "?base # cs = xs @ p # ys" "xs \<noteq> []" using split_list[OF p(1)] by (metis append_Cons list.distinct(1))
  define us q where "us = butlast xs" "q = last xs"
  have e: "?base # cs = us @ q # p # ys" using s us_q_def by (metis append_butlast_last_id append.assoc append_Cons append_Nil)
  have bq: "?base \<notin> set (p # ys)" using e d by (cases us) auto
  have prevp: "prevp = q" by (rule links_prev[OF i(1)[unfolded e] d[unfolded e] bq p(3) p(2)[unfolded e]])
  obtain vs where vs: "us @ q # ys = ?base # vs" "set cs = insert p (set vs)" "p \<notin> set vs" using e d by (cases us) auto
  have l: "links h us q" "hptr h p = hd (ys @ [?base])" "links h ys ?base" using i(1) unfolding e by (auto simp: links_append)
  have be: "block_end ?h = block_end h" "extent ?h = extent h" by (auto simp: block_end_def extent_def fun_eq_iff)
  have nq: "q \<notin> set us" "q \<notin> set ys" using d unfolding e by auto
  have "links ?h us q" by (rule links_cong[THEN iffD2, OF _ l(1)]) (use nq prevp in auto)
  moreover have "links ?h ys ?base" by (rule links_cong[THEN iffD2, OF _ l(3)]) (use nq prevp in auto)
  ultimately have L: "links ?h (us @ q # ys) ?base" using l(2) prevp by (simp add: links_append)
  have "apart h (us @ q # ys)" using i(2) unfolding e by (auto simp: apart_append)
  then have A: "apart ?h (us @ q # ys)" by (rule apart_cong[THEN iffD2, rotated]) simp
  have f: "q \<in> set (?base # vs)" unfolding vs(1)[symmetric] by simp
  have "\<forall>a \<in> set vs. 0 < hsize h a \<and> block_end h a \<le> 2 ^ 36" "0 < ?base" "hsize h ?base = 0"
    using inv vs(2) unfolding heap_inv_def by blast+
  then have "heap_inv ?h vs"
    unfolding heap_inv_def be using L A f unfolding vs(1) prevp by simp
  moreover have "free_bytes h cs = extent h p \<union> free_bytes h vs" using vs(2) by (simp add: free_bytes_def)
  moreover have "extent h p \<inter> free_bytes h vs = {}"
    using apart_disjoint[OF i(2), of p] vs(2,3) p(1) unfolding free_bytes_def by fastforce
  ultimately show ?thesis by (intro exI[of _ vs]) (auto simp: free_bytes_def be)
qed

lemma apart_order:
  assumes "apart h as" "a \<in> set as" "b \<in> set as" "a \<noteq> b"
  shows "block_end h a < b \<or> block_end h b < a"
  using assms by (induction as) auto

lemma apart_shrink:
  assumes "apart h as" "\<And>a. a \<in> set as \<Longrightarrow> block_end h' a \<le> block_end h a"
  shows "apart h' as"
  using assms by (induction as) (auto intro: order.strict_trans1)

lemma take_part:
  assumes inv: "heap_inv h cs" and p: "p \<in> set cs" "prevp \<in> set (hbase h # cs)" and n: "0 < n" "n < hsize h p"
  defines "q \<equiv> p + 16 * unat (hsize h p - n)"
  defines "h' \<equiv> h\<lparr>hsize := (hsize h)(p := hsize h p - n, q := n), freep := prevp\<rparr>"
  shows "heap_inv h' cs" "free_bytes h' cs = free_bytes h cs - {q ..< q + 16 * unat n}" "{q ..< q + 16 * unat n} \<subseteq> extent h p"
proof -
  let ?base = "hbase h"
  have i: "links h (?base # cs) ?base" "apart h (?base # cs)" using inv by (auto simp: heap_inv_def)
  have u: "unat (hsize h p - n) = unat (hsize h p) - unat n" "0 < unat n" "unat n < unat (hsize h p)"
    using n unat_sub[of n "hsize h p"] by (simp_all add: word_less_nat_alt word_le_nat_alt)
  have q: "p < q" "q + 16 * unat n = block_end h p" "q < block_end h p" using u by (simp_all add: q_def block_end_def)
  have nq: "q \<noteq> x" if "x \<in> set (?base # cs)" for x
    using apart_order[OF i(2), of p x] p(1) that q(1,3) by (cases "x = p") (auto simp: block_end_def)
  have same: "hsize h' x = hsize h x" "block_end h' x = block_end h x" if "x \<in> set (?base # cs)" "x \<noteq> p" for x
    using nq[OF that(1)] that(2) by (simp_all add: h'_def block_end_def)
  have pe: "block_end h' p = q" "hsize h' p = hsize h p - n" using q(1) by (simp_all add: h'_def block_end_def q_def)
  have small: "block_end h' x \<le> block_end h x" if "x \<in> set (?base # cs)" for x
    using same(2)[OF that] pe(1) q(3) by (cases "x = p") auto
  show ext: "{q ..< q + 16 * unat n} \<subseteq> extent h p" using q by (auto simp: extent_def)
  have "?base \<noteq> p" using inv n by (auto simp: heap_inv_def)
  then have b: "hsize h' ?base = 0" using same(1)[of ?base] inv by (simp add: heap_inv_def)
  have s: "0 < hsize h' x \<and> block_end h' x \<le> 2 ^ 36" if "x \<in> set cs" for x
  proof -
    have "0 < hsize h x" "block_end h x \<le> 2 ^ 36" using inv that by (auto simp: heap_inv_def)
    then show ?thesis using same(1)[of x] small[of x] that pe(2) u(1,3) by (cases "x = p") (auto simp: word_gt_0 unat_eq_0[symmetric])
  qed
  have "links h' (?base # cs) ?base" by (rule links_cong[THEN iffD2, OF _ i(1)]) (simp add: h'_def)
  moreover have "apart h' (?base # cs)" by (rule apart_shrink[OF i(2) small])
  moreover have "hbase h' = ?base" "freep h' = prevp" by (simp_all add: h'_def)
  ultimately show "heap_inv h' cs" using inv b s p(2) unfolding heap_inv_def by simp
  have ex: "extent h' x = extent h x - {q ..< q + 16 * unat n}" if "x \<in> set cs" for x
  proof (cases "x = p")
    case True
    then show ?thesis using pe(1) q by (auto simp: extent_def)
  next
    case False
    then have "extent h x \<inter> extent h p = {}" using apart_disjoint[OF i(2), of x p] that p(1) by simp
    then show ?thesis using same(2)[of x] that False ext by (auto simp: extent_def)
  qed
  then show "free_bytes h' cs = free_bytes h cs - {q ..< q + 16 * unat n}" by (auto simp: free_bytes_def)
qed

lemma take_block_ok:
  assumes inv: "heap_inv h cs" and p: "p \<in> set cs" "prevp \<in> set (hbase h # cs)" "hptr h prevp = p" and n: "0 < n" "n \<le> hsize h p"
    and t: "take_block n prevp p h = (r, h')"
  shows "16 \<le> r \<and> hsize h' (r - 16) = n \<and> extent h' (r - 16) \<subseteq> free_bytes h cs \<and>
    (\<exists>ds. heap_inv h' ds \<and> free_bytes h' ds = free_bytes h cs - extent h' (r - 16))"
proof (cases "hsize h p = n")
  case True
  then have r: "r = p + 16" "h' = h\<lparr>hptr := (hptr h)(prevp := hptr h p), freep := prevp\<rparr>" using t by (auto simp: take_block_def)
  moreover have "extent h' p = extent h p" by (simp add: r(2) extent_def block_end_def)
  moreover have "extent h p \<subseteq> free_bytes h cs" using p(1) by (auto simp: free_bytes_def)
  ultimately show ?thesis using take_whole[OF inv p] True by simp
next
  case False
  then have n': "n < hsize h p" using n(2) by simp
  let ?q = "p + 16 * unat (hsize h p - n)"
  have r: "r = ?q + 16" "h' = h\<lparr>hsize := (hsize h)(p := hsize h p - n, ?q := n), freep := prevp\<rparr>"
    using t False by (auto simp: take_block_def Let_def block_end_def)
  note tp = take_part[OF inv p(1,2) n(1) n', folded r(2)]
  have "extent h' ?q = {?q ..< ?q + 16 * unat n}" by (simp add: r(2) extent_def block_end_def)
  moreover have "extent h p \<subseteq> free_bytes h cs" using p(1) by (auto simp: free_bytes_def)
  ultimately show ?thesis using tp r(1) by (auto simp: r(2) intro!: exI[of _ cs])
qed

text \<open>An interval of free bytes lies in one block, since blocks do not touch.\<close>

lemma one_block:
  assumes inv: "heap_inv h cs" and n: "0 < n" and iv: "{a ..< a + 16 * n} \<subseteq> free_bytes h cs"
  obtains b where "b \<in> set cs" "n \<le> unat (hsize h b)"
proof -
  have ap: "apart h cs" using inv by (simp add: heap_inv_def)
  have "a \<in> free_bytes h cs" using iv n by auto
  then obtain b where b: "b \<in> set cs" "b \<le> a" "a < block_end h b" by (auto simp: free_bytes_def extent_def)
  have "a + 16 * n \<le> block_end h b"
  proof (rule ccontr)
    assume "\<not> a + 16 * n \<le> block_end h b"
    then have "block_end h b \<in> free_bytes h cs" using iv b(3) by auto
    then obtain c where c: "c \<in> set cs" "c \<le> block_end h b" "block_end h b < block_end h c" by (auto simp: free_bytes_def extent_def)
    then show False using apart_order[OF ap c(1) b(1)] b by (cases "c = b") auto
  qed
  then show thesis using that[OF b(1)] b(2) by (simp add: block_end_def)
qed

lemma free_more: "free k ap h = Some h' \<Longrightarrow> k \<le> m \<Longrightarrow> free m ap h = Some h'"
proof -
  assume f: "free k ap h = Some h'" and m: "k \<le> m"
  then obtain p where p: "find_spot k (ap - 16) (freep h) h = Some p" "h' = join_block (ap - 16) p h" by (auto simp: free_def)
  show ?thesis using find_spot_more[OF p(1) m] p(2) by (simp add: free_def)
qed

text \<open>What a call of \<^verbatim>\<open>sbrk\<close> for \<open>n\<close> bytes may answer: failure, or a region above \<open>base\<close> that overlaps no byte of \<open>U\<close>.\<close>

definition sbrk_region :: "'e os \<Rightarrow> 'e \<Rightarrow> nat \<Rightarrow> nat set" where
  "sbrk_region os e n = (let a = ret_int (fst (os (Sys_sbrk (int n)) e)) in if a = -1 then {} else {nat a ..< nat a + n})"

definition sbrk_ok :: "'e os \<Rightarrow> 'e \<Rightarrow> heap \<Rightarrow> nat set \<Rightarrow> nat \<Rightarrow> bool" where
  "sbrk_ok os e h U n \<longleftrightarrow>
     (let a = ret_int (fst (os (Sys_sbrk (int n)) e)) in
      a = -1 \<or> int (hbase h) < a \<and> nat a + n \<le> 2 ^ 36 \<and> {nat a ..< nat a + n} \<inter> U = {})"

lemma size_outside:
  assumes inv: "heap_inv h cs" and a: "a \<notin> set (hbase h # cs)"
  shows "heap_inv (h\<lparr>hsize := (hsize h)(a := N)\<rparr>) cs" "free_bytes (h\<lparr>hsize := (hsize h)(a := N)\<rparr>) cs = free_bytes h cs"
proof -
  let ?h = "h\<lparr>hsize := (hsize h)(a := N)\<rparr>"
  have be: "hsize ?h c = hsize h c" "block_end ?h c = block_end h c" "extent ?h c = extent h c" if "c \<in> set (hbase h # cs)" for c
    using a that by (auto simp: block_end_def extent_def)
  have i: "links h (hbase h # cs) (hbase h)" "apart h (hbase h # cs)" using inv by (simp_all add: heap_inv_def)
  have "links ?h (hbase h # cs) (hbase h)" by (rule links_cong[THEN iffD2, OF _ i(1)]) simp
  moreover have "apart ?h (hbase h # cs)" by (rule apart_cong[THEN iffD2, OF _ i(2)]) (rule be(1))
  moreover have "\<forall>c \<in> set cs. 0 < hsize ?h c \<and> block_end ?h c \<le> 2 ^ 36" "hsize ?h (hbase h) = 0"
    using inv be(1,2) by (auto simp: heap_inv_def)
  ultimately show "heap_inv ?h cs" using inv by (simp add: heap_inv_def)
  show "free_bytes ?h cs = free_bytes h cs" using be(3) by (simp add: free_bytes_def)
qed

lemma own_free: "heap_inv h cs \<Longrightarrow> c \<in> set cs \<Longrightarrow> c \<in> free_bytes h cs"
  by (auto simp: heap_inv_def free_bytes_def extent_def block_end_def word_gt_0 unat_gt_0 intro!: bexI[of _ c])

lemma sbrk_arg:
  assumes "16 * max 4096 (unat nu) < 2 ^ 31"
  shows "sint (of_nat (unat (if nu < 4096 then 4096 else nu) * 16) :: u32) = int (16 * max 4096 (unat (nu :: u32)))"
proof -
  have u: "unat (if nu < 4096 then 4096 else nu) = max 4096 (unat nu)" by (simp add: max_def word_less_nat_alt)
  show ?thesis unfolding u using assms sint_of_int_u32[of "int (16 * max 4096 (unat nu))"] by (simp add: mult.commute)
qed

lemma morecore_ok:
  assumes inv: "heap_inv h cs" and n: "16 * max 4096 (unat nu) < 2 ^ 31"
    and os: "sbrk_ok os e h (free_bytes h cs) (16 * max 4096 (unat nu))"
    and more: "ret_int (fst (os (Sys_sbrk (int (16 * max 4096 (unat nu)))) e)) \<noteq> -1"
  obtains h' ds where "heap_inv h' ds" "hbase h' = hbase h" "freep h' \<noteq> 0"
    "free_bytes h' ds = free_bytes h cs \<union> sbrk_region os e (16 * max 4096 (unat nu))"
    "\<And>k. length cs + 2 \<le> k \<Longrightarrow>
       morecore k nu os (h, e) = Ret (freep h') (h', snd (os (Sys_sbrk (int (16 * max 4096 (unat nu)))) e))"
proof -
  define N where "N = (if nu < 4096 then 4096 else nu)"
  have uN: "unat N = max 4096 (unat nu)" by (simp add: N_def max_def word_less_nat_alt)
  define a where "a = nat (ret_int (fst (os (Sys_sbrk (int (16 * unat N))) e)))"
  note sx = sbrk_arg[OF n, folded N_def uN]
  let ?h = "h\<lparr>hsize := (hsize h)(a := N)\<rparr>"
  have A: "hbase h < a" "a + 16 * unat N \<le> 2 ^ 36" "{a ..< a + 16 * unat N} \<inter> free_bytes h cs = {}"
    using os more unfolding sbrk_ok_def Let_def uN[symmetric] a_def by auto
  have reg: "sbrk_region os e (16 * unat N) = {a ..< a + 16 * unat N}" using more by (simp add: sbrk_region_def uN a_def Let_def)
  have N: "0 < unat N" using uN by simp
  then have "a \<in> {a ..< a + 16 * unat N}" by simp
  then have "a \<notin> set cs" using own_free[OF inv, of a] A(3) by blast
  then have "a \<notin> set (hbase h # cs)" using A(1) by simp
  note i = size_outside[OF inv this, of N]
  have ea: "extent ?h a = {a ..< a + 16 * unat N}" "block_end ?h a = a + 16 * unat N" "0 < hsize ?h a"
    using N by (simp_all add: extent_def block_end_def word_gt_0 unat_gt_0)
  have "\<exists>h' ds. free (length cs + 2) (a + 16) ?h = Some h' \<and> heap_inv h' ds \<and> hbase h' = hbase ?h \<and>
      free_bytes h' ds = free_bytes ?h cs \<union> extent ?h a"
    by (rule free_ok[OF i(1) ea(3)]) (use A ea(1,2) i(2) in auto)
  then obtain h' ds where h': "free (length cs + 2) (a + 16) ?h = Some h'" "heap_inv h' ds" "hbase h' = hbase h"
      "free_bytes h' ds = free_bytes h cs \<union> {a ..< a + 16 * unat N}"
    unfolding i(2) ea(1) by auto
  have "0 < x" if "x \<in> set (hbase h' # ds)" for x using h'(2) that by (auto simp: heap_inv_def)
  then have f: "freep h' \<noteq> 0" using h'(2) unfolding heap_inv_def by blast
  show thesis
  proof (rule that[OF h'(2,3) f, unfolded uN[symmetric] reg, OF h'(4)])
    fix k assume "length cs + 2 \<le> k"
    from free_more[OF h'(1) this] have "free k (a + 16) ?h = Some h'" .
    then show "morecore k nu os (h, e) = Ret (freep h') (h', snd (os (Sys_sbrk (int (16 * unat N))) e))"
      unfolding morecore_def N_def[symmetric] Let_def sx using more unfolding uN[symmetric] by (simp add: case_prod_beta a_def)
  qed
qed

section \<open>The allocator as a set of free bytes\<close>

definition units :: "u32 \<Rightarrow> nat" where
  "units nbytes = (unat nbytes + 15) div 16 + 1"

text \<open>
  (C32) \<^verbatim>\<open>free\<close> on a block that overlaps no free byte ends, keeps the free list in order with no two touching blocks, and adds exactly
  the bytes of the block to the set of free bytes.
\<close>

theorem free_adds_block:
  assumes "heap_inv h cs" "0 < hsize h bp" "bp + 16 * unat (hsize h bp) \<le> 2 ^ 36" "hbase h < bp"
    "{bp ..< bp + 16 * unat (hsize h bp)} \<inter> free_bytes h cs = {}" "length cs + 2 \<le> k"
  shows "\<exists>h' ds. free k (bp + 16) h = Some h' \<and> heap_inv h' ds \<and>
    free_bytes h' ds = free_bytes h cs \<union> {bp ..< bp + 16 * unat (hsize h bp)}"
  using free_ok[of h cs bp k] assms by (auto simp: extent_def block_end_def)

text \<open>A heap whose only free block, of 4096 units, lies at address \<open>8192\<close>, behind an allocated block of two units.\<close>

definition demo_heap :: heap where
  "demo_heap = \<lparr>hptr = (\<lambda>p. if p = 4096 then 8192 else 4096), hsize = (\<lambda>p. if p = 4096 then 0 else if p = 8192 then 4096 else 2),
     freep = 4096, hbase = 4096\<rparr>"

lemma demo_heap_inv: "heap_inv demo_heap [8192]" "free_bytes demo_heap [8192] = {8192 ..< 73728}"
  by (simp_all add: heap_inv_def demo_heap_def block_end_def free_bytes_def extent_def)

theorem free_adds_block_witness:
  "\<exists>h' ds. free 3 (8160 + 16) demo_heap = Some h' \<and> heap_inv h' ds \<and> free_bytes h' ds = {8192 ..< 73728} \<union> {8160 ..< 8192}"
proof -
  have s: "hsize demo_heap 8160 = 2" "hbase demo_heap = 4096" by (simp_all add: demo_heap_def)
  have dj: "{8160 ..< 8160 + 16 * unat (hsize demo_heap 8160)} \<inter> free_bytes demo_heap [8192] = {}"
    unfolding demo_heap_inv(2) s(1) by auto
  show ?thesis using free_adds_block[OF demo_heap_inv(1) _ _ _ dj, of 3] by (simp add: s demo_heap_inv(2))
qed

lemma units_word: "unat nbytes + 32 < 2 ^ 31 \<Longrightarrow> unat (of_nat ((unat nbytes + 16 - 1) div 16 + 1) :: u32) = units nbytes"
  by (subst unat_of_nat_u32) (auto simp: units_def)

lemma malloc_found:
  assumes inv: "heap_inv h cs" and n: "0 < n" and fit: "b \<in> set cs" "n \<le> hsize h b"
  obtains m r h' ds where "\<And>k. malloc_loop (m + Suc k) n (freep h) (hptr h (freep h)) os (h, e) = Ret r (h', e)" "16 \<le> r" "heap_inv h' ds"
    "{r - 16 ..< r - 16 + 16 * unat n} \<subseteq> free_bytes h cs" "free_bytes h' ds = free_bytes h cs - {r - 16 ..< r - 16 + 16 * unat n}"
proof -
  obtain m prevp p where p: "p \<in> set cs" "prevp \<in> set (hbase h # cs)" "hptr h prevp = p" "n \<le> hsize h p" and
    l: "\<And>k. malloc_loop (m + Suc k) n (freep h) (hptr h (freep h)) os (h, e) =
       Ret (fst (take_block n prevp p h)) (snd (take_block n prevp p h), e)"
    using malloc_fit[OF inv n fit] by metis
  obtain r h' where t: "take_block n prevp p h = (r, h')" by fastforce
  have ok: "16 \<le> r" "hsize h' (r - 16) = n" "extent h' (r - 16) \<subseteq> free_bytes h cs"
    "\<exists>ds. heap_inv h' ds \<and> free_bytes h' ds = free_bytes h cs - extent h' (r - 16)"
    using take_block_ok[OF inv p(1-3) n p(4) t] by blast+
  have "extent h' (r - 16) = {r - 16 ..< r - 16 + 16 * unat n}" using ok(2) by (simp add: extent_def block_end_def)
  then show thesis using that[of m r h'] l t ok by auto
qed

lemma morecore_fail:
  assumes n: "16 * max 4096 (unat nu) < 2 ^ 31" and f: "ret_int (fst (os (Sys_sbrk (int (16 * max 4096 (unat nu)))) e)) = -1"
  shows "morecore k nu os (h, e) = Ret 0 (h, snd (os (Sys_sbrk (int (16 * max 4096 (unat nu)))) e))"
  using f sbrk_arg[OF n] by (simp add: morecore_def Let_def case_prod_beta)

lemma malloc_grown:
  assumes inv: "heap_inv h cs" and n: "0 < n" "16 * max 4096 (unat n) < 2 ^ 31" and full: "\<forall>b \<in> set cs. hsize h b < n"
    and os: "sbrk_ok os e h (free_bytes h cs) (16 * max 4096 (unat n))"
    and more: "ret_int (fst (os (Sys_sbrk (int (16 * max 4096 (unat n)))) e)) \<noteq> -1"
  obtains K r h' e' ds where "\<And>k. K \<le> k \<Longrightarrow> malloc_loop k n (freep h) (hptr h (freep h)) os (h, e) = Ret r (h', e')" "16 \<le> r" "heap_inv h' ds"
    "{r - 16 ..< r - 16 + 16 * unat n} \<subseteq> free_bytes h cs \<union> sbrk_region os e (16 * max 4096 (unat n))"
    "free_bytes h' ds = (free_bytes h cs \<union> sbrk_region os e (16 * max 4096 (unat n))) - {r - 16 ..< r - 16 + 16 * unat n}"
proof -
  let ?F = "free_bytes h cs \<union> sbrk_region os e (16 * max 4096 (unat n))" and ?e = "snd (os (Sys_sbrk (int (16 * max 4096 (unat n)))) e)"
  obtain m where m: "\<And>k. malloc_loop (m + Suc k) n (freep h) (hptr h (freep h)) os (h, e) =
       bnd (morecore k n os (h, e)) (\<lambda>p s. if p = 0 then Ret 0 s else malloc_loop k n p (hptr (fst s) p) os s)"
    using malloc_full[OF inv n(1) full] by metis
  obtain h1 ds1 where 1: "heap_inv h1 ds1" "freep h1 \<noteq> 0" "free_bytes h1 ds1 = ?F"
      "\<And>k. length cs + 2 \<le> k \<Longrightarrow> morecore k n os (h, e) = Ret (freep h1) (h1, ?e)"
    by (rule morecore_ok[OF inv n(2) os more]) blast
  obtain b where b: "b \<in> set ds1" "n \<le> hsize h1 b"
  proof -
    define a where "a = nat (ret_int (fst (os (Sys_sbrk (int (16 * max 4096 (unat n)))) e)))"
    have "{a ..< a + 16 * max 4096 (unat n)} \<subseteq> free_bytes h1 ds1" unfolding 1(3) using more by (simp add: sbrk_region_def Let_def a_def)
    then obtain b where "b \<in> set ds1" "max 4096 (unat n) \<le> unat (hsize h1 b)" by (rule one_block[OF 1(1), rotated]) auto
    then show thesis using that[of b] by (simp add: word_le_nat_alt)
  qed
  obtain m2 r h' ds where 2: "\<And>k. malloc_loop (m2 + Suc k) n (freep h1) (hptr h1 (freep h1)) os (h1, ?e) = Ret r (h', ?e)" "16 \<le> r" "heap_inv h' ds"
    "{r - 16 ..< r - 16 + 16 * unat n} \<subseteq> ?F" "free_bytes h' ds = ?F - {r - 16 ..< r - 16 + 16 * unat n}"
    using malloc_found[OF 1(1) n(1) b, unfolded 1(3)] by metis
  show thesis
  proof (rule that[OF _ 2(2-5)])
    fix k assume k: "m + Suc (length cs + 2 + Suc m2) \<le> k"
    define j where "j = k - m - 1"
    have j: "k = m + Suc j" "length cs + 2 \<le> j" "j = m2 + Suc (j - m2 - 1)" using k by (simp_all add: j_def)
    show "malloc_loop k n (freep h) (hptr h (freep h)) os (h, e) = Ret r (h', ?e)"
      unfolding j(1) m 1(4)[OF j(2)] using 1(2) 2(1)[of "j - m2 - 1"] j(3) by simp
  qed
qed

text \<open>
  (C31) \<^verbatim>\<open>malloc\<close> of less than about \<open>2 ^ 31\<close> bytes ends. It returns a block of whole units, header included, that comes from the
  free bytes or from the region that \<^verbatim>\<open>sbrk\<close> has just granted and that overlaps nothing in use (\<open>U\<close>), and exactly this block leaves the
  set of free bytes; or it returns the null pointer, when \<^verbatim>\<open>sbrk\<close> has failed, and the set of free bytes is the same.
\<close>

theorem malloc_takes_block:
  assumes inv: "heap_inv (start_list h) cs" and F: "F = free_bytes (start_list h) cs" and U: "U \<inter> F = {}"
    and nb: "unat nbytes + 32 < 2 ^ 31" and n: "n = 16 * max 4096 (units nbytes)" and os: "sbrk_ok os e (start_list h) (F \<union> U) n"
  shows "\<exists>K. \<forall>k \<ge> K. runs (malloc k nbytes os (h, e)) (\<lambda>r (h', e'). \<exists>ds G. heap_inv h' ds \<and> G \<in> {{}, sbrk_region os e n} \<and>
    (if r = 0 then free_bytes h' ds = F \<and> ret_int (fst (os (Sys_sbrk (int n)) e)) = -1
     else 16 \<le> r \<and> {r - 16 ..< r - 16 + 16 * units nbytes} \<subseteq> F \<union> G \<and> {r - 16 ..< r - 16 + 16 * units nbytes} \<inter> U = {} \<and>
       free_bytes h' ds = (F \<union> G) - {r - 16 ..< r - 16 + 16 * units nbytes}))"
proof -
  define h0 where "h0 = start_list h"
  define w where "w = (of_nat ((unat nbytes + 16 - 1) div 16 + 1) :: u32)"
  have uw: "unat w = units nbytes" unfolding w_def by (rule units_word[OF nb])
  then have w: "0 < w" "16 * max 4096 (unat w) < 2 ^ 31" using nb by (auto simp: units_def word_gt_0 unat_gt_0[symmetric])
  have m: "malloc k nbytes os (h, e) = malloc_loop k w (freep h0) (hptr h0 (freep h0)) os (h0, e)" for k
    by (simp add: malloc_def w_def h0_def Let_def)
  note inv0 = inv[folded h0_def] and F0 = F[folded h0_def] and os0 = os[folded h0_def] and n0 = n[folded uw]
  have region: "sbrk_region os e n \<inter> U = {}" using os by (auto simp: sbrk_ok_def sbrk_region_def Let_def)
  have os1: "sbrk_ok os e h0 (free_bytes h0 cs) (16 * max 4096 (unat w))" using os0 F0 n0 by (auto simp: sbrk_ok_def Let_def)
  have result: ?thesis if ret: "\<And>k. K \<le> k \<Longrightarrow> malloc k nbytes os (h, e) = Ret r (h', e')" and "heap_inv h' ds" "G \<in> {{}, sbrk_region os e n}"
      "if r = 0 then free_bytes h' ds = F \<and> ret_int (fst (os (Sys_sbrk (int n)) e)) = -1
       else 16 \<le> r \<and> {r - 16 ..< r - 16 + 16 * unat w} \<subseteq> F \<union> G \<and> {r - 16 ..< r - 16 + 16 * unat w} \<inter> U = {} \<and>
         free_bytes h' ds = (F \<union> G) - {r - 16 ..< r - 16 + 16 * unat w}" for K r h' e' ds G
  proof (intro exI[of _ K] allI impI, goal_cases)
    case (1 k)
    show ?case unfolding ret[OF 1] runs.simps prod.case uw[symmetric] using that(2-4) by (intro exI conjI)
  qed
  consider (fit) b where "b \<in> set cs" "w \<le> hsize h0 b"
    | (fail) "\<forall>b \<in> set cs. hsize h0 b < w" "ret_int (fst (os (Sys_sbrk (int n)) e)) = -1"
    | (more) "\<forall>b \<in> set cs. hsize h0 b < w" "ret_int (fst (os (Sys_sbrk (int n)) e)) \<noteq> -1" by (meson not_le)
  then show ?thesis
  proof cases
    case fit
    obtain j r h' ds where 1: "\<And>k. malloc_loop (j + Suc k) w (freep h0) (hptr h0 (freep h0)) os (h0, e) = Ret r (h', e)" "16 \<le> r"
      "heap_inv h' ds" "{r - 16 ..< r - 16 + 16 * unat w} \<subseteq> F" "free_bytes h' ds = F - {r - 16 ..< r - 16 + 16 * unat w}"
      using malloc_found[OF inv0 w(1) fit, folded F0] by metis
    have "malloc k nbytes os (h, e) = Ret r (h', e)" if "Suc j \<le> k" for k
      unfolding m using 1(1)[of "k - j - 1"] that by simp
    moreover have "r \<noteq> 0" "{r - 16 ..< r - 16 + 16 * unat w} \<inter> U = {}" using 1(2,4) U by auto
    ultimately show ?thesis using 1(2-5) by (intro result[of "Suc j" r h' e ds "{}"]) simp_all
  next
    case fail
    obtain j where 1: "\<And>k. malloc_loop (j + Suc k) w (freep h0) (hptr h0 (freep h0)) os (h0, e) =
       bnd (morecore k w os (h0, e)) (\<lambda>p s. if p = 0 then Ret 0 s else malloc_loop k w p (hptr (fst s) p) os s)"
      using malloc_full[OF inv0 w(1) fail(1)] by metis
    have "malloc k nbytes os (h, e) = Ret 0 (h0, snd (os (Sys_sbrk (int n)) e))" if "Suc j \<le> k" for k
      unfolding m using 1[of "k - j - 1"] that morecore_fail[OF w(2), folded n0, of os e, OF fail(2)] by simp
    then show ?thesis using fail(2) inv0 F0 by (intro result[of "Suc j" 0 h0 "snd (os (Sys_sbrk (int n)) e)" cs "{}"]) simp_all
  next
    case more
    obtain K r h' e' ds where 1: "\<And>k. K \<le> k \<Longrightarrow> malloc_loop k w (freep h0) (hptr h0 (freep h0)) os (h0, e) = Ret r (h', e')" "16 \<le> r"
      "heap_inv h' ds" "{r - 16 ..< r - 16 + 16 * unat w} \<subseteq> F \<union> sbrk_region os e n"
      "free_bytes h' ds = (F \<union> sbrk_region os e n) - {r - 16 ..< r - 16 + 16 * unat w}"
      by (rule malloc_grown[of h0 cs w os e, OF inv0 w more(1) os1, folded n0 F0, OF more(2)]) (rule that; assumption)
    moreover have "r \<noteq> 0" "{r - 16 ..< r - 16 + 16 * unat w} \<inter> U = {}" using 1(2,4) U region by auto
    ultimately show ?thesis using m by (intro result[of K r h' e' ds "sbrk_region os e n"]) simp_all
  qed
qed

definition demo_sbrk :: "nat os" where
  "demo_sbrk c e = (case c of Sys_sbrk n \<Rightarrow> (RInt (int e), e + nat n) | _ \<Rightarrow> (RInt (-1), e))"

theorem malloc_takes_block_witness:
  "\<exists>k. runs (malloc k 100 demo_sbrk (demo_heap, 100000)) (\<lambda>r (h', e'). r \<noteq> 0 \<and> {r - 16 ..< r - 16 + 128} \<inter> {8160 ..< 8192} = {})"
proof -
  have s: "start_list demo_heap = demo_heap" "hbase demo_heap = 4096" by (simp_all add: start_list_def demo_heap_def)
  have u: "units 100 = 8" by (simp add: units_def)
  have U: "{8160 ..< 8192} \<inter> free_bytes demo_heap [8192] = {}" unfolding demo_heap_inv(2) by auto
  have r: "ret_int (fst (demo_sbrk (Sys_sbrk n) 100000)) = 100000" for n by (simp add: demo_sbrk_def)
  have os: "sbrk_ok demo_sbrk 100000 demo_heap (free_bytes demo_heap [8192] \<union> {8160 ..< 8192}) (16 * max 4096 (units 100))"
    unfolding sbrk_ok_def Let_def r demo_heap_inv(2) s u by auto
  have nb: "unat (100 :: u32) + 32 < 2 ^ 31" by simp
  note th = malloc_takes_block[of demo_heap "[8192]", unfolded s, OF demo_heap_inv(1) refl U nb refl os]
  then have "\<exists>k. runs (malloc k 100 demo_sbrk (demo_heap, 100000)) (\<lambda>r (h', e'). r \<noteq> 0 \<and> {r - 16 ..< r - 16 + 128} \<inter> {8160 ..< 8192} = {})"
    unfolding u r by (elim exE) (drule spec, drule mp, rule order_refl, rule exI, erule runs_mono, auto split: if_splits)
  then show ?thesis by blast
qed

end
