(* ===== verification/Virtio_Safe.thy ===== *)
theory Virtio_Safe
  imports Virtio
begin

text \<open>
  The disk driver with any number of processes, the device and the interrupt handler, as a transition system: every descriptor
  is free or belongs to one request, no panic is reached, and a request ends only after the device is done with it.
\<close>

section \<open>Allocating and freeing descriptors\<close>

definition freed :: "nat list \<Rightarrow> vdisk \<Rightarrow> vdisk" where
  "freed is s = s\<lparr>desc := (\<lambda>d. if d \<in> set is then no_desc else desc s d), dfree := (\<lambda>d. dfree s d \<or> d \<in> set is),
     vwakes := vwakes s @ replicate (length is) ChDiskFree\<rparr>"

definition taken :: "nat list \<Rightarrow> vdisk \<Rightarrow> vdisk" where
  "taken is s = s\<lparr>dfree := (\<lambda>d. dfree s d \<and> d \<notin> set is)\<rparr>"

lemma freed_simps [simp]:
  "freed [] s = s" "avail_ring (freed is s) = avail_ring s" "avail_idx (freed is s) = avail_idx s" "used_ring (freed is s) = used_ring s"
  "used_dev (freed is s) = used_dev s" "used_idx (freed is s) = used_idx s" "info_b (freed is s) = info_b s"
  "info_status (freed is s) = info_status s" "bdisk (freed is s) = bdisk s"
  by (auto simp: freed_def)

lemma free_desc_ok: "i < VNUM \<Longrightarrow> \<not> dfree s i \<Longrightarrow> free_desc i s = Ret () (freed [i] s)"
  by (auto simp: free_desc_def freed_def fun_eq_iff intro!: vdisk.equality)

lemma freed_freed: "freed js (freed [i] s) = freed (i # js) s"
  by (auto simp: freed_def fun_eq_iff intro!: vdisk.equality)

lemma free_descs_ok:
  "distinct is \<Longrightarrow> \<forall>i \<in> set is. i < VNUM \<and> \<not> dfree s i \<Longrightarrow> free_descs is s = Ret () (freed is s)"
proof (induction "is" arbitrary: s)
  case (Cons i "is")
  have "\<forall>j \<in> set is. j < VNUM \<and> \<not> dfree (freed [i] s) j" using Cons.prems by (auto simp: freed_def)
  then show ?case using Cons by (simp add: free_desc_ok freed_freed)
qed simp

lemma alloc_desc_cases:
  "(\<exists>i. i < VNUM \<and> dfree s i \<and> alloc_desc s = (Some i, taken [i] s)) \<or> ((\<forall>i < VNUM. \<not> dfree s i) \<and> alloc_desc s = (None, s))"
proof (cases "find (dfree s) [0..<VNUM]")
  case None
  then have "\<forall>i < VNUM. \<not> dfree s i" by (simp add: find_None_iff)
  then show ?thesis using None by (simp add: alloc_desc_def)
next
  case (Some i)
  then have "i < VNUM" "dfree s i" using find_SomeD[OF Some] by auto
  moreover have "s\<lparr>dfree := (dfree s)(i := False)\<rparr> = taken [i] s" by (auto simp: taken_def fun_eq_iff intro!: vdisk.equality)
  ultimately show ?thesis using Some by (auto simp: alloc_desc_def)
qed

lemma taken_taken: "taken js (taken [i] s) = taken (i # js) s"
  by (auto simp: taken_def fun_eq_iff intro!: vdisk.equality)

lemma alloc_loop_ok:
  assumes "distinct idx" "\<forall>i \<in> set idx. i < VNUM \<and> \<not> dfree s i"
  shows "(\<exists>new. length new = n \<and> distinct (idx @ new) \<and> (\<forall>i \<in> set new. i < VNUM \<and> dfree s i) \<and>
            alloc_loop n idx s = Ret (Some (idx @ new)) (taken new s)) \<or>
         (\<exists>new. distinct (idx @ new) \<and> (\<forall>i \<in> set new. i < VNUM \<and> dfree s i) \<and>
            alloc_loop n idx s = Ret None (freed (idx @ new) (taken new s)))"
  using assms
proof (induction n arbitrary: idx s)
  case 0
  have "taken [] s = s" by (simp add: taken_def)
  then show ?case using 0 by simp
next
  case (Suc n)
  consider i where "i < VNUM" "dfree s i" "alloc_desc s = (Some i, taken [i] s)" | "alloc_desc s = (None, s)"
    using alloc_desc_cases[of s] by blast
  then show ?case
  proof cases
    case 1
    have d: "distinct (idx @ [i])" "\<forall>x \<in> set (idx @ [i]). x < VNUM \<and> \<not> dfree (taken [i] s) x"
      using Suc.prems 1 by (auto simp: taken_def)
    have l: "alloc_loop (Suc n) idx s = alloc_loop n (idx @ [i]) (taken [i] s)" using 1(3) by simp
    from Suc.IH[OF d] show ?thesis
    proof (elim disjE exE conjE, goal_cases)
      case (1 new)
      have "\<forall>x \<in> set new. x < VNUM \<and> dfree s x" using 1 by (auto simp: taken_def)
      then show ?case using 1 \<open>i < VNUM\<close> \<open>dfree s i\<close> unfolding l by (intro disjI1 exI[of _ "i # new"]) (simp add: taken_taken)
    next
      case (2 new)
      have "\<forall>x \<in> set new. x < VNUM \<and> dfree s x" using 2 by (auto simp: taken_def)
      then show ?case using 2 \<open>i < VNUM\<close> \<open>dfree s i\<close> unfolding l by (intro disjI2 exI[of _ "i # new"]) (simp add: taken_taken)
    qed
  next
    case 2
    have "taken [] s = s" by (simp add: taken_def)
    then show ?thesis using 2 free_descs_ok[OF Suc.prems] Suc.prems(1) by (intro disjI2 exI[of _ "[]"]) simp
  qed
qed

lemma alloc3_ok:
  "(\<exists>i j k. distinct [i, j, k] \<and> (\<forall>x \<in> {i, j, k}. x < VNUM \<and> dfree s x) \<and> alloc3_desc s = Ret (Some [i, j, k]) (taken [i, j, k] s)) \<or>
   (\<exists>new. (\<forall>x \<in> set new. x < VNUM \<and> dfree s x) \<and> alloc3_desc s = Ret None (freed new (taken new s)))"
proof -
  have "distinct []" "\<forall>i \<in> set []. i < VNUM \<and> \<not> dfree s i" by simp_all
  from alloc_loop_ok[OF this, of 3]
  consider (ok) new where "length new = 3" "distinct new" "\<forall>i \<in> set new. i < VNUM \<and> dfree s i" "alloc3_desc s = Ret (Some new) (taken new s)"
    | (full) new where "\<forall>i \<in> set new. i < VNUM \<and> dfree s i" "alloc3_desc s = Ret None (freed new (taken new s))"
    unfolding alloc3_desc_def by auto
  then show ?thesis
  proof cases
    case ok
    obtain i j k where "new = [i, j, k]" using ok(1) by (auto simp: numeral_3_eq_3 length_Suc_conv)
    then show ?thesis using ok by auto
  next
    case full
    then show ?thesis by blast
  qed
qed

lemma bit0_flags: "(1 :: u16) AND 1 \<noteq> 0" "(0 OR 1 :: u16) AND 1 \<noteq> 0" "(2 OR 1 :: u16) AND 1 \<noteq> 0" "(2 :: u16) AND 1 = 0"
  by simp_all

section \<open>The system\<close>

text \<open>
  \<open>fl\<close> holds the local array \<^verbatim>\<open>idx\<close> of every process inside \<^verbatim>\<open>virtio_disk_rw\<close>, by its buffer, which no other process uses. The device has
  its own position \<open>lastav\<close> in the available ring and works on the chains \<open>pend\<close>.
\<close>

record vsys =
  vd :: vdisk
  fl :: "nat \<rightharpoonup> nat list"
  pend :: "nat list"
  lastav :: u16

text \<open>The device ends the chain \<open>h\<close>: it stores 0 where the third descriptor points and adds the chain to the used ring.\<close>

definition dev_done :: "nat \<Rightarrow> vdisk \<Rightarrow> vdisk option" where
  "dev_done h s =
     (let j = unat (d_next (desc s h)); k = unat (d_next (desc s j)) in
      case d_addr (desc s k) of
        StatusAddr i \<Rightarrow> Some (s\<lparr>info_status := (info_status s)(i := 0),
          used_ring := (used_ring s)(unat (used_dev s) mod VNUM := of_nat h), used_dev := used_dev s + 1\<rparr>)
      | _ \<Rightarrow> None)"

inductive vstep :: "vsys \<Rightarrow> vsys \<Rightarrow> bool" where
  start: "fl s b = None \<Longrightarrow> rw_start b blockno wr (vd s) = Ret idx d \<Longrightarrow> vstep s (s\<lparr>vd := d, fl := (fl s)(b \<mapsto> idx)\<rparr>)"
| full: "fl s b = None \<Longrightarrow> rw_start b blockno wr (vd s) = Sleep c d \<Longrightarrow> vstep s (s\<lparr>vd := d\<rparr>)"
| fetch: "lastav s \<noteq> avail_idx (vd s) \<Longrightarrow>
    vstep s (s\<lparr>pend := unat (avail_ring (vd s) (unat (lastav s) mod VNUM)) # pend s, lastav := lastav s + 1\<rparr>)"
| finish_dev: "h \<in> set (pend s) \<Longrightarrow> dev_done h (vd s) = Some d \<Longrightarrow> vstep s (s\<lparr>vd := d, pend := remove1 h (pend s)\<rparr>)"
| intr: "virtio_disk_intr v (vd s) = Ret () d \<Longrightarrow> vstep s (s\<lparr>vd := d\<rparr>)"
| finish: "fl s b = Some idx \<Longrightarrow> rw_wait b idx (vd s) = Ret () d \<Longrightarrow> vstep s (s\<lparr>vd := d, fl := (fl s)(b := None)\<rparr>)"

definition vinit :: "vsys \<Rightarrow> bool" where
  "vinit s \<longleftrightarrow> (\<forall>d < VNUM. dfree (vd s) d) \<and> fl s = Map.empty \<and> pend s = [] \<and> lastav s = avail_idx (vd s) \<and> used_idx (vd s) = used_dev (vd s)"

inductive vreach :: "vsys \<Rightarrow> bool" where
  vr_init: "vinit s \<Longrightarrow> vreach s"
| vr_step: "vreach s \<Longrightarrow> vstep s t \<Longrightarrow> vreach t"

section \<open>The invariant\<close>

definition chain_ok :: "vdisk \<Rightarrow> nat \<Rightarrow> nat \<Rightarrow> nat \<Rightarrow> nat \<Rightarrow> bool" where
  "chain_ok d b i j k \<longleftrightarrow> distinct [i, j, k] \<and> i < VNUM \<and> j < VNUM \<and> k < VNUM \<and>
     d_flags (desc d i) AND 1 \<noteq> 0 \<and> d_next (desc d i) = of_nat j \<and> d_flags (desc d j) AND 1 \<noteq> 0 \<and> d_next (desc d j) = of_nat k \<and>
     d_flags (desc d k) AND 1 = 0 \<and> d_addr (desc d k) = StatusAddr i \<and> info_b d i = Some b"

definition avail_q :: "vsys \<Rightarrow> nat list" where
  "avail_q s = map unat (ring VNUM (avail_ring (vd s)) (lastav s) (avail_idx (vd s)))"

definition used_q :: "vdisk \<Rightarrow> nat list" where
  "used_q d = map unat (ring VNUM (used_ring d) (used_idx d) (used_dev d))"

text \<open>Every chain of a request that is not done is in exactly one place: the available ring, the device, or the used ring.\<close>

definition vinv :: "vsys \<Rightarrow> bool" where
  "vinv s \<longleftrightarrow>
     (\<forall>b idx. fl s b = Some idx \<longrightarrow> (\<exists>i j k. idx = [i, j, k] \<and> chain_ok (vd s) b i j k)) \<and>
     (\<forall>b c idx idy. fl s b = Some idx \<longrightarrow> fl s c = Some idy \<longrightarrow> b \<noteq> c \<longrightarrow> set idx \<inter> set idy = {}) \<and>
     (\<forall>d < VNUM. dfree (vd s) d \<longleftrightarrow> (\<forall>b idx. fl s b = Some idx \<longrightarrow> d \<notin> set idx)) \<and>
     distinct (avail_q s @ pend s @ used_q (vd s)) \<and>
     set (avail_q s @ pend s @ used_q (vd s)) = {i. \<exists>b j k. fl s b = Some [i, j, k] \<and> bdisk (vd s) b} \<and>
     (\<forall>h \<in> set (used_q (vd s)). info_status (vd s) h = 0)"

lemma vinv_init: "vinit s \<Longrightarrow> vinv s"
  by (simp add: vinit_def vinv_def avail_q_def used_q_def)

lemma vinvD:
  assumes "vinv s"
  shows "fl s b = Some idx \<Longrightarrow> \<exists>i j k. idx = [i, j, k] \<and> chain_ok (vd s) b i j k"
    "fl s b = Some idx \<Longrightarrow> fl s c = Some idy \<Longrightarrow> b \<noteq> c \<Longrightarrow> set idx \<inter> set idy = {}"
    "d < VNUM \<Longrightarrow> dfree (vd s) d \<longleftrightarrow> (\<forall>b idx. fl s b = Some idx \<longrightarrow> d \<notin> set idx)"
    "distinct (avail_q s @ pend s @ used_q (vd s))"
    "set (avail_q s @ pend s @ used_q (vd s)) = {i. \<exists>b j k. fl s b = Some [i, j, k] \<and> bdisk (vd s) b}"
    "h \<in> set (used_q (vd s)) \<Longrightarrow> info_status (vd s) h = 0"
  using assms unfolding vinv_def by blast+

lemma vinvI:
  assumes "\<And>b idx. fl s b = Some idx \<Longrightarrow> \<exists>i j k. idx = [i, j, k] \<and> chain_ok (vd s) b i j k"
    "\<And>b c idx idy. fl s b = Some idx \<Longrightarrow> fl s c = Some idy \<Longrightarrow> b \<noteq> c \<Longrightarrow> set idx \<inter> set idy = {}"
    "\<And>d. d < VNUM \<Longrightarrow> dfree (vd s) d \<longleftrightarrow> (\<forall>b idx. fl s b = Some idx \<longrightarrow> d \<notin> set idx)"
    "distinct (avail_q s @ pend s @ used_q (vd s))"
    "set (avail_q s @ pend s @ used_q (vd s)) = {i. \<exists>b j k. fl s b = Some [i, j, k] \<and> bdisk (vd s) b}"
    "\<And>h. h \<in> set (used_q (vd s)) \<Longrightarrow> info_status (vd s) h = 0"
  shows "vinv s"
  using assms unfolding vinv_def by (intro conjI) blast+

text \<open>Steps that leave the requests and their descriptors alone.\<close>

lemma vinv_frame:
  assumes inv: "vinv s" and fl: "fl t = fl s"
    and ch: "\<And>b i j k. fl s b = Some [i, j, k] \<Longrightarrow> chain_ok (vd s) b i j k \<Longrightarrow> chain_ok (vd t) b i j k"
    and fr: "\<And>d. d < VNUM \<Longrightarrow> dfree (vd t) d = dfree (vd s) d"
    and q: "distinct (avail_q t @ pend t @ used_q (vd t))"
    "set (avail_q t @ pend t @ used_q (vd t)) = {i. \<exists>b j k. fl s b = Some [i, j, k] \<and> bdisk (vd t) b}"
    "\<And>h. h \<in> set (used_q (vd t)) \<Longrightarrow> info_status (vd t) h = 0"
  shows "vinv t"
proof (rule vinvI)
  show "\<exists>i j k. idx = [i, j, k] \<and> chain_ok (vd t) b i j k" if "fl t b = Some idx" for b idx
    using vinvD(1)[OF inv, of b idx] that ch fl by auto
qed (use vinvD(2,3)[OF inv] fl fr q in auto)

lemma busy_desc:
  assumes "vinv s" "fl s b = Some idx" "x \<in> set idx"
  shows "x < VNUM" "\<not> dfree (vd s) x"
proof -
  obtain i j k where i: "idx = [i, j, k]" "chain_ok (vd s) b i j k" using vinvD(1)[OF assms(1,2)] by blast
  then show "x < VNUM" using assms(3) by (auto simp: chain_ok_def)
  then show "\<not> dfree (vd s) x" using vinvD(3)[OF assms(1), of x] assms(2,3) by blast
qed

lemma chain_ok_cong:
  "chain_ok d b i j k \<Longrightarrow> (\<And>x. x \<in> {i, j, k} \<Longrightarrow> desc d' x = desc d x) \<Longrightarrow> info_b d' i = info_b d i \<Longrightarrow> chain_ok d' b i j k"
  by (simp add: chain_ok_def)

lemma unat_small: "i < VNUM \<Longrightarrow> unat (of_nat i :: u16) = i" "i < VNUM \<Longrightarrow> unat (of_nat i :: u32) = i"
  by (simp_all add: unat_of_nat take_bit_eq_mod)

text \<open>A chain that has been queued belongs to a request.\<close>

lemma queued:
  assumes "vinv s" "h \<in> set (avail_q s @ pend s @ used_q (vd s))"
  obtains b j k where "fl s b = Some [h, j, k]" "bdisk (vd s) b" "chain_ok (vd s) b h j k" "h < VNUM"
proof -
  obtain b j k where b: "fl s b = Some [h, j, k]" "bdisk (vd s) b" using assms vinvD(5)[OF assms(1)] by blast
  then have "chain_ok (vd s) b h j k" using vinvD(1)[OF assms(1) b(1)] by simp
  then show thesis using that b by (simp add: chain_ok_def)
qed

lemma queue_room:
  assumes inv: "vinv s" and x: "x < VNUM" "x \<notin> A" and A: "A \<subseteq> set (avail_q s @ pend s @ used_q (vd s))"
  shows "card A < VNUM"
proof -
  have "A \<subseteq> {..<VNUM} - {x}" using queued[OF inv] A x(2) by blast
  then have "card A \<le> card ({..<VNUM} - {x})" by (intro card_mono) auto
  also have "\<dots> < VNUM" using x(1) by (subst card_Diff_singleton) auto
  finally show ?thesis .
qed

lemma full_inv:
  assumes inv: "vinv s" and r: "rw_start b blockno wr (vd s) = Sleep c d"
  shows "vinv (s\<lparr>vd := d\<rparr>) \<and> c = ChDiskFree"
proof -
  obtain new where new: "\<forall>x \<in> set new. x < VNUM \<and> dfree (vd s) x" "d = freed new (taken new (vd s))" "c = ChDiskFree"
    using alloc3_ok[of "vd s"] r by (auto simp: rw_start_def)
  have "chain_ok d b i j k" if "fl s b = Some [i, j, k]" "chain_ok (vd s) b i j k" for b i j k
  proof -
    have "x \<notin> set new" if "x \<in> {i, j, k}" for x
      using new(1) busy_desc(2)[OF inv \<open>fl s b = Some [i, j, k]\<close>, of x] that by auto
    then show ?thesis using that(2) by (intro chain_ok_cong[OF that(2)]) (auto simp: new(2) freed_def taken_def)
  qed
  moreover have "dfree d = dfree (vd s)" using new by (auto simp: freed_def taken_def fun_eq_iff)
  moreover have "avail_q (s\<lparr>vd := d\<rparr>) = avail_q s" "used_q d = used_q (vd s)" "bdisk d = bdisk (vd s)" "info_status d = info_status (vd s)"
    by (simp_all add: avail_q_def used_q_def new(2) taken_def)
  ultimately show ?thesis
    using vinvD(4-6)[OF inv] new(3) by (intro conjI vinv_frame[OF inv]) auto
qed

lemma fetch_inv:
  assumes inv: "vinv s" and ne: "lastav s \<noteq> avail_idx (vd s)"
  shows "vinv (s\<lparr>pend := unat (avail_ring (vd s) (unat (lastav s) mod VNUM)) # pend s, lastav := lastav s + 1\<rparr>)" (is "vinv ?t")
proof -
  have "(8 :: nat) dvd 2 ^ LENGTH(16)" by simp
  from ring_get[OF this ne, of "avail_ring (vd s)"]
  have q: "avail_q s = unat (avail_ring (vd s) (unat (lastav s) mod VNUM)) # avail_q ?t" by (simp add: avail_q_def)
  show ?thesis using vinvD(4-6)[OF inv] by (intro vinv_frame[OF inv]) (auto simp: q)
qed

lemma dev_done_ok:
  assumes "chain_ok d b h j k"
  shows "dev_done h d = Some (d\<lparr>info_status := (info_status d)(h := 0),
    used_ring := (used_ring d)(unat (used_dev d) mod VNUM := of_nat h), used_dev := used_dev d + 1\<rparr>)"
  using assms by (simp add: dev_done_def chain_ok_def unat_small)

lemma finish_dev_inv:
  assumes inv: "vinv s" and h: "h \<in> set (pend s)" and d: "dev_done h (vd s) = Some d"
  shows "vinv (s\<lparr>vd := d, pend := remove1 h (pend s)\<rparr>)" (is "vinv ?t")
proof -
  obtain b j k where b: "chain_ok (vd s) b h j k" "h < VNUM" by (rule queued[OF inv, of h]) (use h in auto)
  have d': "d = (vd s)\<lparr>info_status := (info_status (vd s))(h := 0),
      used_ring := (used_ring (vd s))(unat (used_dev (vd s)) mod VNUM := of_nat h), used_dev := used_dev (vd s) + 1\<rparr>"
    using d dev_done_ok[OF b(1)] by simp
  have dist: "distinct (used_q (vd s))" "h \<notin> set (used_q (vd s))" using vinvD(4)[OF inv] h by auto
  have "card (set (used_q (vd s))) < VNUM" by (rule queue_room[OF inv b(2) dist(2)]) auto
  then have n: "unat (used_dev (vd s) - used_idx (vd s)) < 8" using distinct_card[OF dist(1)] by (simp add: used_q_def)
  have "(8 :: nat) dvd 2 ^ LENGTH(16)" "(8 :: nat) < 2 ^ LENGTH(16)" by simp_all
  from ring_put[OF this n, of "used_ring (vd s)" "of_nat h"]
  have q: "used_q d = used_q (vd s) @ [h]" using b(2) by (simp add: used_q_def d' unat_small)
  have av: "avail_q ?t = avail_q s" by (simp add: avail_q_def d')
  have f: "bdisk d = bdisk (vd s)" "dfree d = dfree (vd s)" "desc d = desc (vd s)" "info_b d = info_b (vd s)"
    "info_status d = (info_status (vd s))(h := 0)" by (simp_all add: d')
  have D: "distinct (pend s)" using vinvD(4)[OF inv] by simp
  show ?thesis
  proof (rule vinv_frame[OF inv])
    show "distinct (avail_q ?t @ pend ?t @ used_q (vd ?t))" using vinvD(4)[OF inv] h by (auto simp: av q)
    have "set (avail_q ?t @ pend ?t @ used_q (vd ?t)) = set (avail_q s @ pend s @ used_q (vd s))" using h D by (auto simp: av q)
    then show "set (avail_q ?t @ pend ?t @ used_q (vd ?t)) = {i. \<exists>b j k. fl s b = Some [i, j, k] \<and> bdisk (vd ?t) b}"
      using vinvD(5)[OF inv] by (simp add: f)
  qed (use vinvD(6)[OF inv] in \<open>auto simp: f q chain_ok_def\<close>)
qed

text \<open>One pass of the interrupt handler.\<close>

lemma intr_pass:
  assumes inv: "vinv s" and ne: "used_idx (vd s) \<noteq> used_dev (vd s)"
  obtains b where "info_status (vd s) (unat (used_ring (vd s) (unat (used_idx (vd s)) mod VNUM))) = 0"
    "info_b (vd s) (unat (used_ring (vd s) (unat (used_idx (vd s)) mod VNUM))) = Some b"
    "vinv (s\<lparr>vd := (vd s)\<lparr>bdisk := (bdisk (vd s))(b := False), vwakes := vwakes (vd s) @ [ChBuf b], used_idx := used_idx (vd s) + 1\<rparr>\<rparr>)"
proof -
  let ?h = "unat (used_ring (vd s) (unat (used_idx (vd s)) mod VNUM))"
  have "(8 :: nat) dvd 2 ^ LENGTH(16)" by simp
  from ring_get[OF this ne, of "used_ring (vd s)"]
  have q: "used_q (vd s) = ?h # used_q ((vd s)\<lparr>bdisk := B, vwakes := W, used_idx := used_idx (vd s) + 1\<rparr>)" for B W
    by (simp add: used_q_def)
  have h: "?h \<in> set (used_q (vd s))" by (subst q) simp
  obtain b j k where b: "fl s b = Some [?h, j, k]" "bdisk (vd s) b" "chain_ok (vd s) b ?h j k"
    by (rule queued[OF inv, of ?h]) (use h in auto)
  define d where "d = (vd s)\<lparr>bdisk := (bdisk (vd s))(b := False), vwakes := vwakes (vd s) @ [ChBuf b], used_idx := used_idx (vd s) + 1\<rparr>"
  have f: "bdisk d = (bdisk (vd s))(b := False)" "dfree d = dfree (vd s)" "desc d = desc (vd s)" "info_b d = info_b (vd s)"
    "info_status d = info_status (vd s)" by (simp_all add: d_def)
  have qd: "used_q (vd s) = ?h # used_q d" unfolding d_def by (rule q)
  have av: "avail_q (s\<lparr>vd := d\<rparr>) = avail_q s" by (simp add: avail_q_def d_def)
  have other: "c = b" if "fl s c = Some [?h, j', k']" for c j' k'
    using vinvD(2)[OF inv b(1) that] by auto
  have D: "distinct (avail_q s @ pend s @ ?h # used_q d)" using vinvD(4)[OF inv] unfolding qd .
  have "set (avail_q s @ pend s @ used_q d) = set (avail_q s @ pend s @ used_q (vd s)) - {?h}" unfolding qd using D by auto
  also have "\<dots> = {i. \<exists>c j k. fl s c = Some [i, j, k] \<and> bdisk (vd s) c} - {?h}" unfolding vinvD(5)[OF inv] ..
  also have "\<dots> = {i. \<exists>c j k. fl s c = Some [i, j, k] \<and> bdisk d c}"
  proof (intro equalityI subsetI)
    fix x assume "x \<in> {i. \<exists>c j k. fl s c = Some [i, j, k] \<and> bdisk (vd s) c} - {?h}"
    then obtain c j' k' where c: "fl s c = Some [x, j', k']" "bdisk (vd s) c" "x \<noteq> ?h" by auto
    then have "c \<noteq> b" using b(1) by auto
    then show "x \<in> {i. \<exists>c j k. fl s c = Some [i, j, k] \<and> bdisk d c}" using c f(1) by auto
  next
    fix x assume "x \<in> {i. \<exists>c j k. fl s c = Some [i, j, k] \<and> bdisk d c}"
    then obtain c j' k' where c: "fl s c = Some [x, j', k']" "bdisk (vd s) c" "c \<noteq> b" using f(1) by (auto split: if_splits)
    then have "x \<noteq> ?h" using other by blast
    then show "x \<in> {i. \<exists>c j k. fl s c = Some [i, j, k] \<and> bdisk (vd s) c} - {?h}" using c by blast
  qed
  finally have S: "set (avail_q s @ pend s @ used_q d) = {i. \<exists>c j k. fl s c = Some [i, j, k] \<and> bdisk d c}" .
  have "vinv (s\<lparr>vd := d\<rparr>)"
  proof (rule vinv_frame[OF inv])
    show "chain_ok (vd (s\<lparr>vd := d\<rparr>)) c i j k" if "chain_ok (vd s) c i j k" for c i j k
      by (rule chain_ok_cong[OF that]) (simp_all add: f)
    show "info_status (vd (s\<lparr>vd := d\<rparr>)) x = 0" if "x \<in> set (used_q (vd (s\<lparr>vd := d\<rparr>)))" for x
      using vinvD(6)[OF inv, of x] that unfolding qd by (simp add: f)
  qed (use D S av f in simp_all)
  then show thesis using that[of b] b(3) vinvD(6)[OF inv h] unfolding d_def chain_ok_def by blast
qed

lemma intr_inv:
  assumes "vinv (s\<lparr>vd := d\<rparr>)"
  shows "runs (intr_loop d) (\<lambda>_ d'. vinv (s\<lparr>vd := d'\<rparr>))"
  using assms
proof (induction d rule: intr_loop.induct)
  case (1 d)
  show ?case
  proof (cases "used_idx d = used_dev d")
    case True
    then show ?thesis using 1(2) by (simp add: intr_loop.simps)
  next
    case False
    then have ne: "used_idx (vd (s\<lparr>vd := d\<rparr>)) \<noteq> used_dev (vd (s\<lparr>vd := d\<rparr>))" by simp
    obtain b where b: "info_status d (unat (used_ring d (unat (used_idx d) mod VNUM))) = 0"
      "info_b d (unat (used_ring d (unat (used_idx d) mod VNUM))) = Some b"
      "vinv (s\<lparr>vd := d\<lparr>bdisk := (bdisk d)(b := False), vwakes := vwakes d @ [ChBuf b], used_idx := used_idx d + 1\<rparr>\<rparr>)"
      by (rule intr_pass[OF 1(2) ne]) auto
    show ?thesis
      by (subst intr_loop.simps) (use 1(1)[OF False refl _ b(2,3)] False b(1,2) in \<open>simp add: Let_def\<close>)
  qed
qed

lemma queued_busy:
  assumes inv: "vinv s" and h: "h \<in> set (avail_q s @ pend s @ used_q (vd s))"
  shows "\<not> dfree (vd s) h"
proof -
  obtain b j k where "fl s b = Some [h, j, k]" by (rule queued[OF inv h])
  then show ?thesis by (rule busy_desc(2)[OF inv]) simp
qed

lemma format_chain:
  assumes "distinct [i, j, k]" "i < VNUM" "j < VNUM" "k < VNUM"
  shows "chain_ok (format_req b blockno wr i j k s) b i j k"
  using assms by (auto simp: chain_ok_def format_req_def wreg_def Let_def)

lemma format_parts:
  assumes "d = format_req b blockno wr i j k s"
  shows "x \<notin> {i, j, k} \<Longrightarrow> desc d x = desc s x" "info_b d = (info_b s)(i := Some b)" "info_status d = (info_status s)(i := 0xff)"
    "bdisk d = (bdisk s)(b := True)" "dfree d = dfree s" "used_q d = used_q s" "avail_idx d = avail_idx s + 1"
    "avail_ring d = (avail_ring s)(unat (avail_idx s) mod VNUM := of_nat i)"
  unfolding assms by (auto simp: format_req_def wreg_def Let_def used_q_def)

lemma heads_add:
  assumes b: "f b = None"
  shows "insert i {i. \<exists>c j k. f c = Some [i, j, k] \<and> B c} = {x. \<exists>c j' k'. (f(b \<mapsto> [i, j, k])) c = Some [x, j', k'] \<and> (B(b := True)) c}"
    (is "insert i ?A = ?C")
proof (intro equalityI subsetI)
  fix x assume "x \<in> insert i ?A"
  then consider "x = i" | c j' k' where "f c = Some [x, j', k']" "B c" by blast
  then show "x \<in> ?C"
  proof cases
    case 2
    then have "(f(b \<mapsto> [i, j, k])) c = Some [x, j', k']" "(B(b := True)) c" using b by auto
    then show ?thesis by blast
  qed auto
next
  fix x assume "x \<in> ?C"
  then obtain c j' k' where "(f(b \<mapsto> [i, j, k])) c = Some [x, j', k']" "(B(b := True)) c" by blast
  then show "x \<in> insert i ?A" by (cases "c = b") auto
qed

lemma start_inv:
  assumes inv: "vinv s" and b: "fl s b = None" and r: "rw_start b blockno wr (vd s) = Ret idx d"
  shows "vinv (s\<lparr>vd := d, fl := (fl s)(b \<mapsto> idx)\<rparr>)" (is "vinv ?t")
proof -
  obtain i j k where i: "idx = [i, j, k]" "distinct [i, j, k]" "\<forall>x \<in> {i, j, k}. x < VNUM \<and> dfree (vd s) x"
      "d = format_req b blockno wr i j k (taken [i, j, k] (vd s))"
    using alloc3_ok[of "vd s"] r by (auto simp: rw_start_def)
  note f = format_parts[OF i(4)]
  have tk: "desc (taken [i, j, k] (vd s)) = desc (vd s)" "info_b (taken [i, j, k] (vd s)) = info_b (vd s)"
      "info_status (taken [i, j, k] (vd s)) = info_status (vd s)" "bdisk (taken [i, j, k] (vd s)) = bdisk (vd s)"
      "used_q (taken [i, j, k] (vd s)) = used_q (vd s)" "avail_idx (taken [i, j, k] (vd s)) = avail_idx (vd s)"
      "avail_ring (taken [i, j, k] (vd s)) = avail_ring (vd s)" by (simp_all add: taken_def used_q_def)
  note f = f[unfolded tk]
  have i8: "i < VNUM" "i \<notin> set (avail_q s @ pend s @ used_q (vd s))" using i(3) queued_busy[OF inv, of i] by auto
  have dq: "distinct (avail_q s)" "i \<notin> set (avail_q s)" using vinvD(4)[OF inv] i8(2) by auto
  have "card (set (avail_q s)) < VNUM" by (rule queue_room[OF inv i8(1) dq(2)]) auto
  then have n: "unat (avail_idx (vd s) - lastav s) < 8" using distinct_card[OF dq(1)] by (simp add: avail_q_def)
  have "(8 :: nat) dvd 2 ^ LENGTH(16)" "(8 :: nat) < 2 ^ LENGTH(16)" by simp_all
  from ring_put[OF this n, of "avail_ring (vd s)" "of_nat i"]
  have av: "avail_q ?t = avail_q s @ [i]" using i8(1) by (simp add: avail_q_def f unat_small)
  have fresh: "x \<notin> {i, j, k}" if "fl s c = Some idy" "x \<in> set idy" for c idy x using busy_desc(2)[OF inv that] i(3) by auto
  show ?thesis
  proof (rule vinvI)
    show "\<exists>i j k. idx' = [i, j, k] \<and> chain_ok (vd ?t) c i j k" if "fl ?t c = Some idx'" for c idx'
    proof (cases "c = b")
      case True
      have "chain_ok d b i j k" using format_chain[OF i(2)] i(3,4) by simp
      then show ?thesis using that True i(1) by auto
    next
      case False
      then have c: "fl s c = Some idx'" using that by simp
      obtain i' j' k' where x: "idx' = [i', j', k']" "chain_ok (vd s) c i' j' k'" using vinvD(1)[OF inv c] by blast
      have "chain_ok d c i' j' k'" by (rule chain_ok_cong[OF x(2)]) (use f(1,2) fresh[OF c] x(1) in auto)
      then show ?thesis using x(1) by simp
    qed
    show "set idx' \<inter> set idy = {}" if "fl ?t c = Some idx'" "fl ?t e = Some idy" "c \<noteq> e" for c e idx' idy
      using that vinvD(2)[OF inv, of c idx' e idy] fresh[of c idx'] fresh[of e idy] i(1) by (auto split: if_splits)
    show "dfree (vd ?t) x \<longleftrightarrow> (\<forall>c idx. fl ?t c = Some idx \<longrightarrow> x \<notin> set idx)" if "x < VNUM" for x
      using vinvD(3)[OF inv that] b i(1) by (auto simp: f(5) taken_def)
    show "distinct (avail_q ?t @ pend ?t @ used_q (vd ?t))" using vinvD(4)[OF inv] i8(2) by (auto simp: av f)
    have "set (avail_q ?t @ pend ?t @ used_q (vd ?t)) = insert i (set (avail_q s @ pend s @ used_q (vd s)))" by (auto simp: av f)
    also have "\<dots> = {i. \<exists>c j k. fl ?t c = Some [i, j, k] \<and> bdisk (vd ?t) c}"
      unfolding vinvD(5)[OF inv] using heads_add[of "fl s" b, OF b, of i "bdisk (vd s)" j k] i(1) by (simp add: f(4) del: fun_upd_apply)
    finally show "set (avail_q ?t @ pend ?t @ used_q (vd ?t)) = {i. \<exists>c j k. fl ?t c = Some [i, j, k] \<and> bdisk (vd ?t) c}" .
    show "info_status (vd ?t) h = 0" if "h \<in> set (used_q (vd ?t))" for h
      using that vinvD(6)[OF inv, of h] i8(2) by (auto simp: f)
  qed
qed

lemma free_chain_ok:
  assumes c: "chain_ok d b i j k" and f: "\<not> dfree d i" "\<not> dfree d j" "\<not> dfree d k"
  shows "free_chain i (d\<lparr>info_b := B\<rparr>) = Ret () (freed [i, j, k] (d\<lparr>info_b := B\<rparr>))"
proof -
  let ?d = "d\<lparr>info_b := B\<rparr>"
  have "\<not> dfree (freed [i] ?d) j" "\<not> dfree (freed [i, j] ?d) k" "desc (freed [i] ?d) j = desc d j" "desc (freed [i, j] ?d) k = desc d k"
    using c f by (auto simp: freed_def chain_ok_def)
  moreover have "freed [j] (freed [i] ?d) = freed [i, j] ?d" "freed [k] (freed [i, j] ?d) = freed [i, j, k] ?d"
    by (auto simp: freed_def fun_eq_iff intro!: vdisk.equality)
  ultimately show ?thesis
    using c f by (simp add: free_chain_def chain_ok_def eval_nat_numeral free_desc_ok unat_small Let_def)
qed

lemma owners_drop:
  assumes b: "f b = Some idx" and x: "x \<notin> set idx"
  shows "(\<forall>c idy. (f(b := None)) c = Some idy \<longrightarrow> x \<notin> set idy) \<longleftrightarrow> (\<forall>c idy. f c = Some idy \<longrightarrow> x \<notin> set idy)"
proof (intro iffI allI impI)
  fix c idy assume a: "\<forall>c idy. (f(b := None)) c = Some idy \<longrightarrow> x \<notin> set idy" "f c = Some idy"
  show "x \<notin> set idy"
  proof (cases "c = b")
    case True
    then show ?thesis using b x a(2) by simp
  next
    case False
    then have "(f(b := None)) c = Some idy" using a(2) by simp
    then show ?thesis using a(1) by blast
  qed
qed (auto split: if_splits)

lemma finish_inv:
  assumes inv: "vinv s" and b: "fl s b = Some idx" "\<not> bdisk (vd s) b"
  obtains d where "rw_wait b idx (vd s) = Ret () d" "vinv (s\<lparr>vd := d, fl := (fl s)(b := None)\<rparr>)" "\<forall>x \<in> set idx. dfree d x"
proof -
  obtain i j k where i: "idx = [i, j, k]" "chain_ok (vd s) b i j k" using vinvD(1)[OF inv b(1)] by blast
  define d where "d = freed [i, j, k] ((vd s)\<lparr>info_b := (info_b (vd s))(i := None)\<rparr>)"
  let ?t = "s\<lparr>vd := d, fl := (fl s)(b := None)\<rparr>"
  have r: "rw_wait b idx (vd s) = Ret () d"
    unfolding rw_wait_def d_def using b(2) i(1) free_chain_ok[OF i(2)] busy_desc(2)[OF inv b(1)] by simp
  have f: "desc d = (\<lambda>x. if x \<in> {i, j, k} then no_desc else desc (vd s) x)" "info_b d = (info_b (vd s))(i := None)"
    "dfree d = (\<lambda>x. dfree (vd s) x \<or> x \<in> {i, j, k})" "bdisk d = bdisk (vd s)" "info_status d = info_status (vd s)"
    "used_q d = used_q (vd s)" "avail_q ?t = avail_q s"
    by (auto simp: d_def freed_def used_q_def avail_q_def)
  have other: "x \<notin> {i, j, k}" if "fl s c = Some idy" "c \<noteq> b" "x \<in> set idy" for c idy x
    using vinvD(2)[OF inv that(1) b(1) that(2)] i(1) that(3) by auto
  have "vinv ?t"
  proof (rule vinvI)
    show "\<exists>i j k. idx' = [i, j, k] \<and> chain_ok (vd ?t) c i j k" if "fl ?t c = Some idx'" for c idx'
    proof -
      have c: "fl s c = Some idx'" "c \<noteq> b" using that by (auto split: if_splits)
      obtain i' j' k' where x: "idx' = [i', j', k']" "chain_ok (vd s) c i' j' k'" using vinvD(1)[OF inv c(1)] by blast
      have "chain_ok d c i' j' k'" by (rule chain_ok_cong[OF x(2)]) (use f(1,2) other[OF c] x(1) in auto)
      then show ?thesis using x(1) by simp
    qed
    show "set idx' \<inter> set idy = {}" if "fl ?t c = Some idx'" "fl ?t e = Some idy" "c \<noteq> e" for c e idx' idy
      using that vinvD(2)[OF inv, of c idx' e idy] by (auto split: if_splits)
    show "dfree (vd ?t) x \<longleftrightarrow> (\<forall>c idx. fl ?t c = Some idx \<longrightarrow> x \<notin> set idx)" if "x < VNUM" for x
    proof (cases "x \<in> {i, j, k}")
      case True
      then have "fl ?t c = Some idx' \<Longrightarrow> x \<notin> set idx'" for c idx' using other[of c idx' x] by (auto split: if_splits)
      then show ?thesis using True by (auto simp: f(3))
    next
      case False
      then have "(\<forall>c idx. fl ?t c = Some idx \<longrightarrow> x \<notin> set idx) \<longleftrightarrow> (\<forall>c idx. fl s c = Some idx \<longrightarrow> x \<notin> set idx)"
        using owners_drop[of "fl s" b idx, OF b(1)] i(1) by (simp del: fun_upd_apply)
      then show ?thesis using False vinvD(3)[OF inv that] by (simp add: f(3))
    qed
    show "distinct (avail_q ?t @ pend ?t @ used_q (vd ?t))" using vinvD(4)[OF inv] by (simp add: f)
    have "set (avail_q ?t @ pend ?t @ used_q (vd ?t)) = set (avail_q s @ pend s @ used_q (vd s))" by (simp add: f)
    also have "\<dots> = {i. \<exists>c j k. fl ?t c = Some [i, j, k] \<and> bdisk (vd ?t) c}"
      unfolding vinvD(5)[OF inv] using b(2) by (auto simp: f(4) split: if_splits)
    finally show "set (avail_q ?t @ pend ?t @ used_q (vd ?t)) = {i. \<exists>c j k. fl ?t c = Some [i, j, k] \<and> bdisk (vd ?t) c}" .
    show "info_status (vd ?t) h = 0" if "h \<in> set (used_q (vd ?t))" for h
      using that vinvD(6)[OF inv, of h] by (simp add: f)
  qed
  then show thesis using that[OF r] i(1) f(3) by simp
qed

lemma wreg_inv:
  assumes inv: "vinv s"
  shows "vinv (s\<lparr>vd := wreg r v (vd s)\<rparr>)"
  by (rule vinv_frame[OF inv]) (use vinvD(4-6)[OF inv] in \<open>auto simp: wreg_def chain_ok_def avail_q_def used_q_def\<close>)

lemma vstep_inv: "vstep s t \<Longrightarrow> vinv s \<Longrightarrow> vinv t"
proof (induction rule: vstep.induct)
  case (start s b blockno wr idx d)
  then show ?case by (intro start_inv)
next
  case (full s b blockno wr c d)
  then show ?case using full_inv by blast
next
  case (fetch s)
  then show ?case by (intro fetch_inv)
next
  case (finish_dev h s d)
  then show ?case by (intro finish_dev_inv)
next
  case (intr v s d)
  from intr_inv[OF wreg_inv[OF intr(2), of "0x64" "v AND 3"]] show ?case using intr(1) by (simp add: virtio_disk_intr_def)
next
  case (finish s b idx d)
  then have "\<not> bdisk (vd s) b" by (auto simp: rw_wait_def split: if_splits)
  from finish_inv[OF finish(3,1) this] finish(2) show ?case by (metis res.inject(1))
qed

lemma vreach_inv: "vreach s \<Longrightarrow> vinv s"
  by (induction rule: vreach.induct) (use vinv_init vstep_inv in auto)

section \<open>Safety and progress\<close>


definition demo_vsys :: vsys where
  "demo_vsys = \<lparr>vd = \<lparr>desc = (\<lambda>_. no_desc), avail_ring = (\<lambda>_. 0), avail_idx = 0, used_ring = (\<lambda>_. 0), used_dev = 0, dfree = (\<lambda>_. True), used_idx = 0,
     info_b = (\<lambda>_. None), info_status = (\<lambda>_. 0), ops = (\<lambda>_. \<lparr>rq_type = 0, rq_sector = 0\<rparr>), bdisk = (\<lambda>_. False), vregs = [], vwakes = []\<rparr>,
     fl = Map.empty, pend = [], lastav = 0\<rparr>"

lemma demo_start:
  obtains d where "rw_start 5 10 True (vd demo_vsys) = Ret [0, 1, 2] d" "vreach (demo_vsys\<lparr>vd := d, fl := [5 \<mapsto> [0, 1, 2]]\<rparr>)"
proof -
  have "vinit demo_vsys" by (simp add: vinit_def demo_vsys_def)
  then have r: "vreach demo_vsys" by (rule vr_init)
  obtain d where d: "rw_start 5 10 True (vd demo_vsys) = Ret [0, 1, 2] d"
    by (simp add: rw_start_def alloc3_desc_def numeral_3_eq_3 alloc_desc_def demo_vsys_def upt_rec)
  have f: "fl demo_vsys = Map.empty" by (simp add: demo_vsys_def)
  have "vreach (demo_vsys\<lparr>vd := d, fl := (fl demo_vsys)(5 \<mapsto> [0, 1, 2])\<rparr>)" by (rule vr_step[OF r], rule start[OF _ d]) (simp add: f)
  then show thesis using that d by (simp add: f)
qed


text \<open>The device can fetch every available chain and end every chain that it has, and the interrupt handler empties the used ring.\<close>

lemma fetch_all: "vinv s \<Longrightarrow> \<exists>t. vstep\<^sup>*\<^sup>* s t \<and> vinv t \<and> fl t = fl s \<and> avail_q t = []"
proof (induction "length (avail_q s)" arbitrary: s)
  case 0
  then show ?case by auto
next
  case (Suc n)
  then have ne: "lastav s \<noteq> avail_idx (vd s)" by (auto simp: avail_q_def)
  let ?t = "s\<lparr>pend := unat (avail_ring (vd s) (unat (lastav s) mod VNUM)) # pend s, lastav := lastav s + 1\<rparr>"
  have "(8 :: nat) dvd 2 ^ LENGTH(16)" by simp
  from ring_get[OF this ne, of "avail_ring (vd s)"] have "n = length (avail_q ?t)" using Suc(2) by (simp add: avail_q_def)
  from Suc(1)[OF this fetch_inv[OF Suc(3) ne]] obtain t where "vstep\<^sup>*\<^sup>* ?t t" "vinv t" "fl t = fl s" "avail_q t = []" by auto
  then show ?case using converse_rtranclp_into_rtranclp[of vstep, OF fetch[OF ne]] by blast
qed

lemma finish_all: "vinv s \<Longrightarrow> avail_q s = [] \<Longrightarrow> \<exists>t. vstep\<^sup>*\<^sup>* s t \<and> vinv t \<and> fl t = fl s \<and> avail_q t = [] \<and> pend t = []"
proof (induction "length (pend s)" arbitrary: s)
  case 0
  then show ?case by auto
next
  case (Suc n)
  then obtain h where h: "h \<in> set (pend s)" by (cases "pend s") auto
  obtain b j k where c: "chain_ok (vd s) b h j k" by (rule queued[OF Suc(3), of h]) (use h in auto)
  obtain d where d: "dev_done h (vd s) = Some d" "avail_ring d = avail_ring (vd s)" "avail_idx d = avail_idx (vd s)" using dev_done_ok[OF c] by simp
  let ?t = "s\<lparr>vd := d, pend := remove1 h (pend s)\<rparr>"
  have "n = length (pend ?t)" "avail_q ?t = []" using Suc(2,4) h d(2,3) by (auto simp: length_remove1 avail_q_def)
  from Suc(1)[OF this(1) finish_dev_inv[OF Suc(3) h d(1)] this(2)]
  obtain t where "vstep\<^sup>*\<^sup>* ?t t" "vinv t" "fl t = fl s" "avail_q t = []" "pend t = []" by auto
  then show ?case using converse_rtranclp_into_rtranclp[of vstep, OF finish_dev[OF h d(1)]] by blast
qed

lemma intr_loop_empties: "intr_loop d = Ret u d' \<Longrightarrow> used_q d' = [] \<and> avail_ring d' = avail_ring d \<and> avail_idx d' = avail_idx d"
proof (induction d rule: intr_loop.induct)
  case (1 d)
  let ?id = "unat (used_ring d (unat (used_idx d) mod VNUM))"
  let ?d = "\<lambda>b. d\<lparr>bdisk := (bdisk d)(b := False), vwakes := vwakes d @ [ChBuf b], used_idx := used_idx d + 1\<rparr>"
  show ?case
  proof (cases "used_idx d = used_dev d")
    case True
    then show ?thesis using 1(2) by (simp add: intr_loop.simps used_q_def)
  next
    case False
    then obtain b where b: "info_status d ?id = 0" "info_b d ?id = Some b" "intr_loop (?d b) = Ret u d'"
      using 1(2) by (subst (asm) intr_loop.simps) (auto simp: Let_def split: if_splits option.splits)
    have "used_q d' = [] \<and> avail_ring d' = avail_ring (?d b) \<and> avail_idx d' = avail_idx (?d b)"
      by (rule 1(1)[OF False refl _ b(2,3)]) (simp add: b(1))
    then show ?thesis by simp
  qed
qed

text \<open>
  (C20) No request is lost: from every reachable state in which a process is inside \<^verbatim>\<open>virtio_disk_rw\<close> with a queued request, the device, the
  interrupt handler and that process can go on until its call returns.
\<close>

theorem virtio_disk_progress:
  assumes "vreach s" "fl s b = Some idx"
  shows "\<exists>t. vstep\<^sup>*\<^sup>* s t \<and> vreach t \<and> fl t b = None"
proof -
  obtain s1 where 1: "vstep\<^sup>*\<^sup>* s s1" "vinv s1" "fl s1 = fl s" "avail_q s1 = []" using fetch_all[OF vreach_inv[OF assms(1)]] by blast
  obtain s2 where 2: "vstep\<^sup>*\<^sup>* s1 s2" "vinv s2" "fl s2 = fl s" "avail_q s2 = []" "pend s2 = []" using finish_all[OF 1(2,4)] 1(3) by auto
  obtain d where d: "intr_loop (wreg 0x64 (0 AND 3) (vd s2)) = Ret () d" "vinv (s2\<lparr>vd := d\<rparr>)"
    using intr_inv[OF wreg_inv[OF 2(2), of "0x64" "0 AND 3"]] by (auto elim!: runsE)
  let ?s3 = "s2\<lparr>vd := d\<rparr>"
  have q: "used_q d = []" "avail_q ?s3 = []" using intr_loop_empties[OF d(1)] 2(4) by (auto simp: avail_q_def wreg_def)
  have 3: "vstep s2 ?s3" by (rule intr[of 0]) (use d(1) in \<open>simp add: virtio_disk_intr_def\<close>)
  have b: "fl ?s3 b = Some idx" using 2(3) assms(2) by simp
  obtain i j k where i: "idx = [i, j, k]" using vinvD(1)[OF d(2) b] by blast
  have "\<not> bdisk (vd ?s3) b" using vinvD(5)[OF d(2)] q 2(5) b i by auto
  from finish_inv[OF d(2) b this] obtain d' where d': "rw_wait b idx (vd ?s3) = Ret () d'" by blast
  let ?t = "?s3\<lparr>vd := d', fl := (fl ?s3)(b := None)\<rparr>"
  have "vstep\<^sup>*\<^sup>* s ?t" using 1(1) 2(1) 3 finish[OF b d'] by (meson rtranclp.rtrancl_into_rtrancl rtranclp_trans)
  moreover from this have "vreach ?t" by (induction rule: rtranclp_induct) (use assms(1) vr_step in blast)+
  ultimately show ?thesis by (intro exI[of _ ?t]) simp
qed

theorem virtio_disk_progress_witness:
  "\<exists>d t. rw_start 5 10 True (vd demo_vsys) = Ret [0, 1, 2] d \<and> vstep\<^sup>*\<^sup>* (demo_vsys\<lparr>vd := d, fl := [5 \<mapsto> [0, 1, 2]]\<rparr>) t \<and> fl t 5 = None"
proof -
  obtain d where d: "rw_start 5 10 True (vd demo_vsys) = Ret [0, 1, 2] d" "vreach (demo_vsys\<lparr>vd := d, fl := [5 \<mapsto> [0, 1, 2]]\<rparr>)" by (rule demo_start)
  show ?thesis using virtio_disk_progress[OF d(2), of 5 "[0, 1, 2]"] d(1) by auto
qed

end
