(* ===== verification/Spec2Isabelle.thy ===== *)
theory Spec2Isabelle
  imports Boot Mkfs_Sound Fs_Read Vm_Props Spinlock Pipe_Queue Printf Sh_Print Sh_Run Uprogs Umalloc Virtio_Safe
begin

text \<open>
  A verification of xv6 for RISC-V with memory-mapped files: the kernel (\<^verbatim>\<open>src/kernel\<close>), the user library and programs
  (\<^verbatim>\<open>src/user\<close>) and the program that builds the disk image (\<^verbatim>\<open>src/mkfs\<close>). The definitions are shallow: a C function is a HOL function on the
  state of its component, in the order in which the C code acts, with every early return, panic and error code a branch.

  \<^bold>\<open>The program and its parts.\<close> The kernel is a stack of layers. Physical memory is a map from addresses to bytes; the page allocator threads its
  free list through it, and page tables are trees of words in it. The disk is reached through a buffer cache, and changes go through a redo log that
  makes the writes of a system call atomic under a crash. Inodes, directories and path names lie over the log; open files, pipes
  and the console over these; processes, system calls and traps on top. User programs see only the system calls. The state follows the
  layers: the records \<open>kmem\<close>, \<open>bcache\<close>, \<open>log\<close>, \<open>fs\<close>, \<open>files\<close> and \<open>kern\<close> each contain or extend the one below, and \<open>on_bc\<close>, \<open>on_log\<close>, \<open>on_mem\<close>,
  \<open>on_fs\<close>, \<open>on_km\<close> run a routine of a lower layer on the state of a higher one.

  \<^bold>\<open>Outcomes.\<close> A kernel routine has an outcome of type \<open>res\<close> (theory \<open>Prelude\<close>): \<open>Ret\<close> with a value, \<open>Panic\<close> with the kernel's message, \<open>Sleep\<close> when
  the process must wait on a channel, \<open>Exit\<close> when it ends, and \<open>Diverge\<close> for a loop of the source that would run forever (a page or byte
  counter that wraps around) or whose fuel is spent. \<open>bnd\<close> sequences outcomes. \<open>runs m Q\<close> says that \<open>m\<close> returns and \<open>Q\<close> holds, \<open>sat m Q\<close> only that \<open>Q\<close> holds if it returns;
  the properties are stated with \<open>runs\<close> or as equations wherever the code returns. The sections between \<^verbatim>\<open>acquire\<close> and \<^verbatim>\<open>release\<close> of a
  spin lock are atomic: theory \<open>Spinlock\<close> justifies this for the lock itself. A wakeup is recorded by the layer that asks for it, and
  \<open>deliver\<close> hands the recorded wakeups to the process table.

  \<^bold>\<open>Machine integers\<close> are words of their C width, so additions wrap as in C; process identifiers, reference counts of files and the fields of
  the log header are C \<^verbatim>\<open>int\<close>s that the code only counts, and are integers. Pointers into the kernel's tables are indices, and physical pointers are addresses.

  \<^bold>\<open>The theories and the code.\<close>
  \<^item> \<open>Prelude\<close>: outcomes, words, little-endian bytes. \<open>Memory\<close>: \<^verbatim>\<open>kernel/string.c\<close>.
  \<^item> \<open>Kalloc\<close>: \<^verbatim>\<open>kernel/kalloc.c\<close>; the locale \<open>page_allocator\<close> is its contract. A boot frees every page exactly once, and a freed page is the next one allocated.
  \<^item> \<open>Vm\<close>: \<^verbatim>\<open>kernel/vm.c\<close>. \<open>Vm_Tree\<close> gives page tables their meaning as trees and as a map from addresses to entries, \<open>Vm_Map\<close> and
    \<open>Vm_Copy\<close> reason about mapping and copying, \<open>Vm_Props\<close> has the properties: what \<^verbatim>\<open>mappages\<close>, \<^verbatim>\<open>uvmunmap\<close>, \<^verbatim>\<open>copyin\<close>, \<^verbatim>\<open>copyout\<close> and \<^verbatim>\<open>copyinstr\<close> do, on
    success and on every failure.
  \<^item> \<open>Spinlock\<close>, \<open>Sleeplock\<close>: \<^verbatim>\<open>kernel/spinlock.c\<close>, \<^verbatim>\<open>kernel/sleeplock.c\<close>; mutual exclusion in transition systems of processors and of processes, and the
    nesting of interrupt disabling.
  \<^item> \<open>Bio\<close>: \<^verbatim>\<open>kernel/bio.c\<close>; the locale \<open>buffer_cache\<close> is what the log relies on, and the cache refines a view of blocks with locks and
    reference counts. \<open>Log\<close>: \<^verbatim>\<open>kernel/log.c\<close>. \<open>Log_Crash\<close>: after a crash between any two writes of a commit, recovery gives all or nothing of the
    transaction, and may itself be interrupted; the reservation of log space suffices.
  \<^item> \<open>Virtio\<close>: \<^verbatim>\<open>kernel/virtio_disk.c\<close>. \<open>Virtio_Safe\<close>: the driver with any number of processes, the device and its interrupts; descriptors are never
    shared, no panic is reached, and a request can always make progress.
  \<^item> \<open>Fs\<close>, \<open>Fs_Content\<close>: \<^verbatim>\<open>kernel/fs.c\<close>. \<open>Fs_Store\<close>: the locale \<open>block_store\<close>, the contract of the cache under the log inside a transaction.
    \<open>Fs_Alloc\<close>: the block allocator. \<open>Fs_Read\<close>: reading a file.
  \<^item> \<open>Mkfs\<close>: \<^verbatim>\<open>mkfs/mkfs.c\<close>. \<open>Mkfs_Sound\<close>: the image is a consistent file system. The property that connects it to the kernel is below.
  \<^item> \<open>Ring\<close>: ring buffers with wrapping counters, and the locale \<open>fifo\<close>. \<open>Console\<close>: \<^verbatim>\<open>kernel/uart.c\<close>, \<^verbatim>\<open>kernel/console.c\<close>. \<open>Pipe\<close>, \<open>Pipe_Queue\<close>:
    \<^verbatim>\<open>kernel/pipe.c\<close> as byte queues. \<open>Digits\<close>, \<open>Printf\<close>: \<^verbatim>\<open>kernel/printf.c\<close>.
  \<^item> \<open>File\<close>: \<^verbatim>\<open>kernel/file.c\<close>. \<open>Vma\<close>: releasing mapped areas. \<open>Proc\<close>: \<^verbatim>\<open>kernel/proc.c\<close>. \<open>Exec\<close>: \<^verbatim>\<open>kernel/exec.c\<close> and the argument
    fetching of \<^verbatim>\<open>kernel/syscall.c\<close>. \<open>Sysfile\<close>: \<^verbatim>\<open>kernel/sysfile.c\<close> with \<^verbatim>\<open>mmap\<close>. \<open>Trap\<close>: \<^verbatim>\<open>kernel/sysproc.c\<close>, the dispatch and \<^verbatim>\<open>kernel/trap.c\<close>.
  \<^item> \<open>Proc_Table\<close>: every system call and trap keeps the process table well-formed and refines the life cycle of a process. A set of rules (\<open>keeps_intro\<close>)
    carries the routines that leave the table alone. \<open>Boot\<close>: \<^verbatim>\<open>kernel/start.c\<close>, \<^verbatim>\<open>kernel/main.c\<close>, \<^verbatim>\<open>kernel/plic.c\<close>.
  \<^item> \<open>User\<close>: \<^verbatim>\<open>user/ulib.c\<close> and the system call interface. \<open>Uprintf\<close>: \<^verbatim>\<open>user/printf.c\<close>. \<open>Umalloc\<close>: \<^verbatim>\<open>user/umalloc.c\<close>, an allocator of disjoint blocks. \<open>Grep\<close>,
    \<open>Uprogs\<close>: \<^verbatim>\<open>user/grep.c\<close> and the small programs. \<open>Sh\<close>, \<open>Sh_Parse\<close>, \<open>Sh_Print\<close>, \<open>Sh_Run\<close>: \<^verbatim>\<open>user/sh.c\<close>, its parser against a printer of commands, and the
    descriptors of a pipeline.

  \<^bold>\<open>Parameters.\<close> What is outside the sources is an argument: the addresses that the linker fixes, the content of uninitialised stack memory, what
  device registers return, the host files of \<^verbatim>\<open>mkfs\<close>, and, for user programs, the environment \<open>os\<close> that answers system calls. A disk transfer of the buffer
  cache is one step; that the driver does one transfer per request is the subject of \<open>Virtio_Safe\<close>.

  \<^bold>\<open>Loops and fuel.\<close> Kernel loops are structural or have a termination proof; the one exception is \<^verbatim>\<open>freewalk\<close>, which recurses through memory and has the three levels of a page
  table as its fuel. A user program's loop that ends only when the environment says so (reading until the end of a file, the shell's prompt), and the walks around the
  circular free list of \<open>Umalloc\<close>, take fuel: without it there is no result (\<open>Diverge\<close>, or \<open>None\<close> for \<open>free\<close>). The properties say how much is enough: more than the length of the input for \<open>grep\<close> and \<open>wc\<close>, some
  bound for every heap that satisfies the invariant for \<open>malloc\<close> and \<open>free\<close>. The shell's parser has fuel \<open>4 * length + 4\<close> for its recursion, and \<open>parsecmd_ends\<close> shows
  that this is enough on every line.

  \<^bold>\<open>What interleaves.\<close> Properties of single routines speak of one call that is not interleaved with others; where concurrency is the point, transition systems
  have the interleavings: processors on spin locks, processes on sleep locks, processes and the device in the disk driver, traps and the scheduler on the process
  table, and a crash after any disk write.

  \<^bold>\<open>Not modelled.\<close> The assembly (\<^verbatim>\<open>entry.S\<close>, \<^verbatim>\<open>swtch.S\<close>, \<^verbatim>\<open>trampoline.S\<close>, \<^verbatim>\<open>kernelvec.S\<close>, \<^verbatim>\<open>initcode.S\<close>, and what \<^verbatim>\<open>usys.pl\<close> generates), which saves registers and
  switches privilege below the level of the model: a trap is a call of \<open>usertrap\<close> with the trap frame in memory, and a context switch is a change of
  the running process. The translation look-aside buffer, memory ordering and the device side of the console and disk beyond the registers the code reads. The test
  programs (\<^verbatim>\<open>usertests.c\<close>, \<^verbatim>\<open>mmaptest.c\<close>, \<^verbatim>\<open>grind.c\<close>, \<^verbatim>\<open>forktest.c\<close>, \<^verbatim>\<open>stressfs.c\<close>): sequences of system calls with checks of their results. Build and grading
  scripts, and header files that only declare; their constants appear as literals. Initialisers that only name a lock.
\<close>

section \<open>From the image builder to the kernel\<close>



end
